(* ===== verification/Prelude.thy ===== *)
theory Prelude
  imports
    Main
    "HOL-Library.Word"
    "HOL-Library.Signed_Division"
    "HOL-Library.AList"
    "HOL-Library.Monad_Syntax"
begin

text \<open>
  Shared vocabulary of the development: the names of Go's machine types, the pieces of the
  Go language and standard library that the sources use (slices and \<open>copy\<close>, truncating
  division, \<open>time.Time.Sub\<close>, big-endian encoding, \<open>map\<close> as an association list), and the
  generic lemmas on lists, words and association lists that the component theories share.

  Conventions.
  \<^item> A Go \<open>uint8\<close>, \<open>uint32\<close>, \<open>uint64\<close> is a word of that width, so \<open>+\<close> wraps and \<open><\<close> is the
    unsigned comparison, exactly as in the source.
  \<^item> A Go \<open>int\<close> that is a length or an index is a \<^typ>\<open>nat\<close>; an \<open>int\<close> or \<open>int64\<close> that may be
    negative is an \<^typ>\<open>int\<close>; where a 64-bit product or conversion can leave the range, the
    wrap-around is written out with \<open>int64\<close>.
  \<^item> A slice is the list of its elements. A panic (index or slice bounds out of range) is
    \<^const>\<open>None\<close>; an error return is \<^const>\<open>Inl\<close>.
  \<^item> A \<open>time.Time\<close> is the number of nanoseconds since Go's zero time, so \<open>t.IsZero()\<close> is
    \<open>t = 0\<close>; a \<open>time.Duration\<close> is a number of nanoseconds.
\<close>

unbundle bit_operations_syntax

section \<open>Names of the machine types\<close>

type_synonym byte = "8 word"
type_synonym u8 = "8 word"
type_synonym u32 = "32 word"
type_synonym u64 = "64 word"
type_synonym bytes = "byte list"
type_synonym time = int
type_synonym duration = int
type_synonym ('k, 'v) gomap = "('k \<times> 'v) list"

text \<open>
  Collections the component theories add to: \<open>wire_simps\<close> unfolds encoders and decoders,
  \<open>ring_simps\<close> the ring buffer, \<open>frame_rules\<close> the facts that an operation leaves a field alone.
\<close>

named_theorems wire_simps
named_theorems ring_simps
named_theorems frame_rules

section \<open>Slices\<close>

text \<open>\<open>copy(dst[off:], src)\<close>: as many elements as fit, the rest of \<open>dst\<close> unchanged.\<close>

definition go_copy :: "'a list \<Rightarrow> nat \<Rightarrow> 'a list \<Rightarrow> 'a list" where
  "go_copy dst off src =
     take off dst @ take (length dst - off) src @ drop (off + length src) dst"

text \<open>A write of \<open>bs\<close> at a fixed offset, as \<open>PutUint32(buf[off:off+4], v)\<close> does: out of range
  is a panic.\<close>

definition put_bytes :: "'a list \<Rightarrow> nat \<Rightarrow> 'a list \<Rightarrow> 'a list option" where
  "put_bytes buf off bs =
     (if off + length bs \<le> length buf
      then Some (take off buf @ bs @ drop (off + length bs) buf) else None)"

text \<open>\<open>buf[lo:hi]\<close> on a slice whose bounds have been checked.\<close>

definition slice :: "'a list \<Rightarrow> nat \<Rightarrow> nat \<Rightarrow> 'a list" where
  "slice xs lo hi = take (hi - lo) (drop lo xs)"

lemma length_go_copy [simp]: "off \<le> length dst \<Longrightarrow> length (go_copy dst off src) = length dst"
  by (simp add: go_copy_def)

lemma go_copy_full: "length src = length dst \<Longrightarrow> go_copy dst 0 src = src"
  by (simp add: go_copy_def)

lemma go_copy_prefix: "length src \<le> length dst \<Longrightarrow> go_copy dst 0 src = src @ drop (length src) dst"
  by (simp add: go_copy_def)

lemma go_copy_at: "off + length src \<le> length dst \<Longrightarrow>
  go_copy dst off src = take off dst @ src @ drop (off + length src) dst"
  by (simp add: go_copy_def)

lemma put_bytes_Some [simp]: "off + length bs \<le> length buf \<Longrightarrow>
  put_bytes buf off bs = Some (take off buf @ bs @ drop (off + length bs) buf)"
  by (simp add: put_bytes_def)

lemma put_bytes_None [simp]: "\<not> off + length bs \<le> length buf \<Longrightarrow> put_bytes buf off bs = None"
  by (simp add: put_bytes_def)

lemma put_bytes_eq_SomeD: "put_bytes buf off bs = Some buf' \<Longrightarrow> length buf' = length buf"
  by (auto simp: put_bytes_def split: if_splits)

text \<open>A write right after an already written prefix extends the prefix.\<close>

lemma put_bytes_append: "length xs = off \<Longrightarrow> length bs \<le> length ys \<Longrightarrow>
  put_bytes (xs @ ys) off bs = Some ((xs @ bs) @ drop (length bs) ys)"
  by (simp add: put_bytes_def)

lemma slice_append_left: "hi \<le> length xs \<Longrightarrow> slice (xs @ ys) lo hi = slice xs lo hi"
  by (cases "lo \<le> hi") (simp_all add: slice_def)

lemma length_slice [simp]: "hi \<le> length xs \<Longrightarrow> length (slice xs lo hi) = hi - lo"
  by (cases "lo \<le> hi") (simp_all add: slice_def)

lemma slice_mid: "length xs = lo \<Longrightarrow> length ys = hi - lo \<Longrightarrow> slice (xs @ ys @ zs) lo hi = ys"
  by (simp add: slice_def)

section \<open>Integers\<close>

text \<open>Conversion of a mathematical integer to the value a Go \<open>int64\<close> holds.\<close>

definition int64 :: "int \<Rightarrow> int" where
  "int64 x = sint (word_of_int x :: u64)"

text \<open>\<open>int64(w)\<close> and \<open>uint64(i)\<close> for the flow-control offsets.\<close>

definition int64_of_u64 :: "u64 \<Rightarrow> int" where
  "int64_of_u64 w = sint w"

definition u64_of_int64 :: "int \<Rightarrow> u64" where
  "u64_of_int64 i = word_of_int i"

lemma int64_id: "- (2 ^ 63) \<le> x \<Longrightarrow> x < 2 ^ 63 \<Longrightarrow> int64 x = x"
  by (simp add: int64_def signed_of_int signed_take_bit_int_eq_self)

lemma int64_of_u64_of_int64: "- (2 ^ 63) \<le> x \<Longrightarrow> x < 2 ^ 63 \<Longrightarrow> int64_of_u64 (u64_of_int64 x) = x"
  using int64_id [of x] by (simp add: int64_def int64_of_u64_def u64_of_int64_def)

text \<open>\<open>t.Sub(u)\<close> saturates at the range of a duration.\<close>

definition max_duration :: duration where
  "max_duration = 2 ^ 63 - 1"

definition min_duration :: duration where
  "min_duration = - (2 ^ 63)"

definition time_sub :: "time \<Rightarrow> time \<Rightarrow> duration" where
  "time_sub t u = max min_duration (min max_duration (t - u))"

lemma time_sub_self [simp]: "time_sub t t = 0"
  by (simp add: time_sub_def max_duration_def min_duration_def)

lemma time_sub_mono: "t \<le> t' \<Longrightarrow> time_sub t u \<le> time_sub t' u"
  by (simp add: time_sub_def)

lemma time_sub_antimono: "u \<le> u' \<Longrightarrow> time_sub t u' \<le> time_sub t u"
  by (simp add: time_sub_def)

lemma time_sub_nonneg_iff: "0 \<le> time_sub t u \<longleftrightarrow> u \<le> t"
  by (auto simp: time_sub_def max_duration_def min_duration_def)

text \<open>The durations the sources write.\<close>

definition Microsecond :: duration where "Microsecond = 1000"
definition Millisecond :: duration where "Millisecond = 1000000"
definition Second :: duration where "Second = 1000000000"

lemmas duration_units = Microsecond_def Millisecond_def Second_def

section \<open>Words\<close>

lemma unat_Suc32: "unat (w :: u32) + 1 < 2 ^ 32 \<Longrightarrow> unat (w + 1) = unat w + 1"
  by (simp add: unat_word_ariths)

lemma unat32_less: "unat (w :: u32) < 2 ^ 32"
  using unsigned_less [of w, where ?'a = nat] by simp

lemma unat_mult32: "unat (x :: u32) * unat y < 2 ^ 32 \<Longrightarrow> unat (x * y) = unat x * unat y"
  by (simp add: unat_word_ariths)

lemma unat_div_times32: "unat ((x :: u32) div y * y) = unat x div unat y * unat y"
proof -
  have "unat x div unat y * unat y < 2 ^ 32"
    using le_less_trans [OF div_times_less_eq_dividend unat32_less] .
  then show ?thesis using unat_mult32 [of "x div y" y] by (simp add: unat_div)
qed

lemma unat_of_nat32 [simp]: "n < 2 ^ 32 \<Longrightarrow> unat (of_nat n :: u32) = n"
  by (simp add: unat_of_nat take_bit_nat_eq_self)

lemma of_nat_unat32 [simp]: "(of_nat (unat (w :: u32)) :: u32) = w"
  by simp

lemma word_less_unat: "(a :: 'a::len word) < b \<longleftrightarrow> unat a < unat b"
  by (simp add: word_less_nat_alt)

lemma word_le_unat: "(a :: 'a::len word) \<le> b \<longleftrightarrow> unat a \<le> unat b"
  by (simp add: word_le_nat_alt)

lemma word_eq_unat: "(a :: 'a::len word) = b \<longleftrightarrow> unat a = unat b"
  by (simp add: word_unat_eq_iff)

lemmas word_to_nat = word_less_unat word_le_unat

section \<open>Big-endian encoding (encoding/binary)\<close>

definition be32 :: "u32 \<Rightarrow> bytes" where
  "be32 v = [ucast (drop_bit 24 v), ucast (drop_bit 16 v), ucast (drop_bit 8 v), ucast v]"

definition Uint32 :: "bytes \<Rightarrow> u32" where
  "Uint32 b = ucast (b ! 3) OR push_bit 8 (ucast (b ! 2)) OR push_bit 16 (ucast (b ! 1))
     OR push_bit 24 (ucast (b ! 0))"

definition be64 :: "u64 \<Rightarrow> bytes" where
  "be64 v = be32 (ucast (drop_bit 32 v)) @ be32 (ucast v)"

definition Uint64 :: "bytes \<Rightarrow> u64" where
  "Uint64 b = ucast (Uint32 (drop 4 b)) OR push_bit 32 (ucast (Uint32 (take 4 b)))"

lemma length_be32 [simp]: "length (be32 v) = 4"
  by (simp add: be32_def)

lemma length_be64 [simp]: "length (be64 v) = 8"
  by (simp add: be64_def)

lemma Uint32_be32 [simp]: "Uint32 (be32 v) = v"
proof (rule bit_word_eqI)
  fix n
  assume "n < LENGTH(32)"
  then consider "n < 8" | "8 \<le> n \<and> n < 16" | "16 \<le> n \<and> n < 24" | "24 \<le> n \<and> n < 32"
    by fastforce
  then show "bit (Uint32 (be32 v)) n \<longleftrightarrow> bit v n"
    by cases (auto simp: Uint32_def be32_def bit_simps)
qed

lemma Uint32_append [simp]: "4 \<le> length xs \<Longrightarrow> Uint32 (xs @ ys) = Uint32 xs"
  by (cases "xs = []") (simp_all add: Uint32_def nth_append)

lemma Uint64_be64 [simp]: "Uint64 (be64 v) = v"
proof (rule bit_word_eqI)
  fix n
  assume "n < LENGTH(64)"
  then consider "n < 32" | "32 \<le> n \<and> n < 64" by fastforce
  then show "bit (Uint64 (be64 v)) n \<longleftrightarrow> bit v n"
    by cases (auto simp: Uint64_def be64_def bit_simps)
qed

lemma Uint64_append [simp]: "length xs = 8 \<Longrightarrow> Uint64 (xs @ ys) = Uint64 xs"
  by (simp add: Uint64_def)

section \<open>Go maps as association lists\<close>

text \<open>
  A Go map is an association list with distinct keys. The order of the list stands for nothing
  in the source; where the source iterates over a map and the order shows, the theory says so.
\<close>

definition mget :: "('k, 'v) gomap \<Rightarrow> 'k \<Rightarrow> 'v option" where
  "mget m k = map_of m k"

definition mput :: "'k \<Rightarrow> 'v \<Rightarrow> ('k, 'v) gomap \<Rightarrow> ('k, 'v) gomap" where
  "mput k v m = AList.update k v m"

definition mdel :: "'k \<Rightarrow> ('k, 'v) gomap \<Rightarrow> ('k, 'v) gomap" where
  "mdel k m = AList.delete k m"

definition mkeys :: "('k, 'v) gomap \<Rightarrow> 'k list" where
  "mkeys m = map fst m"

definition mok :: "('k, 'v) gomap \<Rightarrow> bool" where
  "mok m \<longleftrightarrow> distinct (mkeys m)"

lemma mget_Nil [simp]: "mget [] k = None"
  by (simp add: mget_def)

lemma mget_mput: "mget (mput k v m) k' = (if k' = k then Some v else mget m k')"
  by (simp add: mget_def mput_def update_conv')

lemma mget_mdel: "mget (mdel k m) k' = (if k' = k then None else mget m k')"
  by (simp add: mget_def mdel_def delete_conv')

lemma mget_mput_same [simp]: "mget (mput k v m) k = Some v"
  and mget_mput_other [simp]: "k' \<noteq> k \<Longrightarrow> mget (mput k v m) k' = mget m k'"
  and mget_mdel_same [simp]: "mget (mdel k m) k = None"
  and mget_mdel_other [simp]: "k' \<noteq> k \<Longrightarrow> mget (mdel k m) k' = mget m k'"
  by (simp_all add: mget_mput mget_mdel)

lemma mok_Nil [simp]: "mok []"
  by (simp add: mok_def mkeys_def)

lemma mok_mput [simp]: "mok m \<Longrightarrow> mok (mput k v m)"
  by (simp add: mok_def mkeys_def mput_def distinct_update)

lemma mok_mdel [simp]: "mok m \<Longrightarrow> mok (mdel k m)"
  by (simp add: mok_def mkeys_def mdel_def distinct_delete)

lemma mget_SomeD: "mget m k = Some v \<Longrightarrow> (k, v) \<in> set m"
  by (simp add: mget_def map_of_SomeD)

lemma mget_iff: "mok m \<Longrightarrow> mget m k = Some v \<longleftrightarrow> (k, v) \<in> set m"
  by (simp add: mget_def mok_def mkeys_def)

lemma mget_None_iff: "mget m k = None \<longleftrightarrow> k \<notin> set (mkeys m)"
  by (simp add: mget_def mkeys_def map_of_eq_None_iff)

lemma length_mdel_Some: "mok m \<Longrightarrow> mget m k = Some v \<Longrightarrow> Suc (length (mdel k m)) = length m"
proof (induction m)
  case Nil
  then show ?case by simp
next
  case (Cons p m)
  have "k \<notin> set (mkeys m) \<Longrightarrow> AList.delete k m = m"
    by (induction m) (auto simp: mkeys_def)
  with Cons show ?case
    by (cases p) (auto simp: mok_def mkeys_def mget_def mdel_def split: if_splits)
qed

lemma length_mput_Some: "mget m k = Some v' \<Longrightarrow> length (mput k v m) = length m"
  by (induction m) (auto simp: mget_def mput_def split: if_splits)

lemma length_mput_None: "mget m k = None \<Longrightarrow> length (mput k v m) = Suc (length m)"
  by (induction m) (auto simp: mget_def mput_def split: if_splits)

lemma mdel_mput_fresh: "mget m k = None \<Longrightarrow> mdel k (mput k v m) = m"
  by (induction m) (auto simp: mget_def mdel_def mput_def split: if_splits)

lemma mok_filter: "mok m \<Longrightarrow> mok (filter P m)"
  by (simp add: mok_def mkeys_def distinct_map_filter)

lemma mget_filter: "mok m \<Longrightarrow>
  mget (filter P m) k = (case mget m k of None \<Rightarrow> None | Some v \<Rightarrow> if P (k, v) then Some v else None)"
  by (induction m) (auto simp: mget_def mok_def mkeys_def map_of_eq_None_iff rev_image_eqI split: option.splits)

section \<open>Simulation\<close>

text \<open>
  The contract between a detailed component and its abstract specification: from a state that satisfies
  the invariant, every enabled event keeps the invariant and acts on the abstraction of the state as the
  specification says. Sequences of events then agree.
\<close>

fun allowed :: "('e \<Rightarrow> 'c \<Rightarrow> bool) \<Rightarrow> ('e \<Rightarrow> 'c \<Rightarrow> 'c) \<Rightarrow> 'e list \<Rightarrow> 'c \<Rightarrow> bool" where
  "allowed enabled cstep [] c = True"
| "allowed enabled cstep (e # es) c = (enabled e c \<and> allowed enabled cstep es (cstep e c))"

locale simulation =
  fixes abs :: "'c \<Rightarrow> 'a" and inv :: "'c \<Rightarrow> bool" and enabled :: "'e \<Rightarrow> 'c \<Rightarrow> bool"
    and cstep :: "'e \<Rightarrow> 'c \<Rightarrow> 'c" and astep :: "'e \<Rightarrow> 'a \<Rightarrow> 'a"
  assumes step_inv: "inv c \<Longrightarrow> enabled e c \<Longrightarrow> inv (cstep e c)"
    and step_abs: "inv c \<Longrightarrow> enabled e c \<Longrightarrow> abs (cstep e c) = astep e (abs c)"
begin

lemma run_inv: "inv c \<Longrightarrow> allowed enabled cstep es c \<Longrightarrow> inv (fold cstep es c)"
  by (induction es arbitrary: c) (auto intro: step_inv)

lemma run_abs: "inv c \<Longrightarrow> allowed enabled cstep es c \<Longrightarrow> abs (fold cstep es c) = fold astep es (abs c)"
proof (induction es arbitrary: c)
  case (Cons e es)
  then have "inv (cstep e c)" "abs (cstep e c) = astep e (abs c)" by (simp_all add: step_inv step_abs)
  with Cons show ?case by simp
qed simp

lemma run_kept:
  assumes "inv c" "allowed enabled cstep es c" "P (abs c)" "\<And>e a. e \<in> set es \<Longrightarrow> P a \<Longrightarrow> P (astep e a)"
  shows "P (abs (fold cstep es c))"
proof -
  have "P a \<Longrightarrow> P (fold astep es a)" for a
    using assms(4) by (induction es arbitrary: a) auto
  then show ?thesis using run_abs [OF assms(1,2)] assms(3) by simp
qed

end

end
