(* ===== verification/Frame.thy ===== *)
theory Frame
  imports Prelude
begin

text \<open>
  The wire format, \<open>frame.go\<close>: the frame types, the 13-byte header, complete frames, the
  sequence-list payload shared by ACK and NACK, and the 8-byte payloads of WINDOW_UPDATE,
  RESET_STREAM and the handshake. An encoder writes into a caller's buffer; running out of the
  buffer is a panic (\<^const>\<open>None\<close>), except that the payload \<open>copy\<close> of \<open>encodeFrame\<close> silently
  stops at the end of the buffer. Decoders return their error as \<^const>\<open>Inl\<close>.

  The lemmas: every encoder writes exactly the concatenation of its fields and leaves the rest of
  the buffer alone; decoding undoes encoding whatever follows in the buffer; decoders fail exactly
  on short input; chunking a sequence list covers it exactly once in order.
\<close>

section \<open>Constants\<close>

definition frameData :: u8 where "frameData = 0x01"
definition frameStreamOpen :: u8 where "frameStreamOpen = 0x02"
definition frameStreamClose :: u8 where "frameStreamClose = 0x03"
definition frameStreamFIN :: u8 where "frameStreamFIN = 0x04"
definition frameWindowUpdate :: u8 where "frameWindowUpdate = 0x05"
definition framePing :: u8 where "framePing = 0x06"
definition framePong :: u8 where "framePong = 0x07"
definition frameGoAway :: u8 where "frameGoAway = 0x08"
definition frameACK :: u8 where "frameACK = 0x09"
definition frameHandshake :: u8 where "frameHandshake = 0x0A"
definition frameStreamReset :: u8 where "frameStreamReset = 0x0B"
definition frameStopSending :: u8 where "frameStopSending = 0x0C"
definition frameNack :: u8 where "frameNack = 0x0D"
definition frameFEC :: u8 where "frameFEC = 0x0E"
definition frameFECRow :: u8 where "frameFECRow = 0x0F"

lemmas frame_type_defs = frameData_def frameStreamOpen_def frameStreamClose_def frameStreamFIN_def
  frameWindowUpdate_def framePing_def framePong_def frameGoAway_def frameACK_def
  frameHandshake_def frameStreamReset_def frameStopSending_def frameNack_def frameFEC_def
  frameFECRow_def

definition fecMetaLen :: nat where "fecMetaLen = 4"
definition frameHeaderSize :: nat where "frameHeaderSize = 13"
definition defaultMaxPayloadSize :: nat where "defaultMaxPayloadSize = 1200"
definition defaultMaxDatagramSize :: nat where
  "defaultMaxDatagramSize = frameHeaderSize + defaultMaxPayloadSize"

datatype frame_error =
    HeaderTooSmall
  | PayloadTruncated nat nat
  | SeqListTooSmall
  | SeqListTruncated nat nat
  | SeqListNoCapacity
  | WindowUpdateTooSmall
  | HandshakeTooSmall

record frame =
  ftype :: u8
  streamID :: u32
  seq :: u32
  flength :: u32
  payload :: bytes

section \<open>Sequence-list chunking\<close>

definition maxAckSeqsPerFrame :: "int \<Rightarrow> int" where
  "maxAckSeqsPerFrame maxPayload = (maxPayload - 8) sdiv 4"

text \<open>
  The callback of \<open>forEachSeqListChunk\<close> is a state transformer that may fail; the loop stops at
  its first error. The recursion is the source's loop over the shrinking slice.
\<close>

function seqListChunkLoop ::
  "nat \<Rightarrow> ('s \<Rightarrow> u32 list \<Rightarrow> ('e + unit) \<times> 's) \<Rightarrow> u32 list \<Rightarrow> 's \<Rightarrow> ('e + unit) \<times> 's" where
  "seqListChunkLoop maxSeqs visit seqs st =
     (if seqs = [] \<or> maxSeqs = 0 then (Inr (), st)
      else let n = min (length seqs) maxSeqs in
           case visit st (take n seqs) of
             (Inl e, st') \<Rightarrow> (Inl e, st')
           | (Inr _, st') \<Rightarrow> seqListChunkLoop maxSeqs visit (drop n seqs) st')"
  by pat_completeness auto
termination
  by (relation "measure (\<lambda>(m, v, xs, st). length xs)") (auto simp: min_def)

declare seqListChunkLoop.simps [simp del]

definition forEachSeqListChunk ::
  "u32 list \<Rightarrow> int \<Rightarrow> ('s \<Rightarrow> u32 list \<Rightarrow> (frame_error + unit) \<times> 's) \<Rightarrow> 's \<Rightarrow> (frame_error + unit) \<times> 's" where
  "forEachSeqListChunk seqs maxPayload visit st =
     (let maxSeqs = maxAckSeqsPerFrame maxPayload in
      if maxSeqs \<le> 0 then (Inl SeqListNoCapacity, st)
      else seqListChunkLoop (nat maxSeqs) visit seqs st)"

section \<open>Encoders and decoders\<close>

definition encodeHeader :: "bytes \<Rightarrow> u8 \<Rightarrow> u32 \<Rightarrow> u32 \<Rightarrow> u32 \<Rightarrow> bytes option" where
  "encodeHeader buf ty sid sq len = do {
     b0 \<leftarrow> put_bytes buf 0 [ty];
     b1 \<leftarrow> put_bytes b0 1 (be32 sid);
     b2 \<leftarrow> put_bytes b1 5 (be32 sq);
     put_bytes b2 9 (be32 len)
   }"

definition encodeFrame :: "bytes \<Rightarrow> u8 \<Rightarrow> u32 \<Rightarrow> u32 \<Rightarrow> bytes \<Rightarrow> (bytes \<times> nat) option" where
  "encodeFrame buf ty sid sq pl = do {
     let plen = (of_nat (length pl) :: u32);
     b \<leftarrow> encodeHeader buf ty sid sq plen;
     Some (go_copy b frameHeaderSize pl, frameHeaderSize + unat plen)
   }"

fun putSeqs :: "bytes \<Rightarrow> nat \<Rightarrow> u32 list \<Rightarrow> bytes option" where
  "putSeqs buf i [] = Some buf"
| "putSeqs buf i (sq # seqs) = do {
     b \<leftarrow> put_bytes buf (frameHeaderSize + 8 + 4 * i) (be32 sq);
     putSeqs b (Suc i) seqs
   }"

definition encodeSeqListFrame ::
  "bytes \<Rightarrow> u8 \<Rightarrow> u32 \<Rightarrow> u32 \<Rightarrow> u32 list \<Rightarrow> (bytes \<times> nat) option" where
  "encodeSeqListFrame buf ty sid cumulative seqs = do {
     let plen = (of_nat (8 + 4 * length seqs) :: u32);
     b0 \<leftarrow> encodeHeader buf ty sid 0 plen;
     b1 \<leftarrow> put_bytes b0 frameHeaderSize (be32 cumulative);
     b2 \<leftarrow> put_bytes b1 (frameHeaderSize + 4) (be32 (of_nat (length seqs)));
     b3 \<leftarrow> putSeqs b2 0 seqs;
     Some (b3, frameHeaderSize + unat plen)
   }"

definition encodeAckFrame :: "bytes \<Rightarrow> u32 \<Rightarrow> u32 \<Rightarrow> u32 list \<Rightarrow> (bytes \<times> nat) option" where
  "encodeAckFrame buf sid cumulative seqs = encodeSeqListFrame buf frameACK sid cumulative seqs"

text \<open>
  The decoder fills the caller's scratch slice when its capacity suffices, a fresh one otherwise;
  \<open>fillSeqs\<close> is the \<open>for i := range seqs\<close> loop that overwrites every element.
\<close>

fun fillSeqs :: "bytes \<Rightarrow> nat \<Rightarrow> u32 list \<Rightarrow> u32 list" where
  "fillSeqs pl i [] = []"
| "fillSeqs pl i (_ # seqs) = Uint32 (slice pl (8 + 4 * i) (8 + 4 * i + 4)) # fillSeqs pl (Suc i) seqs"

definition decodeSeqListFrame :: "frame \<Rightarrow> u32 list \<Rightarrow> frame_error + u32 \<times> u32 list" where
  "decodeSeqListFrame f scratch =
     (if length (payload f) < 8 then Inl SeqListTooSmall
      else let cumulative = Uint32 (slice (payload f) 0 4);
               count = unat (Uint32 (slice (payload f) 4 8));
               need = 8 + 4 * count in
           if length (payload f) < need then Inl (SeqListTruncated (length (payload f)) need)
           else let seqs = (if count \<le> length scratch then take count scratch else replicate count 0)
                in Inr (cumulative, fillSeqs (payload f) 0 seqs))"

definition decodeHeader :: "bytes \<Rightarrow> frame_error + u8 \<times> u32 \<times> u32 \<times> u32" where
  "decodeHeader buf =
     (if length buf < frameHeaderSize then Inl HeaderTooSmall
      else Inr (buf ! 0, Uint32 (slice buf 1 5), Uint32 (slice buf 5 9), Uint32 (slice buf 9 13)))"

definition decodeFrame :: "bytes \<Rightarrow> frame_error + frame" where
  "decodeFrame buf =
     (case decodeHeader buf of
        Inl e \<Rightarrow> Inl e
      | Inr (ty, sid, sq, len) \<Rightarrow>
          let total = frameHeaderSize + unat len in
          if length buf < total
          then Inl (PayloadTruncated (length buf - frameHeaderSize) (unat len))
          else Inr \<lparr>ftype = ty, streamID = sid, seq = sq, flength = len,
                    payload = (if 0 < unat len then slice buf frameHeaderSize total else [])\<rparr>)"

definition windowUpdatePayload :: "u64 \<Rightarrow> bytes" where
  "windowUpdatePayload offset = be64 offset"

definition decodeWindowUpdatePayload :: "bytes \<Rightarrow> frame_error + u64" where
  "decodeWindowUpdatePayload pl =
     (if length pl < 8 then Inl WindowUpdateTooSmall else Inr (Uint64 (take 8 pl)))"

definition resetPayload :: "u64 \<Rightarrow> bytes" where
  "resetPayload code = be64 code"

definition decodeResetPayload :: "bytes \<Rightarrow> u64" where
  "decodeResetPayload pl = (if length pl < 8 then 0 else Uint64 (take 8 pl))"

definition handshakePayload :: "u64 \<Rightarrow> bytes" where
  "handshakePayload connID = be64 connID"

definition decodeHandshake :: "bytes \<Rightarrow> frame_error + u64" where
  "decodeHandshake pl =
     (if length pl < 8 then Inl HandshakeTooSmall else Inr (Uint64 (take 8 pl)))"

section \<open>The bytes an encoder produces\<close>

text \<open>Reference encodings: the wire image as a plain concatenation of fields.\<close>

definition header_bytes :: "u8 \<Rightarrow> u32 \<Rightarrow> u32 \<Rightarrow> u32 \<Rightarrow> bytes" where
  "header_bytes ty sid sq len = [ty] @ be32 sid @ be32 sq @ be32 len"

definition frame_bytes :: "u8 \<Rightarrow> u32 \<Rightarrow> u32 \<Rightarrow> bytes \<Rightarrow> bytes" where
  "frame_bytes ty sid sq pl = header_bytes ty sid sq (of_nat (length pl)) @ pl"

definition seqlist_bytes :: "u32 \<Rightarrow> u32 list \<Rightarrow> bytes" where
  "seqlist_bytes cumulative seqs =
     be32 cumulative @ be32 (of_nat (length seqs)) @ concat (map be32 seqs)"

lemma length_header_bytes [simp]: "length (header_bytes ty sid sq len) = frameHeaderSize"
  by (simp add: header_bytes_def frameHeaderSize_def)

lemma length_frame_bytes [simp]: "length (frame_bytes ty sid sq pl) = frameHeaderSize + length pl"
  by (simp add: frame_bytes_def)

lemma length_concat_be32 [simp]: "length (concat (map be32 seqs)) = 4 * length seqs"
  by (induction seqs) simp_all

lemma length_seqlist_bytes [simp]: "length (seqlist_bytes c seqs) = 8 + 4 * length seqs"
  by (simp add: seqlist_bytes_def)

lemma encodeHeader_eq [wire_simps]:
  assumes "frameHeaderSize \<le> length buf"
  shows "encodeHeader buf ty sid sq len = Some (header_bytes ty sid sq len @ drop frameHeaderSize buf)"
proof -
  from assms have l: "13 \<le> length buf" by (simp add: frameHeaderSize_def)
  have "put_bytes buf 0 [ty] = Some ([ty] @ drop 1 buf)"
    using l by (simp add: put_bytes_def)
  moreover have "put_bytes ([ty] @ drop 1 buf) 1 (be32 sid) = Some (([ty] @ be32 sid) @ drop 5 buf)"
    using l by (subst put_bytes_append) auto
  moreover have "put_bytes (([ty] @ be32 sid) @ drop 5 buf) 5 (be32 sq)
      = Some ((([ty] @ be32 sid) @ be32 sq) @ drop 9 buf)"
    using l by (subst put_bytes_append) auto
  moreover have "put_bytes ((([ty] @ be32 sid) @ be32 sq) @ drop 9 buf) 9 (be32 len)
      = Some (((([ty] @ be32 sid) @ be32 sq) @ be32 len) @ drop 13 buf)"
    using l by (subst put_bytes_append) auto
  ultimately show ?thesis
    by (simp add: encodeHeader_def header_bytes_def frameHeaderSize_def)
qed

lemma encodeHeader_panic: "length buf < frameHeaderSize \<Longrightarrow> encodeHeader buf ty sid sq len = None"
  by (auto simp: encodeHeader_def frameHeaderSize_def put_bytes_def split: bind_split)

lemma encodeFrame_eq [wire_simps]:
  assumes "frameHeaderSize + length pl \<le> length buf" and "length pl < 2 ^ 32"
  shows "encodeFrame buf ty sid sq pl
    = Some (frame_bytes ty sid sq pl @ drop (frameHeaderSize + length pl) buf, frameHeaderSize + length pl)"
  using assms
  by (simp add: encodeFrame_def encodeHeader_eq frame_bytes_def go_copy_at add.commute)

lemma putSeqs_eq:
  "length pre = frameHeaderSize + 8 + 4 * i \<Longrightarrow> 4 * length seqs \<le> length suf \<Longrightarrow>
   putSeqs (pre @ suf) i seqs = Some (pre @ concat (map be32 seqs) @ drop (4 * length seqs) suf)"
proof (induction seqs arbitrary: pre i suf)
  case Nil
  then show ?case by simp
next
  case (Cons sq seqs)
  have "put_bytes (pre @ suf) (frameHeaderSize + 8 + 4 * i) (be32 sq)
      = Some ((pre @ be32 sq) @ drop 4 suf)"
    using Cons.prems by (subst put_bytes_append) auto
  moreover have "putSeqs ((pre @ be32 sq) @ drop 4 suf) (Suc i) seqs
      = Some ((pre @ be32 sq) @ concat (map be32 seqs) @ drop (4 * length seqs) (drop 4 suf))"
    using Cons.prems by (intro Cons.IH) auto
  ultimately show ?case by (simp add: add.commute)
qed

lemma encodeSeqListFrame_eq [wire_simps]:
  assumes fit: "frameHeaderSize + 8 + 4 * length seqs \<le> length buf"
    and small: "8 + 4 * length seqs < 2 ^ 32"
  shows "encodeSeqListFrame buf ty sid cum seqs
    = Some (frame_bytes ty sid 0 (seqlist_bytes cum seqs)
              @ drop (frameHeaderSize + 8 + 4 * length seqs) buf,
            frameHeaderSize + 8 + 4 * length seqs)"
proof -
  let ?n = "of_nat (8 + 4 * length seqs) :: u32"
  let ?h = "header_bytes ty sid 0 ?n"
  have h: "encodeHeader buf ty sid 0 ?n = Some (?h @ drop frameHeaderSize buf)"
    using fit by (intro encodeHeader_eq) simp
  have c: "put_bytes (?h @ drop frameHeaderSize buf) frameHeaderSize (be32 cum)
      = Some ((?h @ be32 cum) @ drop (frameHeaderSize + 4) buf)"
    using fit by (subst put_bytes_append) (auto simp: add.commute)
  have k: "put_bytes ((?h @ be32 cum) @ drop (frameHeaderSize + 4) buf) (frameHeaderSize + 4)
        (be32 (of_nat (length seqs)))
      = Some (((?h @ be32 cum) @ be32 (of_nat (length seqs))) @ drop (frameHeaderSize + 8) buf)"
    using fit by (subst put_bytes_append) (auto simp: add.commute)
  have s: "putSeqs (((?h @ be32 cum) @ be32 (of_nat (length seqs))) @ drop (frameHeaderSize + 8) buf) 0 seqs
      = Some (((?h @ be32 cum) @ be32 (of_nat (length seqs))) @ concat (map be32 seqs)
          @ drop (4 * length seqs) (drop (frameHeaderSize + 8) buf))"
    using fit by (intro putSeqs_eq) auto
  have n: "unat ?n = 8 + 4 * length seqs"
    using small by (rule unat_of_nat32)
  show ?thesis
    unfolding encodeSeqListFrame_def Let_def
    by (simp only: h c k s n bind.bind_lunit)
       (simp add: frame_bytes_def seqlist_bytes_def add.commute add.left_commute)
qed

section \<open>Decoding what was encoded\<close>

lemma decodeHeader_header_bytes [wire_simps]:
  "decodeHeader (header_bytes ty sid sq len @ rest) = Inr (ty, sid, sq, len)"
proof -
  let ?b = "header_bytes ty sid sq len @ rest"
  have "slice ([ty] @ be32 sid @ (be32 sq @ be32 len @ rest)) 1 5 = be32 sid"
    and "slice (([ty] @ be32 sid) @ be32 sq @ (be32 len @ rest)) 5 9 = be32 sq"
    and "slice (([ty] @ be32 sid @ be32 sq) @ be32 len @ rest) 9 13 = be32 len"
    by (rule slice_mid; simp)+
  then have "slice ?b 1 5 = be32 sid" and "slice ?b 5 9 = be32 sq" and "slice ?b 9 13 = be32 len"
    by (simp_all add: header_bytes_def)
  moreover have "?b ! 0 = ty"
    by (simp add: header_bytes_def)
  ultimately show ?thesis
    by (simp add: decodeHeader_def frameHeaderSize_def)
qed

lemma decodeHeader_short: "length buf < frameHeaderSize \<Longrightarrow> decodeHeader buf = Inl HeaderTooSmall"
  by (simp add: decodeHeader_def)

text \<open>The frame a decoder sees after an encoder.\<close>

definition mk_frame :: "u8 \<Rightarrow> u32 \<Rightarrow> u32 \<Rightarrow> bytes \<Rightarrow> frame" where
  "mk_frame ty sid sq pl =
     \<lparr>ftype = ty, streamID = sid, seq = sq, flength = of_nat (length pl), payload = pl\<rparr>"

lemma mk_frame_sel [simp]:
  "ftype (mk_frame ty sid sq pl) = ty" "streamID (mk_frame ty sid sq pl) = sid"
  "seq (mk_frame ty sid sq pl) = sq" "payload (mk_frame ty sid sq pl) = pl"
  "flength (mk_frame ty sid sq pl) = of_nat (length pl)"
  by (simp_all add: mk_frame_def)

lemma decodeFrame_frame_bytes [wire_simps]:
  assumes "length pl < 2 ^ 32"
  shows "decodeFrame (frame_bytes ty sid sq pl @ rest) = Inr (mk_frame ty sid sq pl)"
proof -
  have "slice (header_bytes ty sid sq (of_nat (length pl)) @ pl @ rest) frameHeaderSize
      (frameHeaderSize + length pl) = pl"
    by (rule slice_mid) simp_all
  with assms show ?thesis
    by (simp add: decodeFrame_def frame_bytes_def decodeHeader_header_bytes mk_frame_def)
qed

lemma decodeFrame_lengthD:
  "decodeFrame buf = Inr f \<Longrightarrow> frameHeaderSize + unat (flength f) \<le> length buf"
  by (auto simp: decodeFrame_def decodeHeader_def Let_def split: if_splits)

lemma decodeFrame_payload_length:
  "decodeFrame buf = Inr f \<Longrightarrow> length (payload f) = unat (flength f)"
  by (auto simp: decodeFrame_def decodeHeader_def Let_def split: if_splits)

lemma fillSeqs_eq:
  "length pre = 8 + 4 * i \<Longrightarrow> length junk = length seqs \<Longrightarrow>
   fillSeqs (pre @ concat (map be32 seqs) @ rest) i junk = seqs"
proof (induction seqs arbitrary: pre i junk)
  case Nil
  then show ?case by simp
next
  case (Cons sq seqs)
  then obtain j junk' where junk: "junk = j # junk'" by (cases junk) auto
  have "slice (pre @ be32 sq @ (concat (map be32 seqs) @ rest)) (8 + 4 * i) (8 + 4 * i + 4) = be32 sq"
    using Cons.prems by (intro slice_mid) simp_all
  moreover have "fillSeqs ((pre @ be32 sq) @ concat (map be32 seqs) @ rest) (Suc i) junk' = seqs"
    using Cons.prems junk by (intro Cons.IH) simp_all
  ultimately show ?case by (simp add: junk)
qed

lemma fillSeqs_length: "length (fillSeqs pl i junk) = length junk"
  by (induction junk arbitrary: i) simp_all

lemma fillSeqs_cong: "length junk = length junk' \<Longrightarrow> fillSeqs pl i junk = fillSeqs pl i junk'"
proof (induction junk arbitrary: i junk')
  case Nil
  then show ?case by simp
next
  case (Cons j junk)
  then obtain j' js where junk': "junk' = j' # js" and len: "length junk = length js"
    by (cases junk') auto
  from Cons.IH [OF len] show ?case by (simp add: junk')
qed

lemma decodeSeqListFrame_seqlist [wire_simps]:
  assumes "payload f = seqlist_bytes cum seqs @ rest" and "length seqs < 2 ^ 32"
  shows "decodeSeqListFrame f scratch = Inr (cum, seqs)"
proof -
  have p: "payload f = be32 cum @ be32 (of_nat (length seqs)) @ (concat (map be32 seqs) @ rest)"
    using assms(1) by (simp add: seqlist_bytes_def)
  have "slice ([] @ be32 cum @ be32 (of_nat (length seqs)) @ (concat (map be32 seqs) @ rest)) 0 4
      = be32 cum"
    by (rule slice_mid) simp_all
  then have c: "slice (payload f) 0 4 = be32 cum" by (simp add: p)
  have k: "slice (payload f) 4 8 = be32 (of_nat (length seqs))"
    unfolding p by (rule slice_mid) simp_all
  have "fillSeqs ((be32 cum @ be32 (of_nat (length seqs))) @ concat (map be32 seqs) @ rest) 0 junk
      = seqs" if "length junk = length seqs" for junk
    using that by (intro fillSeqs_eq) simp_all
  then have "fillSeqs (payload f) 0 junk = seqs" if "length junk = length seqs" for junk
    using that by (simp add: p)
  then show ?thesis
    using assms(2) by (simp add: decodeSeqListFrame_def c k Let_def) (simp add: p)
qed

lemma decodeSeqListFrame_scratch:
  "decodeSeqListFrame f scratch = decodeSeqListFrame f scratch'"
  by (auto simp: decodeSeqListFrame_def Let_def intro!: fillSeqs_cong)

section \<open>Chunking\<close>

text \<open>The chunks visited, in order, for a callback that records them and never fails.\<close>

definition record_chunk :: "u32 list list \<Rightarrow> u32 list \<Rightarrow> (frame_error + unit) \<times> u32 list list" where
  "record_chunk st chunk = (Inr (), st @ [chunk])"

function chunks_of :: "nat \<Rightarrow> 'a list \<Rightarrow> 'a list list" where
  "chunks_of n xs = (if xs = [] \<or> n = 0 then [] else take n xs # chunks_of n (drop n xs))"
  by pat_completeness auto
termination
  by (relation "measure (\<lambda>(n, xs). length xs)") auto

declare chunks_of.simps [simp del]

lemma seqListChunkLoop_record:
  "seqListChunkLoop n record_chunk seqs st = (Inr (), st @ chunks_of n seqs)"
proof (induction n seqs arbitrary: st rule: chunks_of.induct)
  case (1 n xs)
  show ?case
  proof (cases "xs = [] \<or> n = 0")
    case True
    then show ?thesis
      by (simp add: seqListChunkLoop.simps [of n record_chunk xs] chunks_of.simps [of n xs])
  next
    case False
    have "take (min (length xs) n) xs = take n xs" and "drop (min (length xs) n) xs = drop n xs"
      by (simp_all add: min_def)
    moreover have "record_chunk st (take n xs) = (Inr (), st @ [take n xs])"
      by (simp add: record_chunk_def)
    ultimately show ?thesis
      using False "1.IH" [of "st @ [take n xs]"]
      by (simp add: seqListChunkLoop.simps [of n record_chunk xs] chunks_of.simps [of n xs] Let_def)
  qed
qed

lemma concat_chunks_of: "0 < n \<Longrightarrow> concat (chunks_of n xs) = xs"
proof (induction n xs rule: chunks_of.induct)
  case (1 n xs)
  then show ?case
    by (cases "xs = []") (simp add: chunks_of.simps, simp add: chunks_of.simps [of n xs])
qed

lemma chunks_of_bounds: "c \<in> set (chunks_of n xs) \<Longrightarrow> c \<noteq> [] \<and> length c \<le> n"
proof (induction n xs rule: chunks_of.induct)
  case (1 n xs)
  then show ?case by (cases "xs = [] \<or> n = 0") (auto simp: chunks_of.simps [of n xs])
qed

lemma maxAckSeqsPerFrame_pos_iff: "0 < maxAckSeqsPerFrame m \<longleftrightarrow> 12 \<le> m"
  by (auto simp: maxAckSeqsPerFrame_def signed_divide_int_def sgn_if zero_less_mult_iff)

lemma maxAckSeqsPerFrame_fits: "12 \<le> m \<Longrightarrow> 8 + 4 * maxAckSeqsPerFrame m \<le> m"
  by (simp add: maxAckSeqsPerFrame_def signed_divide_int_def)

section \<open>Fixed-width payload codecs\<close>

text \<open>
  WINDOW_UPDATE, RESET_STREAM and the handshake share one contract: eight bytes on the wire,
  decodable whatever follows. The contract is stated once, with what a peer relies on.
\<close>

locale payload_codec =
  fixes enc :: "u64 \<Rightarrow> bytes"
    and dec :: "bytes \<Rightarrow> u64 option"
  assumes enc_width: "length (enc v) = 8"
    and dec_enc: "dec (enc v @ rest) = Some v"
    and dec_short: "length b < 8 \<Longrightarrow> dec b = None"
begin

lemma enc_inj: "enc v = enc w \<Longrightarrow> v = w"
  using dec_enc [of v "[]"] dec_enc [of w "[]"] by simp

lemma dec_truncated: "n < 8 \<Longrightarrow> dec (take n (enc v)) = None"
  by (rule dec_short) (simp add: enc_width)

lemma framed_roundtrip:
  "(case decodeFrame (frame_bytes ty sid sq (enc v) @ rest) of
      Inl _ \<Rightarrow> None | Inr f \<Rightarrow> dec (payload f)) = Some v"
  using dec_enc [of v "[]"] by (simp add: decodeFrame_frame_bytes enc_width)

end

definition ok :: "'e + 'a \<Rightarrow> 'a option" where
  "ok r = (case r of Inl _ \<Rightarrow> None | Inr x \<Rightarrow> Some x)"

lemma ok_simps [simp]: "ok (Inl e) = None" "ok (Inr x) = Some x"
  by (simp_all add: ok_def)

interpretation wu: payload_codec windowUpdatePayload "\<lambda>b. ok (decodeWindowUpdatePayload b)"
  by unfold_locales (simp_all add: windowUpdatePayload_def decodeWindowUpdatePayload_def)

interpretation hs: payload_codec handshakePayload "\<lambda>b. ok (decodeHandshake b)"
  by unfold_locales (simp_all add: handshakePayload_def decodeHandshake_def)

interpretation rs: payload_codec resetPayload
  "\<lambda>b. if length b < 8 then None else Some (decodeResetPayload b)"
  by unfold_locales (simp_all add: resetPayload_def decodeResetPayload_def)

section \<open>Properties of the wire format\<close>

text \<open>C30 (roundtrip). A frame encoded into any buffer with room for it is decoded back to the same type,
  stream, sequence number and payload, whatever bytes follow it on the wire; the encoder touches no
  byte of the buffer past the length it returns.\<close>

theorem frame_roundtrip:
  assumes "frameHeaderSize + length pl \<le> length buf" and "length pl < 2 ^ 32"
  shows "\<exists>buf' n. encodeFrame buf ty sid sq pl = Some (buf', n) \<and> n = frameHeaderSize + length pl
    \<and> length buf' = length buf \<and> drop n buf' = drop n buf
    \<and> decodeFrame (take n buf' @ rest)
        = Inr \<lparr>ftype = ty, streamID = sid, seq = sq, flength = of_nat (length pl), payload = pl\<rparr>"
  using assms decodeFrame_frame_bytes [OF assms(2), of ty sid sq rest]
  by (simp add: encodeFrame_eq mk_frame_def)

theorem frame_roundtrip_witness:
  "\<exists>buf' n. encodeFrame (replicate 20 7) frameData 3 9 [1, 2, 3] = Some (buf', n) \<and> n = frameHeaderSize + 3
    \<and> length buf' = 20 \<and> drop n buf' = drop n (replicate 20 7)
    \<and> decodeFrame (take n buf' @ [42])
        = Inr \<lparr>ftype = frameData, streamID = 3, seq = 9, flength = 3, payload = [1, 2, 3]\<rparr>"
  using frame_roundtrip [of "[1, 2, 3]" "replicate 20 7" frameData 3 9 "[42]"]
  by (simp add: frameHeaderSize_def)



end
