(* ===== verification/Pacer.thy ===== *)
theory Pacer
  imports Prelude Complex_Main
begin

text \<open>
  The shared egress pacer, \<open>pacer.go\<close>: carrier accounting, construction of the token bucket, its
  refill and the grant loop of \<open>waitBatch\<close> with its three priority classes.

  A call of \<open>waitBatch\<close> is a small state machine: it registers itself in the waiter counter of its
  class, then repeats a gate check (higher classes first) and a visit of the bucket under the mutex,
  until the bucket grants it or \<open>done\<close> is closed, and finally leaves its counter. Calls of several
  connections interleave between these points, so the machine is also given as a step relation over
  the pacer and the calls in progress.

  Floating point. \<open>refillLocked\<close> and the delay computation go through \<open>float64\<close>. \<open>f64\<close> is
  rounding to a 53-bit significand, ties to even, on the rationals; exponents are not bounded, and
  positive values below \<open>2 ^ -64\<close> (which no quotient of these computations reaches) are rounded
  at a fixed grid.

  The lemmas: bounds of the rounding; the bucket never holds more than one burst; the debt of each
  class is bounded; what is granted between two visits is bounded by the burst, the rate and the
  elapsed time; a full bucket grants any batch; the waiter counters count the calls in progress.
\<close>

section \<open>float64\<close>

fun ilog2 :: "nat \<Rightarrow> nat" where
  "ilog2 n = (if n < 2 then 0 else Suc (ilog2 (n div 2)))"

declare ilog2.simps [simp del]

definition scale2 :: "rat \<Rightarrow> int \<Rightarrow> rat" where
  "scale2 x s = (if 0 \<le> s then x * 2 ^ nat s else x / 2 ^ nat (- s))"

definition round_half_even :: "rat \<Rightarrow> int" where
  "round_half_even y =
     (let f = \<lfloor>y\<rfloor>; d = y - of_int f in
      if d < 1 / 2 then f else if 1 / 2 < d then f + 1 else if even f then f else f + 1)"

definition f64_exp :: "rat \<Rightarrow> int" where
  "f64_exp x = int (ilog2 (nat \<lfloor>x * 2 ^ 64\<rfloor>)) - 64"

definition f64_pos :: "rat \<Rightarrow> rat" where
  "f64_pos x = (let s = 52 - f64_exp x in scale2 (of_int (round_half_even (scale2 x s))) (- s))"

definition f64 :: "rat \<Rightarrow> rat" where
  "f64 x = (if x = 0 then 0 else if x < 0 then - f64_pos (- x) else f64_pos x)"

text \<open>\<open>int64(f)\<close> of a float in range truncates towards zero.\<close>

definition f64_trunc :: "rat \<Rightarrow> int" where
  "f64_trunc x = (if 0 \<le> x then \<lfloor>x\<rfloor> else \<lceil>x\<rceil>)"

section \<open>Accounting and construction\<close>

record WireAccounting =
  PerDatagramOverhead :: int
  MinimumDatagramSize :: int

definition Cost :: "WireAccounting \<Rightarrow> nat \<Rightarrow> int" where
  "Cost a udpPayloadBytes =
     (let overhead = (if PerDatagramOverhead a < 0 then 0 else PerDatagramOverhead a);
          minimum = (if MinimumDatagramSize a < 0 then 0 else MinimumDatagramSize a);
          cost = int udpPayloadBytes + overhead
      in if cost < minimum then minimum else cost)"

record WirePacerConfig =
  RateBytesPerSecond :: int
  BurstBytes :: int
  Accounting :: WireAccounting

record WirePacerStats =
  WireBytes :: u64
  UDPBytes :: u64
  Datagrams :: u64
  Batches :: u64
  CriticalBatches :: u64
  RecoveryBatches :: u64
  BulkBatches :: u64
  WaitTime :: duration

record WirePacer =
  rate :: int
  burstBytes :: int
  accounting :: WireAccounting
  tokens :: int
  last_t :: time
  recoveryWaiters :: int
  criticalWaiters :: int
  stats :: WirePacerStats

definition zeroStats :: WirePacerStats where
  "zeroStats = \<lparr>WireBytes = 0, UDPBytes = 0, Datagrams = 0, Batches = 0, CriticalBatches = 0,
     RecoveryBatches = 0, BulkBatches = 0, WaitTime = 0\<rparr>"

definition zeroAccounting :: WireAccounting where
  "zeroAccounting = \<lparr>PerDatagramOverhead = 0, MinimumDatagramSize = 0\<rparr>"

definition defaultPacingBurst :: duration where
  "defaultPacingBurst = 2 * Millisecond"

definition NewWirePacer :: "WirePacerConfig \<Rightarrow> time \<Rightarrow> WirePacer option" where
  "NewWirePacer cfg now =
     (if RateBytesPerSecond cfg \<le> 0 then None
      else
        let burst0 = (if BurstBytes cfg \<le> 0
                      then int64 (RateBytesPerSecond cfg * defaultPacingBurst) sdiv Second
                      else BurstBytes cfg);
            burst = (if burst0 < 1 then 1 else burst0);
            oh = PerDatagramOverhead (Accounting cfg);
            mn = MinimumDatagramSize (Accounting cfg)
        in Some \<lparr>rate = RateBytesPerSecond cfg, burstBytes = burst,
                 accounting = \<lparr>PerDatagramOverhead = (if oh < 0 then 0 else oh),
                               MinimumDatagramSize = (if mn < 0 then 0 else mn)\<rparr>,
                 tokens = burst, last_t = now, recoveryWaiters = 0, criticalWaiters = 0,
                 stats = zeroStats\<rparr>)"

text \<open>The accessors accept a nil pacer.\<close>

definition pacerRate :: "WirePacer option \<Rightarrow> int" where
  "pacerRate p = (case p of None \<Rightarrow> 0 | Some p \<Rightarrow> rate p)"

definition pacerBurst :: "WirePacer option \<Rightarrow> int" where
  "pacerBurst p = (case p of None \<Rightarrow> 0 | Some p \<Rightarrow> burstBytes p)"

definition pacerAccounting :: "WirePacer option \<Rightarrow> WireAccounting" where
  "pacerAccounting p = (case p of None \<Rightarrow> zeroAccounting | Some p \<Rightarrow> accounting p)"

definition pacerStats :: "WirePacer option \<Rightarrow> WirePacerStats" where
  "pacerStats p = (case p of None \<Rightarrow> zeroStats | Some p \<Rightarrow> stats p)"

section \<open>Refill and grant\<close>

datatype paceClass = paceCritical | paceRecovery | paceBulk

definition addedFloat :: "duration \<Rightarrow> int \<Rightarrow> rat" where
  "addedFloat d r = f64 (f64 (f64 (of_int d) * f64 (of_int r)) / f64 (of_int Second))"

definition refillLocked :: "WirePacer \<Rightarrow> time \<Rightarrow> WirePacer" where
  "refillLocked p now =
     (if \<not> last_t p < now then p
      else
        let space = burstBytes p - tokens p in
        if space \<le> 0 then p\<lparr>tokens := burstBytes p, last_t := now\<rparr>
        else
          let added = addedFloat (time_sub now (last_t p)) (rate p) in
          if f64 (of_int space) \<le> added then p\<lparr>tokens := burstBytes p, last_t := now\<rparr>
          else if 1 \<le> added then p\<lparr>tokens := tokens p + f64_trunc added, last_t := now\<rparr>
          else p)"

definition neededTokens :: "WirePacer \<Rightarrow> paceClass \<Rightarrow> int \<Rightarrow> int" where
  "neededTokens p cls wireBytes =
     (let needed = (if cls = paceCritical then wireBytes - burstBytes p else wireBytes)
      in if burstBytes p < needed then burstBytes p else needed)"

definition recordGrant :: "WirePacer \<Rightarrow> int \<Rightarrow> int \<Rightarrow> int \<Rightarrow> paceClass \<Rightarrow> duration \<Rightarrow> WirePacer" where
  "recordGrant p wireBytes udpBytes datagrams cls waited =
     p\<lparr>stats := (let s = stats p in
        s\<lparr>WireBytes := WireBytes s + u64_of_int64 wireBytes,
          UDPBytes := UDPBytes s + u64_of_int64 udpBytes,
          Datagrams := Datagrams s + u64_of_int64 datagrams,
          Batches := Batches s + 1,
          WaitTime := WaitTime s + waited,
          CriticalBatches := CriticalBatches s + (if cls = paceCritical then 1 else 0),
          RecoveryBatches := RecoveryBatches s + (if cls = paceRecovery then 1 else 0),
          BulkBatches := BulkBatches s + (if cls = paceBulk then 1 else 0)\<rparr>)\<rparr>"

text \<open>
  One pass of the loop of \<open>waitBatch\<close>. \<open>gateBlocked\<close> is the test that makes lower classes yield;
  \<open>visitBucket\<close> is the part under the mutex, with the statistics of a grant.
\<close>

definition gateBlocked :: "WirePacer \<Rightarrow> paceClass \<Rightarrow> bool" where
  "gateBlocked p cls \<longleftrightarrow>
     cls = paceBulk \<and> (0 < criticalWaiters p \<or> 0 < recoveryWaiters p) \<or>
     cls = paceRecovery \<and> 0 < criticalWaiters p"

datatype visit = Granted | WaitFor duration

definition visitBucket ::
  "WirePacer \<Rightarrow> time \<Rightarrow> time \<Rightarrow> int \<Rightarrow> int \<Rightarrow> int \<Rightarrow> paceClass \<Rightarrow> visit \<times> WirePacer" where
  "visitBucket p0 waitStarted now wireBytes udpBytes datagrams cls =
     (let p = refillLocked p0 now;
          needed = neededTokens p cls wireBytes in
      if needed \<le> tokens p
      then (Granted, recordGrant (p\<lparr>tokens := tokens p - wireBytes\<rparr>) wireBytes udpBytes datagrams cls
                       (time_sub now waitStarted))
      else
        let deficit = needed - tokens p;
            wait = f64_trunc (f64 (f64 (f64 (of_int deficit) / f64 (of_int (rate p))) * f64 (of_int Second)))
        in (WaitFor (if wait < Microsecond then Microsecond else wait), p))"

definition enterWait :: "WirePacer \<Rightarrow> paceClass \<Rightarrow> WirePacer" where
  "enterWait p cls =
     (case cls of
        paceCritical \<Rightarrow> p\<lparr>criticalWaiters := criticalWaiters p + 1\<rparr>
      | paceRecovery \<Rightarrow> p\<lparr>recoveryWaiters := recoveryWaiters p + 1\<rparr>
      | paceBulk \<Rightarrow> p)"

definition leaveWait :: "WirePacer \<Rightarrow> paceClass \<Rightarrow> WirePacer" where
  "leaveWait p cls =
     (case cls of
        paceCritical \<Rightarrow> p\<lparr>criticalWaiters := criticalWaiters p - 1\<rparr>
      | paceRecovery \<Rightarrow> p\<lparr>recoveryWaiters := recoveryWaiters p - 1\<rparr>
      | paceBulk \<Rightarrow> p)"

text \<open>
  A whole call with no other call interfering: \<open>ticks\<close> are the clock readings of successive visits,
  \<open>doneAt\<close> tells whether \<open>done\<close> is closed during the delay that follows a visit. A call still
  waiting when the readings run out is \<^const>\<open>None\<close>.
\<close>

fun waitLoop ::
  "WirePacer \<Rightarrow> time \<Rightarrow> int \<Rightarrow> int \<Rightarrow> int \<Rightarrow> paceClass \<Rightarrow> (time \<times> bool) list \<Rightarrow> (bool \<times> WirePacer) option" where
  "waitLoop p st wb ub dg cls [] = None"
| "waitLoop p st wb ub dg cls ((now, doneAt) # ticks) =
     (case visitBucket p st now wb ub dg cls of
        (Granted, p') \<Rightarrow> Some (True, p')
      | (WaitFor _, p') \<Rightarrow> if doneAt then Some (False, p') else waitLoop p' st wb ub dg cls ticks)"

definition waitBatch ::
  "WirePacer option \<Rightarrow> time \<Rightarrow> int \<Rightarrow> int \<Rightarrow> int \<Rightarrow> paceClass \<Rightarrow> (time \<times> bool) list
     \<Rightarrow> (bool \<times> WirePacer option) option" where
  "waitBatch po st wb ub dg cls ticks =
     (case po of
        None \<Rightarrow> Some (True, None)
      | Some p \<Rightarrow>
          if rate p \<le> 0 \<or> wb \<le> 0 then Some (True, Some p)
          else map_option (\<lambda>(g, p'). (g, Some (leaveWait p' cls)))
                 (waitLoop (enterWait p cls) st wb ub dg cls ticks))"

section \<open>Concurrent calls\<close>

datatype waitPc = AtGate | AtBucket | Delaying

record waitCall =
  cclass :: paceClass
  cwire :: int
  cudp :: int
  cdgrams :: int
  cstart :: time
  cpc :: waitPc

text \<open>
  A system is the pacer and the list of calls in progress. Each rule is one atomic action of one
  call: enter; find the gate blocked or open; visit the bucket and be granted or told to wait; come
  back from a delay; give up because \<open>done\<close> was closed during a delay. The label of a step is the
  number of wire bytes it grants.
\<close>

inductive pacerStep :: "time \<Rightarrow> WirePacer \<times> waitCall list \<Rightarrow> int \<Rightarrow> WirePacer \<times> waitCall list \<Rightarrow> bool" where
  enter: "0 < cwire c \<Longrightarrow> cpc c = AtGate \<Longrightarrow> cstart c = now \<Longrightarrow>
    pacerStep now (p, cs) 0 (enterWait p (cclass c), cs @ [c])"
| gate_blocked: "i < length cs \<Longrightarrow> cpc (cs ! i) = AtGate \<Longrightarrow> gateBlocked p (cclass (cs ! i)) \<Longrightarrow>
    pacerStep now (p, cs) 0 (p, cs[i := (cs ! i)\<lparr>cpc := Delaying\<rparr>])"
| gate_open: "i < length cs \<Longrightarrow> cpc (cs ! i) = AtGate \<Longrightarrow> \<not> gateBlocked p (cclass (cs ! i)) \<Longrightarrow>
    pacerStep now (p, cs) 0 (p, cs[i := (cs ! i)\<lparr>cpc := AtBucket\<rparr>])"
| granted: "i < length cs \<Longrightarrow> cpc (cs ! i) = AtBucket \<Longrightarrow>
    visitBucket p (cstart (cs ! i)) now (cwire (cs ! i)) (cudp (cs ! i)) (cdgrams (cs ! i)) (cclass (cs ! i))
      = (Granted, p') \<Longrightarrow>
    pacerStep now (p, cs) (cwire (cs ! i)) (leaveWait p' (cclass (cs ! i)), take i cs @ drop (Suc i) cs)"
| waits: "i < length cs \<Longrightarrow> cpc (cs ! i) = AtBucket \<Longrightarrow>
    visitBucket p (cstart (cs ! i)) now (cwire (cs ! i)) (cudp (cs ! i)) (cdgrams (cs ! i)) (cclass (cs ! i))
      = (WaitFor d, p') \<Longrightarrow>
    pacerStep now (p, cs) 0 (p', cs[i := (cs ! i)\<lparr>cpc := Delaying\<rparr>])"
| timer: "i < length cs \<Longrightarrow> cpc (cs ! i) = Delaying \<Longrightarrow>
    pacerStep now (p, cs) 0 (p, cs[i := (cs ! i)\<lparr>cpc := AtGate\<rparr>])"
| cancelled: "i < length cs \<Longrightarrow> cpc (cs ! i) = Delaying \<Longrightarrow>
    pacerStep now (p, cs) 0 (leaveWait p (cclass (cs ! i)), take i cs @ drop (Suc i) cs)"

text \<open>
  Reachable systems, with the total granted so far; no batch exceeds \<open>W\<close> wire bytes and the clock
  does not run backwards.
\<close>

inductive pacerReach :: "int \<Rightarrow> WirePacer \<Rightarrow> time \<Rightarrow> int \<Rightarrow> WirePacer \<times> waitCall list \<Rightarrow> bool"
  for W p0 where
  start: "pacerReach W p0 (last_t p0) 0 (p0, [])"
| step: "pacerReach W p0 t g s \<Longrightarrow> t \<le> t' \<Longrightarrow> pacerStep t' s a s' \<Longrightarrow>
    (\<forall>c \<in> set (snd s'). cwire c \<le> W) \<Longrightarrow> pacerReach W p0 t' (g + a) s'"

section \<open>Bounds of the rounding\<close>

lemma ilog2_bounds: "0 < n \<Longrightarrow> 2 ^ ilog2 n \<le> n \<and> n < 2 * 2 ^ ilog2 n"
proof (induction n rule: ilog2.induct)
  case (1 n)
  show ?case
  proof (cases "n < 2")
    case True
    with "1.prems" show ?thesis by (simp add: ilog2.simps [of n])
  next
    case False
    with "1.IH" have "2 ^ ilog2 (n div 2) \<le> n div 2 \<and> n div 2 < 2 * 2 ^ ilog2 (n div 2)" by simp
    moreover have "ilog2 n = Suc (ilog2 (n div 2))" using False by (simp add: ilog2.simps [of n])
    ultimately show ?thesis by auto
  qed
qed

lemma scale2_pos: "0 < scale2 x s \<longleftrightarrow> 0 < x"
  by (simp add: scale2_def zero_less_mult_iff zero_less_divide_iff)

lemma scale2_inverse [simp]: "scale2 (scale2 x s) (- s) = x"
  by (simp add: scale2_def)

lemma scale2_mono: "x \<le> y \<Longrightarrow> scale2 x s \<le> scale2 y s"
  by (simp add: scale2_def divide_right_mono)

lemma scale2_add: "scale2 (x + y) s = scale2 x s + scale2 y s"
  by (simp add: scale2_def add_divide_distrib distrib_right)

lemma scale2_mult: "scale2 (c * x) s = c * scale2 x s"
  by (simp add: scale2_def)

lemma round_half_even_bounds:
  "of_int (round_half_even y) \<le> y + 1 / 2" "y - 1 / 2 \<le> of_int (round_half_even y)"
  unfolding round_half_even_def Let_def by (auto split: if_splits) linarith+

lemma round_half_even_of_int [simp]: "round_half_even (of_int n) = n"
  by (simp add: round_half_even_def)

text \<open>The exponent really is the binary exponent for values at least \<open>2 ^ -64\<close>.\<close>

lemma f64_exp_lower:
  assumes "1 / 2 ^ 64 \<le> x"
  shows "2 ^ 52 \<le> scale2 x (52 - f64_exp x)"
proof -
  let ?m = "nat \<lfloor>x * 2 ^ 64\<rfloor>"
  let ?k = "ilog2 ?m"
  have x1: "1 \<le> x * 2 ^ 64" using assms by (simp add: field_simps)
  then have m: "0 < ?m" by simp
  have "(2::rat) ^ ?k \<le> of_nat ?m"
    using ilog2_bounds [OF m] by (metis of_nat_le_iff of_nat_numeral of_nat_power)
  also have "\<dots> \<le> x * 2 ^ 64" using x1 by simp
  finally have k: "(2::rat) ^ ?k \<le> x * 2 ^ 64" .
  show ?thesis
  proof (cases "?k \<le> 116")
    case True
    then have s: "0 \<le> 52 - f64_exp x" and n: "nat (52 - f64_exp x) = 116 - ?k"
      by (auto simp: f64_exp_def)
    have "(2::rat) ^ 52 * 2 ^ 64 = 2 ^ ?k * 2 ^ (116 - ?k)"
      using True by (simp flip: power_add)
    also have "\<dots> \<le> (x * 2 ^ 64) * 2 ^ (116 - ?k)"
      using k by (intro mult_right_mono) auto
    finally have "(2::rat) ^ 52 \<le> x * 2 ^ (116 - ?k)" by simp
    with s n show ?thesis by (simp add: scale2_def)
  next
    case False
    then have s: "\<not> 0 \<le> 52 - f64_exp x" and n: "nat (f64_exp x - 52) = ?k - 116"
      by (auto simp: f64_exp_def)
    have "(2::rat) ^ ?k = 2 ^ 116 * 2 ^ (?k - 116)"
      using False by (simp only: power_add [symmetric]) simp
    then have "(2::rat) ^ 52 * 2 ^ (?k - 116) * 2 ^ 64 = 2 ^ ?k" by simp
    also have "\<dots> \<le> x * 2 ^ 64" by (rule k)
    finally have "(2::rat) ^ 52 * 2 ^ (?k - 116) \<le> x" by simp
    then show ?thesis using s by (simp add: scale2_def n pos_le_divide_eq)
  qed
qed

definition f64_eps :: rat where "f64_eps = 1 / 2 ^ 53"

lemma f64_bounds:
  assumes "1 / 2 ^ 64 \<le> x"
  shows "f64 x \<le> x * (1 + f64_eps)" and "x * (1 - f64_eps) \<le> f64 x"
proof -
  let ?s = "52 - f64_exp x"
  let ?y = "scale2 x ?s"
  have x: "0 < x" using assms by (rule less_le_trans [rotated]) simp
  then have f: "f64 x = scale2 (of_int (round_half_even ?y)) (- ?s)"
    by (simp add: f64_def f64_pos_def Let_def)
  have y: "2 ^ 52 \<le> ?y" by (rule f64_exp_lower [OF assms])
  then have half: "1 / 2 \<le> f64_eps * ?y" by (simp add: f64_eps_def)
  have "of_int (round_half_even ?y) \<le> (1 + f64_eps) * ?y"
    using round_half_even_bounds(1) [of ?y] half by (simp add: distrib_right)
  from scale2_mono [OF this, of "- ?s"] show "f64 x \<le> x * (1 + f64_eps)"
    by (simp only: f scale2_mult scale2_inverse mult.commute)
  have "(1 - f64_eps) * ?y \<le> of_int (round_half_even ?y)"
    using round_half_even_bounds(2) [of ?y] half by (simp add: left_diff_distrib)
  from scale2_mono [OF this, of "- ?s"] show "x * (1 - f64_eps) \<le> f64 x"
    by (simp only: f scale2_mult scale2_inverse mult.commute)
qed

lemma f64_of_int:
  assumes "0 \<le> n" "n \<le> 2 ^ 53"
  shows "f64 (of_int n) = of_int n"
proof (cases "n = 0")
  case True
  then show ?thesis by (simp add: f64_def)
next
  case False
  with assms have n: "0 < n" by simp
  let ?m = "nat (n * 2 ^ 64)"
  let ?s = "52 - f64_exp (of_int n)"
  have m: "nat \<lfloor>of_int n * (2::rat) ^ 64\<rfloor> = ?m"
    by (metis floor_of_int of_int_mult of_int_numeral of_int_power)
  have ex: "f64_exp (of_int n) = int (ilog2 ?m) - 64"
    by (simp only: f64_exp_def m)
  have "0 < ?m" using n by simp
  from ilog2_bounds [OF this] have lo: "2 ^ ilog2 ?m \<le> ?m" by simp
  have "?m \<le> 2 ^ 117"
    using assms(2) by simp
  with lo have "(2::nat) ^ ilog2 ?m \<le> 2 ^ 117" by (rule le_trans)
  then have k: "ilog2 ?m \<le> 117" by (simp only: power_increasing_iff one_less_numeral_iff semiring_norm)
  have "\<exists>j. scale2 (of_int n) ?s = of_int j"
  proof (cases "ilog2 ?m \<le> 116")
    case True
    then have "0 \<le> ?s" by (simp add: ex)
    then have "scale2 (of_int n) ?s = of_int (n * 2 ^ nat ?s)" by (simp add: scale2_def)
    then show ?thesis ..
  next
    case False
    with k have k117: "ilog2 ?m = 117" by simp
    with lo have "2 ^ 117 \<le> ?m" by simp
    with \<open>?m \<le> 2 ^ 117\<close> have "?m = 2 ^ 117" by simp
    then have n53: "n = 2 ^ 53" using n by simp
    have "?s = - 1" using k117 by (simp add: ex)
    then have "scale2 (of_int n) ?s = of_int (2 ^ 52)" by (simp add: scale2_def n53)
    then show ?thesis ..
  qed
  then obtain j where j: "scale2 (of_int n) ?s = of_int j" ..
  have "f64 (of_int n) = scale2 (of_int (round_half_even (scale2 (of_int n) ?s))) (- ?s)"
    using n by (simp add: f64_def f64_pos_def Let_def)
  also have "\<dots> = scale2 (scale2 (of_int n) ?s) (- ?s)"
    by (simp only: j round_half_even_of_int)
  also have "\<dots> = of_int n" by (rule scale2_inverse)
  finally show ?thesis .
qed

lemma f64_Second [simp]: "f64 (of_int Second) = of_int Second"
  by (rule f64_of_int) (simp_all add: Second_def)

text \<open>The float expression of \<open>refillLocked\<close> against the exact product.\<close>

definition f64_slack :: rat where "f64_slack = 1 / 2 ^ 50"

lemma eps_powers:
  "(1 + f64_eps) * (1 + f64_eps) * (1 + f64_eps) * (1 + f64_eps) \<le> 1 + f64_slack"
  "1 - f64_slack \<le> (1 - f64_eps) * (1 - f64_eps) * (1 - f64_eps) * (1 - f64_eps)"
  by (simp_all add: f64_eps_def f64_slack_def)

lemma addedFloat_bounds:
  assumes d: "0 < d" and r: "0 < r"
  shows "addedFloat d r \<le> of_int d * of_int r / of_int Second * (1 + f64_slack)"
    and "of_int d * of_int r / of_int Second * (1 - f64_slack) \<le> addedFloat d r"
proof -
  let ?D = "of_int d :: rat" and ?R = "of_int r :: rat" and ?e = "f64_eps"
  have e: "0 < ?e" "?e < 1 / 2" by (simp_all add: f64_eps_def)
  have one: "(1::rat) \<le> ?D" "(1::rat) \<le> ?R" using d r by simp_all
  have tiny: "(1::rat) / 2 ^ 64 \<le> 1 / 2" by simp
  have D: "f64 ?D \<le> ?D * (1 + ?e)" "?D * (1 - ?e) \<le> f64 ?D"
    using one tiny by (intro f64_bounds; linarith)+
  have R: "f64 ?R \<le> ?R * (1 + ?e)" "?R * (1 - ?e) \<le> f64 ?R"
    using one tiny by (intro f64_bounds; linarith)+
  have D2: "1 / 2 \<le> ?D * (1 - ?e)" and R2: "1 / 2 \<le> ?R * (1 - ?e)"
    using one e mult_mono [of 1 ?D "1/2" "1 - ?e"] mult_mono [of 1 ?R "1/2" "1 - ?e"] by simp_all
  let ?P = "f64 ?D * f64 ?R"
  have Plo: "(?D * (1 - ?e)) * (?R * (1 - ?e)) \<le> ?P"
    using D(2) R(2) D2 R2 by (intro mult_mono) linarith+
  have Phi: "?P \<le> (?D * (1 + ?e)) * (?R * (1 + ?e))"
    using D R D2 R2 one e by (intro mult_mono) auto
  have P4: "1 / 4 \<le> (?D * (1 - ?e)) * (?R * (1 - ?e))"
    using mult_mono [OF D2 R2] D2 by simp
  have Pb: "1 / 2 ^ 64 \<le> ?P" using P4 Plo by simp
  note Pf = f64_bounds [OF Pb]
  let ?S = "of_int Second :: rat"
  have S: "0 < ?S" "?S = 1000000000" by (simp_all add: Second_def)
  let ?Q = "f64 ?P / ?S"
  have Qlo: "?P * (1 - ?e) / ?S \<le> ?Q" using Pf(2) S by (simp add: divide_right_mono)
  have Qhi: "?Q \<le> ?P * (1 + ?e) / ?S" using Pf(1) S by (simp add: divide_right_mono)
  have "1 / 8 \<le> ?P * (1 - ?e)"
    using mult_mono [of "1 / 4" ?P "1 / 2" "1 - ?e"] P4 Plo e by simp
  then have "1 / 8 / ?S \<le> ?P * (1 - ?e) / ?S" using S by (intro divide_right_mono) auto
  then have Qb: "1 / 2 ^ 64 \<le> ?Q" using Qlo S by simp
  note Qf = f64_bounds [OF Qb]
  have a: "addedFloat d r = f64 ?Q" by (simp add: addedFloat_def)
  have DRS: "0 \<le> ?D * ?R / ?S" using one S by simp
  have "f64 ?Q \<le> ?Q * (1 + ?e)" by (rule Qf(1))
  also have "\<dots> \<le> (?P * (1 + ?e) / ?S) * (1 + ?e)"
    using Qhi e by (intro mult_right_mono) auto
  also have "\<dots> \<le> (((?D * (1 + ?e)) * (?R * (1 + ?e))) * (1 + ?e) / ?S) * (1 + ?e)"
    using Phi e S by (intro mult_right_mono divide_right_mono) auto
  also have "\<dots> = ?D * ?R / ?S * ((1 + ?e) * (1 + ?e) * (1 + ?e) * (1 + ?e))"
    by (simp add: field_simps)
  also have "\<dots> \<le> ?D * ?R / ?S * (1 + f64_slack)"
    using DRS eps_powers(1) by (rule mult_left_mono [rotated])
  finally show "addedFloat d r \<le> ?D * ?R / ?S * (1 + f64_slack)" unfolding a .
  have "?D * ?R / ?S * (1 - f64_slack) \<le> ?D * ?R / ?S * ((1 - ?e) * (1 - ?e) * (1 - ?e) * (1 - ?e))"
    using DRS eps_powers(2) by (rule mult_left_mono [rotated])
  also have "\<dots> = (((?D * (1 - ?e)) * (?R * (1 - ?e))) * (1 - ?e) / ?S) * (1 - ?e)"
    by (simp add: field_simps)
  also have "\<dots> \<le> (?P * (1 - ?e) / ?S) * (1 - ?e)"
    using Plo e S by (intro mult_right_mono divide_right_mono) auto
  also have "\<dots> \<le> ?Q * (1 - ?e)" using Qlo e by (intro mult_right_mono) auto
  also have "\<dots> \<le> f64 ?Q" by (rule Qf(2))
  finally show "?D * ?R / ?S * (1 - f64_slack) \<le> addedFloat d r" unfolding a .
qed

section \<open>The bucket\<close>

text \<open>
  \<open>pacer_ok W\<close>: the bucket of a constructed pacer whose batches cost at most \<open>W\<close>. The two bounds by
  \<open>2 ^ 51\<close> keep every token count exactly representable as a \<open>float64\<close>.
\<close>

definition pacer_ok :: "int \<Rightarrow> WirePacer \<Rightarrow> bool" where
  "pacer_ok W p \<longleftrightarrow> 0 < rate p \<and> 1 \<le> burstBytes p \<and> burstBytes p \<le> 2 ^ 51 \<and> W \<le> 2 ^ 51 \<and>
     tokens p \<le> burstBytes p \<and> - max (burstBytes p) W \<le> tokens p"

lemma refill_fields [simp, frame_rules]:
  "rate (refillLocked p now) = rate p" "burstBytes (refillLocked p now) = burstBytes p"
  "accounting (refillLocked p now) = accounting p" "stats (refillLocked p now) = stats p"
  "criticalWaiters (refillLocked p now) = criticalWaiters p"
  "recoveryWaiters (refillLocked p now) = recoveryWaiters p"
  by (simp_all add: refillLocked_def Let_def)

lemma time_sub_elapsed:
  assumes "t < now"
  shows "0 < time_sub now t" and "time_sub now t \<le> now - t"
  using assms by (auto simp: time_sub_def max_duration_def min_duration_def)

lemma time_sub_rate_le:
  assumes "t < now" "0 < r"
  shows "of_int (time_sub now t) * of_int r / of_int Second * (1 + f64_slack)
    \<le> of_int (now - t) * of_int r / of_int Second * (1 + f64_slack)"
proof -
  have "(of_int (time_sub now t) :: rat) \<le> of_int (now - t)"
    using time_sub_elapsed(2) [OF assms(1)] by (simp only: of_int_le_iff)
  then show ?thesis
    using assms(2) by (intro mult_right_mono divide_right_mono) (auto simp: Second_def f64_slack_def)
qed

definition refill_bound :: "WirePacer \<Rightarrow> duration \<Rightarrow> rat" where
  "refill_bound p d = of_int d * of_int (rate p) / of_int Second * (1 + f64_slack)"

lemma refill_spec:
  assumes ok: "pacer_ok W p"
  shows "pacer_ok W (refillLocked p now)"
    and "tokens p \<le> tokens (refillLocked p now)"
    and "of_int (tokens (refillLocked p now))
      \<le> of_int (tokens p) + refill_bound p (last_t (refillLocked p now) - last_t p)"
    and "last_t p \<le> last_t (refillLocked p now)"
    and "last_t (refillLocked p now) \<le> max (last_t p) now"
proof -
  let ?q = "refillLocked p now" and ?sp = "burstBytes p - tokens p"
  let ?a = "addedFloat (time_sub now (last_t p)) (rate p)"
  have sp: "0 \<le> ?sp" "?sp \<le> 2 ^ 53" using ok by (auto simp: pacer_ok_def)
  note f = f64_of_int [OF sp, unfolded of_int_diff]
  consider (idle) "\<not> last_t p < now" | (full) "last_t p < now" "?sp = 0"
    | (clamp) "last_t p < now" "0 < ?sp" "of_int ?sp \<le> ?a"
    | (add) "last_t p < now" "0 < ?sp" "\<not> of_int ?sp \<le> ?a" "1 \<le> ?a"
    | (skip) "last_t p < now" "0 < ?sp" "\<not> of_int ?sp \<le> ?a" "\<not> 1 \<le> ?a"
    using sp(1) by linarith
  then have "pacer_ok W ?q \<and> tokens p \<le> tokens ?q \<and>
    of_int (tokens ?q) \<le> of_int (tokens p) + refill_bound p (last_t ?q - last_t p) \<and>
    last_t p \<le> last_t ?q \<and> last_t ?q \<le> max (last_t p) now"
  proof cases
    case idle
    then show ?thesis using ok by (simp add: refillLocked_def refill_bound_def)
  next
    case full
    then have "?q = p\<lparr>tokens := burstBytes p, last_t := now\<rparr>" by (simp add: refillLocked_def)
    moreover have "0 \<le> refill_bound p (now - last_t p)"
      using full(1) ok by (simp add: refill_bound_def pacer_ok_def Second_def f64_slack_def)
    ultimately show ?thesis using full ok by (auto simp: pacer_ok_def)
  next
    case clamp
    then have q: "?q = p\<lparr>tokens := burstBytes p, last_t := now\<rparr>"
      by (simp add: refillLocked_def Let_def f)
    have "?a \<le> refill_bound p (now - last_t p)"
      using addedFloat_bounds(1) [OF time_sub_elapsed(1) [OF clamp(1)], of "rate p"]
        time_sub_rate_le [OF clamp(1), of "rate p"] ok
      by (simp add: refill_bound_def pacer_ok_def)
    with clamp(3) have "of_int ?sp \<le> refill_bound p (now - last_t p)" by (rule order_trans)
    then show ?thesis using q clamp ok by (auto simp: pacer_ok_def)
  next
    case add
    then have q: "?q = p\<lparr>tokens := tokens p + \<lfloor>?a\<rfloor>, last_t := now\<rparr>"
      by (simp add: refillLocked_def Let_def f f64_trunc_def)
    have "?a \<le> refill_bound p (now - last_t p)"
      using addedFloat_bounds(1) [OF time_sub_elapsed(1) [OF add(1)], of "rate p"]
        time_sub_rate_le [OF add(1), of "rate p"] ok
      by (simp add: refill_bound_def pacer_ok_def)
    then have "of_int \<lfloor>?a\<rfloor> \<le> refill_bound p (now - last_t p)"
      using of_int_floor_le [of ?a] by linarith
    moreover have "\<lfloor>?a\<rfloor> \<le> ?sp"
      using add(3) by (metis floor_less_iff linorder_not_le less_imp_le)
    moreover have "0 \<le> \<lfloor>?a\<rfloor>" using add(4) by simp
    moreover define k where "k = \<lfloor>?a\<rfloor>"
    ultimately show ?thesis using q add(1) ok unfolding k_def [symmetric] by (auto simp: pacer_ok_def)
  next
    case skip
    then have "?q = p" by (simp add: refillLocked_def Let_def f)
    then show ?thesis using ok by (simp add: refill_bound_def)
  qed
  then show "pacer_ok W ?q" "tokens p \<le> tokens ?q"
    "of_int (tokens ?q) \<le> of_int (tokens p) + refill_bound p (last_t ?q - last_t p)"
    "last_t p \<le> last_t ?q" "last_t ?q \<le> max (last_t p) now"
    by blast+
qed

lemma refill_full:
  assumes ok: "pacer_ok W p" and t: "last_t p < now"
    and enough: "of_int (burstBytes p - tokens p)
      \<le> of_int (time_sub now (last_t p)) * of_int (rate p) / of_int Second * (1 - f64_slack)"
  shows "tokens (refillLocked p now) = burstBytes p"
proof -
  let ?sp = "burstBytes p - tokens p"
  have sp: "0 \<le> ?sp" "?sp \<le> 2 ^ 53" and r: "0 < rate p" using ok by (auto simp: pacer_ok_def)
  have "f64 (of_int ?sp) = of_int ?sp" using sp by (rule f64_of_int)
  moreover have "of_int ?sp \<le> addedFloat (time_sub now (last_t p)) (rate p)"
    using enough addedFloat_bounds(2) [OF time_sub_elapsed(1) [OF t] r] by (rule order_trans)
  ultimately show ?thesis using t by (simp add: refillLocked_def Let_def)
qed

section \<open>Grants\<close>

lemma neededTokens_le_burst: "neededTokens p cls w \<le> burstBytes p"
  by (simp add: neededTokens_def Let_def)

lemma recordGrant_fields [simp, frame_rules]:
  "rate (recordGrant p w u d c t) = rate p" "burstBytes (recordGrant p w u d c t) = burstBytes p"
  "accounting (recordGrant p w u d c t) = accounting p" "tokens (recordGrant p w u d c t) = tokens p"
  "last_t (recordGrant p w u d c t) = last_t p"
  "criticalWaiters (recordGrant p w u d c t) = criticalWaiters p"
  "recoveryWaiters (recordGrant p w u d c t) = recoveryWaiters p"
  by (simp_all add: recordGrant_def)

text \<open>What a visit that grants, or does not grant, leaves behind.\<close>

lemma visit_granted:
  assumes "visitBucket p st now w u d cls = (Granted, p')"
  shows "neededTokens p cls w \<le> tokens (refillLocked p now)"
    and "tokens p' = tokens (refillLocked p now) - w" and "last_t p' = last_t (refillLocked p now)"
    and "rate p' = rate p" and "burstBytes p' = burstBytes p"
    and "criticalWaiters p' = criticalWaiters p" and "recoveryWaiters p' = recoveryWaiters p"
  using assms by (auto simp: visitBucket_def neededTokens_def Let_def split: if_splits)

lemma visit_waits:
  assumes "visitBucket p st now w u d cls = (WaitFor dl, p')"
  shows "p' = refillLocked p now" and "tokens p' < neededTokens p cls w" and "Microsecond \<le> dl"
  using assms by (auto simp: visitBucket_def neededTokens_def Let_def split: if_splits)

lemma visit_granted_ok:
  assumes ok: "pacer_ok W p" and v: "visitBucket p st now w u d cls = (Granted, p')"
    and w: "0 < w" "w \<le> W"
  shows "pacer_ok W p'"
    and "cls \<noteq> paceCritical \<Longrightarrow> min 0 (burstBytes p - w) \<le> tokens p'"
    and "min (- burstBytes p) (burstBytes p - w) \<le> tokens p'"
proof -
  note V = visit_granted [OF v]
  have b: "1 \<le> burstBytes p" using ok by (simp add: pacer_ok_def)
  show lo: "min (- burstBytes p) (burstBytes p - w) \<le> tokens p'"
    using V(1,2) b by (auto simp: neededTokens_def Let_def split: if_splits)
  show "cls \<noteq> paceCritical \<Longrightarrow> min 0 (burstBytes p - w) \<le> tokens p'"
    using V(1,2) b by (auto simp: neededTokens_def Let_def split: if_splits)
  have "pacer_ok W (refillLocked p now)" by (rule refill_spec(1) [OF ok])
  then show "pacer_ok W p'"
    using V lo w b by (auto simp: pacer_ok_def)
qed

lemma full_bucket_grants:
  assumes "tokens (refillLocked p now) = burstBytes p"
  shows "fst (visitBucket p st now w u d cls) = Granted"
  using assms neededTokens_le_burst [of "refillLocked p now" cls w]
  by (simp add: visitBucket_def Let_def)

section \<open>Invariants of interleaved calls\<close>

inductive_cases pacerStepE: "pacerStep now (p, cs) a s'"

definition nclass :: "paceClass \<Rightarrow> waitCall list \<Rightarrow> nat" where
  "nclass k cs = length (filter (\<lambda>c. cclass c = k) cs)"

lemma nclass_snoc: "nclass k (cs @ [c]) = nclass k cs + (if cclass c = k then 1 else 0)"
  by (simp add: nclass_def)

lemma nclass_pc: "i < length cs \<Longrightarrow> nclass k (cs[i := (cs ! i)\<lparr>cpc := x\<rparr>]) = nclass k cs"
proof (induction cs arbitrary: i)
  case Nil
  then show ?case by simp
next
  case (Cons c cs)
  then show ?case by (cases i) (auto simp: nclass_def)
qed

lemma nclass_remove: "i < length cs \<Longrightarrow>
  nclass k cs = nclass k (take i cs @ drop (Suc i) cs) + (if cclass (cs ! i) = k then 1 else 0)"
  by (subst (1) id_take_nth_drop [of i cs]) (auto simp: nclass_def)

lemma wait_counter_fields [simp, frame_rules]:
  "rate (enterWait p k) = rate p" "burstBytes (enterWait p k) = burstBytes p"
  "tokens (enterWait p k) = tokens p" "last_t (enterWait p k) = last_t p"
  "rate (leaveWait p k) = rate p" "burstBytes (leaveWait p k) = burstBytes p"
  "tokens (leaveWait p k) = tokens p" "last_t (leaveWait p k) = last_t p"
  by (simp_all add: enterWait_def leaveWait_def split: paceClass.splits)

lemma pacer_ok_counters [simp]:
  "pacer_ok W (enterWait p k) = pacer_ok W p" "pacer_ok W (leaveWait p k) = pacer_ok W p"
  by (simp_all add: pacer_ok_def)

text \<open>The counters count the calls in progress of each class.\<close>

definition counters_ok :: "WirePacer \<times> waitCall list \<Rightarrow> bool" where
  "counters_ok = (\<lambda>(p, cs). criticalWaiters p = int (nclass paceCritical cs) \<and>
     recoveryWaiters p = int (nclass paceRecovery cs))"

lemma counters_ok_step: "pacerStep now s a s' \<Longrightarrow> counters_ok s \<Longrightarrow> counters_ok s'"
proof (induction rule: pacerStep.induct)
  case (enter c now p cs)
  then show ?case
    by (cases "cclass c") (auto simp: counters_ok_def enterWait_def nclass_snoc)
next
  case (granted i cs p now p')
  then show ?case
    using nclass_remove [OF granted(1), of paceCritical] nclass_remove [OF granted(1), of paceRecovery]
      visit_granted(6,7) [OF granted(3)]
    by (cases "cclass (cs ! i)") (auto simp: counters_ok_def leaveWait_def)
next
  case (waits i cs p now d p')
  then show ?case using visit_waits(1) [OF waits(3)] by (simp add: counters_ok_def nclass_pc)
next
  case (cancelled i cs now p)
  then show ?case
    using nclass_remove [OF cancelled(1), of paceCritical] nclass_remove [OF cancelled(1), of paceRecovery]
    by (cases "cclass (cs ! i)") (auto simp: counters_ok_def leaveWait_def)
qed (auto simp: counters_ok_def nclass_pc)

text \<open>The bucket stays in bounds, and what has been granted is paid for by the burst, the rate and
  the tokens still owed.\<close>

definition pace_inv :: "int \<Rightarrow> WirePacer \<Rightarrow> int \<Rightarrow> WirePacer \<times> waitCall list \<Rightarrow> bool" where
  "pace_inv W p0 g = (\<lambda>(p, cs). pacer_ok W p \<and> rate p = rate p0 \<and> burstBytes p = burstBytes p0 \<and>
     last_t p0 \<le> last_t p \<and> (\<forall>c \<in> set cs. 0 < cwire c) \<and>
     of_int (g + tokens p) \<le> of_int (burstBytes p0) + refill_bound p0 (last_t p - last_t p0))"

lemma refill_bound_add:
  "rate p = rate p0 \<Longrightarrow> refill_bound p0 d + refill_bound p e = refill_bound p0 (d + e)"
  by (simp add: refill_bound_def add_divide_distrib distrib_right)

lemma refill_pays:
  assumes ok: "pacer_ok W p" and r: "rate p = rate p0"
    and pays: "of_int (g + tokens p) \<le> of_int b + refill_bound p0 (last_t p - t0)"
  shows "of_int (g + tokens (refillLocked p now)) \<le> of_int b + refill_bound p0 (last_t (refillLocked p now) - t0)"
proof -
  let ?q = "refillLocked p now"
  have "of_int (tokens ?q) \<le> of_int (tokens p) + refill_bound p (last_t ?q - last_t p)"
    by (rule refill_spec(3) [OF ok])
  moreover have "refill_bound p0 (last_t p - t0) + refill_bound p (last_t ?q - last_t p)
      = refill_bound p0 (last_t ?q - t0)"
    by (simp add: refill_bound_add [OF r])
  ultimately show ?thesis using pays by (simp add: algebra_simps)
qed

lemma pace_inv_step:
  assumes "pacerStep now s a s'" "pace_inv W p0 g s" "\<forall>c \<in> set (snd s). cwire c \<le> W"
  shows "pace_inv W p0 (g + a) s'"
  using assms
proof (induction rule: pacerStep.induct)
  case (enter c now p cs)
  then show ?case by (auto simp: pace_inv_def)
next
  case (gate_blocked i cs p now)
  then show ?case by (auto simp: pace_inv_def dest!: set_update_subset_insert [THEN subsetD])
next
  case (gate_open i cs p now)
  then show ?case by (auto simp: pace_inv_def dest!: set_update_subset_insert [THEN subsetD])
next
  case (granted i cs p now p')
  let ?c = "cs ! i"
  have c: "?c \<in> set cs" using granted(1) by simp
  have ok: "pacer_ok W p" and w: "0 < cwire ?c" "cwire ?c \<le> W"
    using granted(4,5) c by (auto simp: pace_inv_def)
  have "pacer_ok W p'" by (rule visit_granted_ok(1) [OF ok granted(3) w])
  moreover have "last_t p \<le> last_t p'"
    using refill_spec(4) [OF ok, of now] visit_granted(3) [OF granted(3)] by simp
  moreover have "g + cwire ?c + tokens p' = g + tokens (refillLocked p now)"
    using visit_granted(2) [OF granted(3)] by simp
  moreover have "set (take i cs @ drop (Suc i) cs) \<subseteq> set cs"
    using set_take_subset [of i cs] set_drop_subset [of "Suc i" cs] by auto
  ultimately show ?case
    using granted(4) refill_pays [OF ok, of p0 g "burstBytes p0" "last_t p0" now]
      visit_granted(3,4,5) [OF granted(3)]
    by (auto simp: pace_inv_def)
next
  case (waits i cs p now d p')
  have ok: "pacer_ok W p" using waits(4) by (simp add: pace_inv_def)
  have "set (cs[i := (cs ! i)\<lparr>cpc := Delaying\<rparr>]) \<subseteq> insert ((cs ! i)\<lparr>cpc := Delaying\<rparr>) (set cs)"
    by (rule set_update_subset_insert)
  moreover have "cs ! i \<in> set cs" using waits(1) by simp
  ultimately show ?case
    using waits(4) refill_pays [OF ok, of p0 g "burstBytes p0" "last_t p0" now] refill_spec [OF ok, of now]
      visit_waits(1) [OF waits(3)]
    by (fastforce simp: pace_inv_def)
next
  case (timer i cs now p)
  then show ?case by (auto simp: pace_inv_def dest!: set_update_subset_insert [THEN subsetD])
next
  case (cancelled i cs now p)
  have "set (take i cs @ drop (Suc i) cs) \<subseteq> set cs"
    using set_take_subset [of i cs] set_drop_subset [of "Suc i" cs] by auto
  with cancelled show ?case by (auto simp: pace_inv_def)
qed

lemma pacerStep_time:
  assumes "pacerStep now (p, cs) a (p', cs')" "pacer_ok W p"
  shows "last_t p' \<le> max (last_t p) now"
  using assms(1)
  by (cases rule: pacerStep.cases)
     (auto simp: visit_granted(3) dest!: visit_waits(1) intro: refill_spec(5) [OF assms(2)])

lemma pacerReach_inv:
  assumes "pacerReach W p0 t g s" "pacer_ok W p0" "criticalWaiters p0 = 0" "recoveryWaiters p0 = 0"
  shows "pace_inv W p0 g s \<and> counters_ok s \<and> last_t (fst s) \<le> t \<and> (\<forall>c \<in> set (snd s). cwire c \<le> W)"
  using assms
proof (induction rule: pacerReach.induct)
  case start
  then show ?case
    by (simp add: pace_inv_def counters_ok_def nclass_def refill_bound_def pacer_ok_def)
next
  case (step t g s t' a s')
  then have IH: "pace_inv W p0 g s" "counters_ok s" "last_t (fst s) \<le> t" "\<forall>c \<in> set (snd s). cwire c \<le> W"
    by blast+
  have "pace_inv W p0 (g + a) s'" by (rule pace_inv_step [OF step(3) IH(1,4)])
  moreover have "counters_ok s'" by (rule counters_ok_step [OF step(3) IH(2)])
  moreover have "last_t (fst s') \<le> t'"
  proof -
    have "pacer_ok W (fst s)" using IH(1) by (auto simp: pace_inv_def)
    then have "last_t (fst s') \<le> max (last_t (fst s)) t'"
      using step(3) pacerStep_time [of t' "fst s" "snd s" a "fst s'" "snd s'" W] by simp
    then show ?thesis using IH(3) step(2) by simp
  qed
  ultimately show ?case using step(4) by blast
qed

section \<open>A call left alone\<close>

lemma NewWirePacer_ok:
  assumes "NewWirePacer cfg now = Some p" "burstBytes p \<le> 2 ^ 51" "W \<le> 2 ^ 51"
  shows "pacer_ok W p" and "criticalWaiters p = 0" and "recoveryWaiters p = 0" and "last_t p = now"
    and "tokens p = burstBytes p"
  using assms by (auto simp: NewWirePacer_def pacer_ok_def Let_def split: if_splits)

lemma elapsed_mono:
  assumes "t \<le> t'" "0 < r"
  shows "of_int (time_sub now t') * of_int r / of_int Second * (1 - f64_slack)
    \<le> of_int (time_sub now t) * of_int r / of_int Second * (1 - f64_slack)"
  using assms time_sub_antimono [OF assms(1), of now]
  by (intro mult_right_mono divide_right_mono) (auto simp: f64_slack_def Second_def)

text \<open>
  Once the time since every earlier visit pays for a full bucket, the next visit is granted whatever
  the class and size of the batch: nothing can wait for ever on a pacer that is not contended.
\<close>

lemma waitLoop_granted:
  assumes "pacer_ok W p" "\<forall>(t, dn) \<in> set pre. \<not> dn \<and> t \<le> u" "last_t p \<le> u" "u < now"
    and "of_int (burstBytes p - tokens p)
      \<le> of_int (time_sub now u) * of_int (rate p) / of_int Second * (1 - f64_slack)"
  shows "\<exists>p'. waitLoop p st wb ub dg cls (pre @ (now, dn) # rest) = Some (True, p')"
  using assms
proof (induction pre arbitrary: p)
  case Nil
  have r: "0 < rate p" using Nil.prems(1) by (simp add: pacer_ok_def)
  have "tokens (refillLocked p now) = burstBytes p"
    using Nil.prems by (intro refill_full [OF Nil.prems(1)] order_trans [OF Nil.prems(5) elapsed_mono [OF _ r]]) auto
  then have "fst (visitBucket p st now wb ub dg cls) = Granted" by (rule full_bucket_grants)
  then show ?case by (auto split: prod.splits visit.splits)
next
  case (Cons tk pre)
  obtain t dn' where tk: "tk = (t, dn')" by (cases tk)
  have t: "\<not> dn'" "t \<le> u" using Cons.prems(2) by (auto simp: tk)
  obtain v p' where v: "visitBucket p st t wb ub dg cls = (v, p')" by (cases "visitBucket p st t wb ub dg cls")
  show ?case
  proof (cases v)
    case Granted
    with v show ?thesis by (simp add: tk)
  next
    case (WaitFor d)
    with v have p': "p' = refillLocked p t" using visit_waits(1) by blast
    note R = refill_spec [OF Cons.prems(1), of t]
    have "of_int (burstBytes p' - tokens p') \<le> (of_int (burstBytes p - tokens p) :: rat)"
      using R(2) by (simp add: p')
    from order_trans [OF this Cons.prems(5)]
    have "\<exists>q. waitLoop p' st wb ub dg cls (pre @ (now, dn) # rest) = Some (True, q)"
      using Cons.prems(2,3,4) R(1,5) t by (intro Cons.IH) (auto simp: p')
    then show ?thesis using v WaitFor t by (simp add: tk)
  qed
qed

section \<open>Properties\<close>

text \<open>C29 (safety). Rate conformance of the shared pacer. Whatever batches of up to \<open>W\<close> wire bytes
  any number of connections push through one pacer, in any interleaving of their calls and
  cancellations, the bytes granted by time \<open>t\<close> never exceed one burst of initial credit, one bounded
  debt (the larger of a burst and the largest batch) and the configured rate times the elapsed
  time; the last factor covers the rounding of the float computation.\<close>

theorem pacing_conformance:
  assumes "NewWirePacer cfg t0 = Some p0" and "burstBytes p0 \<le> 2 ^ 51" and "W \<le> 2 ^ 51"
    and "pacerReach W p0 t g s"
  shows "(of_int g :: rat) \<le> of_int (burstBytes p0) + of_int (max (burstBytes p0) W)
    + of_int (t - t0) * of_int (RateBytesPerSecond cfg) / of_int Second * (1 + 1 / 2 ^ 50)"
proof -
  note N = NewWirePacer_ok [OF assms(1-3)]
  have r: "rate p0 = RateBytesPerSecond cfg" "0 < rate p0"
    using assms(1) by (auto simp: NewWirePacer_def Let_def split: if_splits)
  obtain p cs where s: "s = (p, cs)" by (cases s)
  from pacerReach_inv [OF assms(4) N(1-3)]
  have inv: "pace_inv W p0 g (p, cs)" and t: "last_t p \<le> t" by (simp_all add: s)
  have "of_int (last_t p - t0) * (of_int (rate p0) :: rat) \<le> of_int (t - t0) * of_int (rate p0)"
    using t r(2) by (intro mult_right_mono) auto
  then have "refill_bound p0 (last_t p - t0)
      \<le> of_int (t - t0) * of_int (rate p0) / of_int Second * (1 + 1 / 2 ^ 50)"
    unfolding refill_bound_def f64_slack_def
    by (rule mult_right_mono [OF divide_right_mono]) (simp_all add: Second_def)
  moreover have "of_int g + of_int (tokens p) \<le> (of_int (burstBytes p0) + refill_bound p0 (last_t p - t0) :: rat)"
    using inv N(4) by (simp add: pace_inv_def)
  moreover have "- max (burstBytes p0) W \<le> tokens p"
    using inv by (auto simp: pace_inv_def pacer_ok_def)
  then have "- (of_int (max (burstBytes p0) W) :: rat) \<le> of_int (tokens p)"
    by (simp only: of_int_minus [symmetric] of_int_le_iff)
  ultimately show ?thesis by (simp add: r(1))
qed

definition demoCfg :: WirePacerConfig where
  "demoCfg = \<lparr>RateBytesPerSecond = 1000000, BurstBytes = 2000, Accounting = zeroAccounting\<rparr>"

definition demoPacer :: WirePacer where
  "demoPacer = \<lparr>rate = 1000000, burstBytes = 2000, accounting = zeroAccounting, tokens = 2000,
     last_t = 5, recoveryWaiters = 0, criticalWaiters = 0, stats = zeroStats\<rparr>"

lemma demoPacer_new: "NewWirePacer demoCfg 5 = Some demoPacer"
  by (simp add: NewWirePacer_def demoCfg_def demoPacer_def zeroAccounting_def)

definition demoCall :: waitCall where
  "demoCall = \<lparr>cclass = paceBulk, cwire = 1500, cudp = 1472, cdgrams = 1, cstart = 6, cpc = AtGate\<rparr>"

lemma demo_reach: "\<exists>s. pacerReach 1500 demoPacer 8 1500 s"
proof -
  have "pacerReach 1500 demoPacer 6 (0 + 0) (enterWait demoPacer (cclass demoCall), [] @ [demoCall])"
    by (rule pacerReach.step [OF pacerReach.start _ pacerStep.enter])
       (auto simp: demoPacer_def demoCall_def)
  then have "pacerReach 1500 demoPacer 6 0 (demoPacer, [demoCall])"
    by (simp add: demoCall_def enterWait_def)
  then have "pacerReach 1500 demoPacer 7 (0 + 0) (demoPacer, [demoCall][0 := ([demoCall] ! 0)\<lparr>cpc := AtBucket\<rparr>])"
    by (rule pacerReach.step [OF _ _ pacerStep.gate_open])
       (auto simp: demoCall_def demoPacer_def gateBlocked_def)
  then have r: "pacerReach 1500 demoPacer 7 0 (demoPacer, [demoCall\<lparr>cpc := AtBucket\<rparr>])" by simp
  define c where "c = demoCall\<lparr>cpc := AtBucket\<rparr>"
  obtain v p' where v: "visitBucket demoPacer (cstart c) 8 (cwire c) (cudp c) (cdgrams c) (cclass c) = (v, p')"
    by fastforce
  have "v = Granted"
    using v by (auto simp: visitBucket_def c_def demoCall_def demoPacer_def neededTokens_def refillLocked_def Let_def)
  with v have "pacerStep 8 (demoPacer, [c]) (cwire ([c] ! 0))
      (leaveWait p' (cclass ([c] ! 0)), take 0 [c] @ drop (Suc 0) [c])"
    by (intro pacerStep.granted) (auto simp: c_def)
  from pacerReach.step [OF r [folded c_def] _ this] show ?thesis
    by (auto simp: c_def demoCall_def)
qed

theorem pacing_conformance_witness:
  "\<exists>s. pacerReach 1500 demoPacer 8 1500 s \<and>
     (1500 :: rat) \<le> 2000 + 2000 + 3 * 1000000 / 1000000000 * (1 + 1 / 2 ^ 50)"
proof -
  obtain s where s: "pacerReach 1500 demoPacer 8 1500 s" using demo_reach ..
  have "of_int 1500 \<le> of_int (burstBytes demoPacer) + of_int (max (burstBytes demoPacer) 1500)
    + of_int (8 - 5) * of_int (RateBytesPerSecond demoCfg) / of_int Second * (1 + 1 / 2 ^ 50 :: rat)"
    by (rule pacing_conformance [OF demoPacer_new _ _ s]) (simp_all add: demoPacer_def)
  then have "(1500 :: rat) \<le> 2000 + 2000 + 3 * 1000000 / 1000000000 * (1 + 1 / 2 ^ 50)"
    by (simp add: demoPacer_def demoCfg_def Second_def)
  with s show ?thesis by blast
qed

text \<open>C32 (invariant). In every reachable state the bucket holds at most one burst, its debt is at
  most the larger of a burst and the largest batch, and the atomic waiter counters equal the number
  of critical and recovery calls in progress.\<close>

theorem pacer_state_bounds:
  assumes "NewWirePacer cfg t0 = Some p0" and "burstBytes p0 \<le> 2 ^ 51" and "W \<le> 2 ^ 51"
    and "pacerReach W p0 t g (p, cs)"
  shows "tokens p \<le> burstBytes p \<and> - max (burstBytes p) W \<le> tokens p \<and>
    criticalWaiters p = int (nclass paceCritical cs) \<and> recoveryWaiters p = int (nclass paceRecovery cs)"
  using pacerReach_inv [OF assms(4) NewWirePacer_ok(1-3) [OF assms(1-3)]]
  by (auto simp: pace_inv_def pacer_ok_def counters_ok_def)

theorem pacer_state_bounds_witness:
  "tokens demoPacer \<le> burstBytes demoPacer \<and> - max (burstBytes demoPacer) 1500 \<le> tokens demoPacer \<and>
    criticalWaiters demoPacer = int (nclass paceCritical []) \<and>
    recoveryWaiters demoPacer = int (nclass paceRecovery [])"
  by (rule pacer_state_bounds [OF demoPacer_new _ _ pacerReach.start]) (simp_all add: demoPacer_def)

text \<open>C33 (liveness). A batch of any size and class is granted by an uncontended pacer: as soon as the
  time since the earlier visits pays for the missing tokens at the configured rate (up to rounding),
  \<open>waitBatch\<close> returns true, provided \<open>done\<close> was not closed before.\<close>

theorem waitBatch_granted:
  assumes "pacer_ok W p" and "\<forall>(t, dn) \<in> set pre. \<not> dn \<and> t \<le> u" and "last_t p \<le> u" and "u < now"
    and "of_int (burstBytes p - tokens p)
      \<le> of_int (time_sub now u) * of_int (rate p) / of_int Second * (1 - f64_slack)"
  shows "\<exists>p'. waitBatch (Some p) st wb ub dg cls (pre @ (now, dn) # rest) = Some (True, p')"
proof (cases "rate p \<le> 0 \<or> wb \<le> 0")
  case True
  then show ?thesis by (simp add: waitBatch_def)
next
  case False
  have "\<exists>p'. waitLoop (enterWait p cls) st wb ub dg cls (pre @ (now, dn) # rest) = Some (True, p')"
    using assms by (intro waitLoop_granted [where W = W and u = u]) simp_all
  then show ?thesis using False by (auto simp: waitBatch_def)
qed

theorem waitBatch_granted_witness:
  "\<exists>p'. waitBatch (Some (demoPacer\<lparr>tokens := -2000\<rparr>)) 5 9000 8900 6 paceBulk ([(6, False)] @ (10000000, False) # [])
     = Some (True, p')"
  by (rule waitBatch_granted [where W = 0 and u = 6])
     (simp_all add: pacer_ok_def demoPacer_def Second_def f64_slack_def time_sub_def max_duration_def min_duration_def)

end
