(* ===== verification/Options.thy ===== *)
theory Options
  imports Frame Pacer
begin

text \<open>
  Connection configuration, \<open>options.go\<close>: the \<open>config\<close> struct with its defaults, every functional
  option, and the values derived from a configuration. \<open>socketOpts\<close>, a callback into the socket
  library, is not part of the model.

  The lemmas: every configuration that options can build from the defaults is well-formed
  (\<open>config_ok\<close>), and a well-formed configuration leaves room for at least one selective-ACK entry and
  for data in every frame, which is what the chunking loops of the send path rely on.
\<close>

definition defaultMaxStreams :: int where "defaultMaxStreams = 1024"
definition defaultStreamBufSize :: int where "defaultStreamBufSize = 128 * 1024 * 1024"
definition defaultRecvBufSize :: int where "defaultRecvBufSize = 16 * 1024 * 1024"
definition defaultSendBufSize :: int where "defaultSendBufSize = 16 * 1024 * 1024"
definition defaultBatchSize :: int where "defaultBatchSize = 64"
definition defaultHandshakeTimout :: duration where "defaultHandshakeTimout = 5 * Second"
definition defaultKeepAlive :: duration where "defaultKeepAlive = 10 * Second"
definition defaultRetransmitTimeout :: duration where "defaultRetransmitTimeout = 300 * Millisecond"
definition defaultMinRetransmitTimeout :: duration where
  "defaultMinRetransmitTimeout = 150 * Millisecond"
definition defaultFECGroup :: int where "defaultFECGroup = 8"

lemmas default_defs = defaultMaxStreams_def defaultStreamBufSize_def defaultRecvBufSize_def
  defaultSendBufSize_def defaultBatchSize_def defaultHandshakeTimout_def defaultKeepAlive_def
  defaultRetransmitTimeout_def defaultMinRetransmitTimeout_def defaultFECGroup_def

record config =
  maxStreams :: int
  streamBufSize :: int
  recvBufSize :: int
  sendBufSize :: int
  batchSize :: int
  maxPayload :: int
  handshakeTimout :: duration
  keepAlive :: duration
  retransmitTmout :: duration
  minRetransmitTmout :: duration
  bindDevice :: string
  enableGSO :: bool
  enableIOUring :: bool
  maxInFlight :: int
  fecGroup :: int
  fec2D :: bool
  paceRate :: int
  paceBurst :: int
  paceAccounting :: WireAccounting
  wirePacer :: "WirePacer option"

definition defaultConfig :: config where
  "defaultConfig = \<lparr>maxStreams = defaultMaxStreams, streamBufSize = defaultStreamBufSize,
     recvBufSize = defaultRecvBufSize, sendBufSize = defaultSendBufSize,
     batchSize = defaultBatchSize, maxPayload = int defaultMaxPayloadSize,
     handshakeTimout = defaultHandshakeTimout, keepAlive = defaultKeepAlive,
     retransmitTmout = defaultRetransmitTimeout, minRetransmitTmout = defaultMinRetransmitTimeout,
     bindDevice = [], enableGSO = True, enableIOUring = True, maxInFlight = 0,
     fecGroup = defaultFECGroup, fec2D = False, paceRate = 0, paceBurst = 0,
     paceAccounting = zeroAccounting, wirePacer = None\<rparr>"

definition dataCap :: "config \<Rightarrow> int" where
  "dataCap c = (if 0 < fecGroup c then maxPayload c - int fecMetaLen else maxPayload c)"

definition effectiveMaxInFlight :: "config \<Rightarrow> int" where
  "effectiveMaxInFlight c =
     (if 0 < maxInFlight c then maxInFlight c else recvBufSize c + recvBufSize c sdiv 2)"

definition maxDatagram :: "config \<Rightarrow> int" where
  "maxDatagram c = int frameHeaderSize + maxPayload c"

definition pacingEnabled :: "config \<Rightarrow> bool" where
  "pacingEnabled c \<longleftrightarrow> wirePacer c \<noteq> None \<or> 0 < paceRate c"

definition ensureWirePacer :: "config \<Rightarrow> time \<Rightarrow> config" where
  "ensureWirePacer c now =
     (if wirePacer c \<noteq> None \<or> paceRate c \<le> 0 then c
      else c\<lparr>wirePacer := NewWirePacer \<lparr>RateBytesPerSecond = paceRate c, BurstBytes = paceBurst c,
                                        Accounting = paceAccounting c\<rparr> now\<rparr>)"

section \<open>The options\<close>

type_synonym Option = "config \<Rightarrow> config"

definition WithMaxStreams :: "int \<Rightarrow> Option" where
  "WithMaxStreams n = (\<lambda>c. c\<lparr>maxStreams := n\<rparr>)"
definition WithStreamBufferSize :: "int \<Rightarrow> Option" where
  "WithStreamBufferSize n = (\<lambda>c. c\<lparr>streamBufSize := n\<rparr>)"
definition WithRecvBufferSize :: "int \<Rightarrow> Option" where
  "WithRecvBufferSize n = (\<lambda>c. c\<lparr>recvBufSize := n\<rparr>)"
definition WithSendBufferSize :: "int \<Rightarrow> Option" where
  "WithSendBufferSize n = (\<lambda>c. c\<lparr>sendBufSize := n\<rparr>)"
definition WithBatchSize :: "int \<Rightarrow> Option" where
  "WithBatchSize n = (\<lambda>c. c\<lparr>batchSize := n\<rparr>)"
definition WithHandshakeTimeout :: "duration \<Rightarrow> Option" where
  "WithHandshakeTimeout d = (\<lambda>c. c\<lparr>handshakeTimout := d\<rparr>)"
definition WithKeepAlive :: "duration \<Rightarrow> Option" where
  "WithKeepAlive d = (\<lambda>c. c\<lparr>keepAlive := d\<rparr>)"
definition WithIdleTimeout :: "duration \<Rightarrow> Option" where
  "WithIdleTimeout d = (\<lambda>c. c\<lparr>keepAlive := d sdiv 3\<rparr>)"
definition WithMaxDatagramSize :: "int \<Rightarrow> Option" where
  "WithMaxDatagramSize n =
     (\<lambda>c. if int frameHeaderSize + 12 \<le> n then c\<lparr>maxPayload := n - int frameHeaderSize\<rparr> else c)"
definition WithBindToDevice :: "string \<Rightarrow> Option" where
  "WithBindToDevice ifname = (\<lambda>c. c\<lparr>bindDevice := ifname\<rparr>)"
definition WithRetransmitTimeout :: "duration \<Rightarrow> Option" where
  "WithRetransmitTimeout d = (\<lambda>c. c\<lparr>retransmitTmout := d\<rparr>)"
definition WithMinRetransmitTimeout :: "duration \<Rightarrow> Option" where
  "WithMinRetransmitTimeout d = (\<lambda>c. if 0 < d then c\<lparr>minRetransmitTmout := d\<rparr> else c)"
definition WithMaxBytesInFlight :: "int \<Rightarrow> Option" where
  "WithMaxBytesInFlight n = (\<lambda>c. c\<lparr>maxInFlight := n\<rparr>)"
definition WithGSO :: "bool \<Rightarrow> Option" where
  "WithGSO enabled = (\<lambda>c. c\<lparr>enableGSO := enabled\<rparr>)"
definition WithIOUring :: "bool \<Rightarrow> Option" where
  "WithIOUring enabled = (\<lambda>c. c\<lparr>enableIOUring := enabled\<rparr>)"
definition WithFEC :: "int \<Rightarrow> Option" where
  "WithFEC groupSize =
     (\<lambda>c. c\<lparr>fecGroup := (if groupSize \<le> 0 then 0 else if groupSize < 2 then 2
                          else if 32 < groupSize then 32 else groupSize)\<rparr>)"
definition WithFEC2D :: "bool \<Rightarrow> Option" where
  "WithFEC2D enabled = (\<lambda>c. c\<lparr>fec2D := enabled\<rparr>)"
definition WithPacingRate :: "int \<Rightarrow> Option" where
  "WithPacingRate bytesPerSec =
     (\<lambda>c. c\<lparr>paceRate := (if bytesPerSec < 0 then 0 else bytesPerSec), wirePacer := None\<rparr>)"
definition WithPacingAccounting :: "WireAccounting \<Rightarrow> Option" where
  "WithPacingAccounting a = (\<lambda>c. c\<lparr>paceAccounting := a\<rparr>)"
definition WithPacingBurstBytes :: "int \<Rightarrow> Option" where
  "WithPacingBurstBytes b = (\<lambda>c. c\<lparr>paceBurst := b\<rparr>)"
definition WithWirePacer :: "WirePacer option \<Rightarrow> Option" where
  "WithWirePacer pacer = (\<lambda>c. c\<lparr>wirePacer := pacer, paceRate := 0\<rparr>)"

lemmas option_defs = WithMaxStreams_def WithStreamBufferSize_def WithRecvBufferSize_def
  WithSendBufferSize_def WithBatchSize_def WithHandshakeTimeout_def WithKeepAlive_def
  WithIdleTimeout_def WithMaxDatagramSize_def WithBindToDevice_def WithRetransmitTimeout_def
  WithMinRetransmitTimeout_def WithMaxBytesInFlight_def WithGSO_def WithIOUring_def WithFEC_def
  WithFEC2D_def WithPacingRate_def WithPacingAccounting_def WithPacingBurstBytes_def
  WithWirePacer_def

text \<open>The option values a caller can make, and the configuration \<open>Dial\<close> and \<open>Listen\<close> start from.\<close>

inductive isOption :: "Option \<Rightarrow> bool" where
  "isOption (WithMaxStreams n)" | "isOption (WithStreamBufferSize n)"
| "isOption (WithRecvBufferSize n)" | "isOption (WithSendBufferSize n)"
| "isOption (WithBatchSize n)" | "isOption (WithHandshakeTimeout d)"
| "isOption (WithKeepAlive d)" | "isOption (WithIdleTimeout d)"
| "isOption (WithMaxDatagramSize n)" | "isOption (WithBindToDevice i)"
| "isOption (WithRetransmitTimeout d)" | "isOption (WithMinRetransmitTimeout d)"
| "isOption (WithMaxBytesInFlight n)" | "isOption (WithGSO b)" | "isOption (WithIOUring b)"
| "isOption (WithFEC n)" | "isOption (WithFEC2D b)" | "isOption (WithPacingRate n)"
| "isOption (WithPacingAccounting a)" | "isOption (WithPacingBurstBytes n)"
| "isOption (WithWirePacer p)"

definition applyOptions :: "Option list \<Rightarrow> config" where
  "applyOptions opts = fold (\<lambda>opt c. opt c) opts defaultConfig"

section \<open>Well-formed configurations\<close>

definition config_ok :: "config \<Rightarrow> bool" where
  "config_ok c \<longleftrightarrow> 12 \<le> maxPayload c \<and> (fecGroup c = 0 \<or> 2 \<le> fecGroup c \<and> fecGroup c \<le> 32) \<and>
     0 < minRetransmitTmout c \<and> 0 \<le> paceRate c"

lemma config_ok_default: "config_ok defaultConfig"
  by (simp add: config_ok_def defaultConfig_def default_defs defaultMaxPayloadSize_def duration_units)

lemma config_ok_option: "isOption opt \<Longrightarrow> config_ok c \<Longrightarrow> config_ok (opt c)"
  by (induction rule: isOption.induct) (simp_all add: config_ok_def option_defs frameHeaderSize_def)

lemma config_ok_dataCap: "config_ok c \<Longrightarrow> 8 \<le> dataCap c \<and> dataCap c \<le> maxPayload c"
  by (auto simp: config_ok_def dataCap_def fecMetaLen_def)

text \<open>C35 (invariant). Whatever options a caller passes, and in whatever order, the resulting
  configuration is well-formed: an ACK frame has room for at least one sequence number, the FEC
  group size is 0 or between 2 and 32, every DATA frame has room for at least 8 bytes of data, and
  a full DATA frame with its header and FEC prefix is no larger than a datagram.\<close>

theorem applyOptions_ok:
  assumes "\<forall>opt \<in> set opts. isOption opt"
  shows "config_ok (applyOptions opts) \<and> 0 < maxAckSeqsPerFrame (maxPayload (applyOptions opts)) \<and>
    8 \<le> dataCap (applyOptions opts) \<and>
    int frameHeaderSize + (if 0 < fecGroup (applyOptions opts) then int fecMetaLen else 0)
      + dataCap (applyOptions opts) \<le> maxDatagram (applyOptions opts)"
proof -
  have "config_ok c \<Longrightarrow> config_ok (fold (\<lambda>opt c. opt c) opts c)" for c
    using assms by (induction opts arbitrary: c) (auto intro: config_ok_option)
  then have ok: "config_ok (applyOptions opts)"
    by (simp add: applyOptions_def config_ok_default)
  then have "12 \<le> maxPayload (applyOptions opts)" by (simp add: config_ok_def)
  then show ?thesis
    using ok config_ok_dataCap [OF ok] by (simp add: maxAckSeqsPerFrame_pos_iff maxDatagram_def dataCap_def)
qed

theorem applyOptions_ok_witness:
  "config_ok (applyOptions [WithMaxDatagramSize 25, WithFEC 1]) \<and>
   0 < maxAckSeqsPerFrame (maxPayload (applyOptions [WithMaxDatagramSize 25, WithFEC 1])) \<and>
   8 \<le> dataCap (applyOptions [WithMaxDatagramSize 25, WithFEC 1]) \<and>
   int frameHeaderSize + (if 0 < fecGroup (applyOptions [WithMaxDatagramSize 25, WithFEC 1])
     then int fecMetaLen else 0) + dataCap (applyOptions [WithMaxDatagramSize 25, WithFEC 1])
     \<le> maxDatagram (applyOptions [WithMaxDatagramSize 25, WithFEC 1])"
  by (rule applyOptions_ok) (auto intro: isOption.intros)

end
