(* ===== verification/Ring.thy ===== *)
theory Ring
  imports Prelude
begin

text \<open>
  The receive ring of a stream (\<open>stream.go\<close>, ``ring buffer''): the fields \<open>readBuf\<close>, \<open>readHead\<close>,
  \<open>readTail\<close>, \<open>readLen\<close> of \<open>Stream\<close> as a record of their own, with \<open>ringFitsLocked\<close>, \<open>ringWrite\<close>,
  \<open>ringRead\<close>, \<open>reallocRingLocked\<close> and the capacity computation of \<open>growLocked\<close>.

  The contract of the component is a bounded first-in-first-out queue of bytes, the locale
  \<open>byte_queue\<close>; the ring refines it through \<open>ring_list\<close>, the buffered bytes in order. The wrap-around
  of head and tail, the two-part copies and the linearisation on growth are all below that
  interface.
\<close>

record ring =
  readBuf :: bytes
  readHead :: nat
  readTail :: nat
  readLen :: nat

text \<open>\<open>copy(buf[lo:hi], src)\<close>.\<close>

definition copy_slice :: "'a list \<Rightarrow> nat \<Rightarrow> nat \<Rightarrow> 'a list \<Rightarrow> 'a list" where
  "copy_slice buf lo hi src = take lo buf @ go_copy (slice buf lo hi) 0 src @ drop hi buf"

definition ringFitsLocked :: "ring \<Rightarrow> nat \<Rightarrow> bool" where
  "ringFitsLocked r n \<longleftrightarrow> readLen r + n \<le> length (readBuf r)"

definition ringWrite :: "bytes \<Rightarrow> ring \<Rightarrow> ring" where
  "ringWrite data r =
     (let cap = length (readBuf r); n = length data; end = readTail r + n;
          buf = (if end \<le> cap then copy_slice (readBuf r) (readTail r) end data
                 else let first = cap - readTail r;
                          b = copy_slice (readBuf r) (readTail r) cap (take first data)
                      in copy_slice b 0 (end - cap) (drop first data))
      in r\<lparr>readBuf := buf, readTail := (readTail r + n) mod cap, readLen := readLen r + n\<rparr>)"

text \<open>\<open>ringRead p\<close>: \<open>want\<close> is \<open>len(p)\<close>; the bytes copied into \<open>p\<close> are returned.\<close>

definition ringRead :: "nat \<Rightarrow> ring \<Rightarrow> bytes \<times> ring" where
  "ringRead want r =
     (let cap = length (readBuf r); n = (if readLen r < want then readLen r else want);
          end = readHead r + n;
          out = (if end \<le> cap then slice (readBuf r) (readHead r) end
                 else slice (readBuf r) (readHead r) cap @ slice (readBuf r) 0 (end - cap))
      in (out, r\<lparr>readHead := (readHead r + n) mod cap, readLen := readLen r - n\<rparr>))"

definition reallocRingLocked :: "nat \<Rightarrow> ring \<Rightarrow> ring" where
  "reallocRingLocked newCap r =
     (let nb = replicate newCap 0; (out, r') = ringRead (readLen r) r; n = length out in
      r'\<lparr>readBuf := go_copy nb 0 out, readHead := 0, readTail := n mod newCap, readLen := n\<rparr>)"

text \<open>
  The doubling loop of \<open>growLocked\<close>. A ring of capacity 0 would make the source loop for ever; rings
  are created with at least two frames of room, and \<open>ring_ok\<close> keeps the capacity positive.
\<close>

function growCap :: "nat \<Rightarrow> nat \<Rightarrow> nat" where
  "growCap newCap need = (if newCap < need \<and> 0 < newCap then growCap (2 * newCap) need else newCap)"
  by pat_completeness auto
termination
  by (relation "measure (\<lambda>(c, need). need - c)") auto

declare growCap.simps [simp del]

definition newRing :: "nat \<Rightarrow> ring" where
  "newRing cap = \<lparr>readBuf = replicate cap 0, readHead = 0, readTail = 0, readLen = 0\<rparr>"

section \<open>Invariant and abstraction\<close>

definition ring_ok :: "ring \<Rightarrow> bool" where
  "ring_ok r \<longleftrightarrow> 0 < length (readBuf r) \<and> readHead r < length (readBuf r) \<and>
     readLen r \<le> length (readBuf r) \<and> readTail r = (readHead r + readLen r) mod length (readBuf r)"

definition ring_list :: "ring \<Rightarrow> bytes" where
  "ring_list r = map (\<lambda>i. readBuf r ! ((readHead r + i) mod length (readBuf r))) [0..<readLen r]"

lemma length_ring_list [simp]: "length (ring_list r) = readLen r"
  by (simp add: ring_list_def)

lemma nth_ring_list: "i < readLen r \<Longrightarrow>
  ring_list r ! i = readBuf r ! ((readHead r + i) mod length (readBuf r))"
  by (simp add: ring_list_def)

lemma ring_ok_new [simp]: "0 < cap \<Longrightarrow> ring_ok (newRing cap)"
  by (simp add: ring_ok_def newRing_def)

lemma ring_list_new [simp]: "ring_list (newRing cap) = []"
  by (simp add: ring_list_def newRing_def)

lemma mod_wrap: "(a :: nat) < c \<Longrightarrow> i \<le> c \<Longrightarrow> (a + i) mod c = (if a + i < c then a + i else a + i - c)"
  by (simp add: mod_if)

lemma nth_copy_slice:
  "length src = hi - lo \<Longrightarrow> lo \<le> hi \<Longrightarrow> hi \<le> length buf \<Longrightarrow> i < length buf \<Longrightarrow>
   copy_slice buf lo hi src ! i = (if lo \<le> i \<and> i < hi then src ! (i - lo) else buf ! i)"
  by (auto simp: copy_slice_def go_copy_full nth_append)

lemma length_copy_slice [simp]:
  "lo \<le> hi \<Longrightarrow> hi \<le> length buf \<Longrightarrow> length (copy_slice buf lo hi src) = length buf"
  by (simp add: copy_slice_def)

lemma ringWrite_fields [simp]:
  assumes "ring_ok r" "ringFitsLocked r (length data)"
  shows "length (readBuf (ringWrite data r)) = length (readBuf r)"
    "readHead (ringWrite data r) = readHead r"
    "readLen (ringWrite data r) = readLen r + length data"
    "readTail (ringWrite data r) = (readTail r + length data) mod length (readBuf r)"
proof -
  have "readTail r < length (readBuf r)" using assms(1) by (auto simp: ring_ok_def)
  then show "length (readBuf (ringWrite data r)) = length (readBuf r)"
    using assms(2) by (simp add: ringWrite_def Let_def ringFitsLocked_def)
qed (simp_all add: ringWrite_def Let_def)

text \<open>Every cell of the buffer after a write: the new bytes from the tail on, the rest unchanged.\<close>

lemma ringWrite_nth:
  assumes ok: "ring_ok r" and fit: "ringFitsLocked r (length data)" and j: "j < length (readBuf r)"
  shows "readBuf (ringWrite data r) ! j =
    (if readTail r \<le> j \<and> j < readTail r + length data then data ! (j - readTail r)
     else if j + length (readBuf r) < readTail r + length data
          then data ! (j + length (readBuf r) - readTail r) else readBuf r ! j)"
proof -
  have t: "readTail r < length (readBuf r)" using ok by (auto simp: ring_ok_def)
  have n: "length data \<le> length (readBuf r)" using fit by (simp add: ringFitsLocked_def)
  show ?thesis
  proof (cases "readTail r + length data \<le> length (readBuf r)")
    case True
    then show ?thesis using j t by (simp add: ringWrite_def Let_def nth_copy_slice)
  next
    case False
    let ?c = "length (readBuf r)" and ?first = "length (readBuf r) - readTail r"
    let ?b = "copy_slice (readBuf r) (readTail r) ?c (take ?first data)"
    have b: "?b ! j = (if readTail r \<le> j then data ! (j - readTail r) else readBuf r ! j)"
      using False j t by (subst nth_copy_slice) auto
    have lb: "length ?b = ?c" using t by simp
    have "copy_slice ?b 0 (readTail r + length data - ?c) (drop ?first data) ! j
        = (if j < readTail r + length data - ?c then drop ?first data ! j else ?b ! j)"
      using False j t n lb by (subst nth_copy_slice) auto
    moreover have "j < readTail r + length data - ?c \<Longrightarrow> drop ?first data ! j = data ! (j + ?c - readTail r)"
      using False t n by (subst nth_drop) (auto intro!: arg_cong [of _ _ "nth data"])
    ultimately show ?thesis
      using False j t n b by (auto simp: ringWrite_def Let_def)
  qed
qed

lemma ringWrite_ok:
  assumes "ring_ok r" "ringFitsLocked r (length data)"
  shows "ring_ok (ringWrite data r)"
  using assms by (auto simp: ring_ok_def ringFitsLocked_def mod_add_left_eq add.assoc)

lemma ring_list_ringWrite:
  assumes ok: "ring_ok r" and fit: "ringFitsLocked r (length data)"
  shows "ring_list (ringWrite data r) = ring_list r @ data"
proof (rule nth_equalityI)
  show "length (ring_list (ringWrite data r)) = length (ring_list r @ data)"
    using assms by simp
next
  fix i
  assume "i < length (ring_list (ringWrite data r))"
  then have i: "i < readLen r + length data" using assms by simp
  let ?c = "length (readBuf r)" and ?h = "readHead r" and ?l = "readLen r"
  have h: "?h < ?c" "?l \<le> ?c" and t: "readTail r = (?h + ?l) mod ?c"
    using ok by (auto simp: ring_ok_def)
  have n: "?l + length data \<le> ?c" using fit by (simp add: ringFitsLocked_def)
  let ?j = "(?h + i) mod ?c"
  have "0 < ?c" using h(1) by linarith
  then have j: "?j < ?c" by (rule mod_less_divisor)
  have jw: "?j = (if ?h + i < ?c then ?h + i else ?h + i - ?c)"
    using h i n by (intro mod_wrap) auto
  have tw: "readTail r = (if ?h + ?l < ?c then ?h + ?l else ?h + ?l - ?c)"
    unfolding t using h by (intro mod_wrap) auto
  have "ring_list (ringWrite data r) ! i = readBuf (ringWrite data r) ! ?j"
    using assms i by (subst nth_ring_list) auto
  also have "\<dots> = (ring_list r @ data) ! i"
    unfolding ringWrite_nth [OF ok fit j]
    using jw tw i n h
    by (auto simp: nth_append nth_ring_list split: if_splits intro!: arg_cong [of _ _ "nth data"])
  finally show "ring_list (ringWrite data r) ! i = (ring_list r @ data) ! i" .
qed

lemma ringRead_fields [simp]:
  "readBuf (snd (ringRead n r)) = readBuf r"
  "readTail (snd (ringRead n r)) = readTail r"
  "readLen (snd (ringRead n r)) = readLen r - min n (readLen r)"
  "readHead (snd (ringRead n r)) = (readHead r + min n (readLen r)) mod length (readBuf r)"
  by (auto simp: ringRead_def Let_def min_def)

lemma ringRead_out:
  assumes ok: "ring_ok r"
  shows "fst (ringRead n r) = take n (ring_list r)"
proof -
  let ?c = "length (readBuf r)" and ?h = "readHead r" and ?k = "min n (readLen r)"
  have h: "?h < ?c" "readLen r \<le> ?c" using ok by (auto simp: ring_ok_def)
  have k: "(if readLen r < n then readLen r else n) = ?k" by auto
  have len: "length (fst (ringRead n r)) = ?k"
    using h by (auto simp: ringRead_def Let_def k)
  have "fst (ringRead n r) ! i = ring_list r ! i" if i: "i < ?k" for i
  proof (cases "?h + ?k \<le> ?c")
    case True
    with i have "?h + i < ?c" by linarith
    with True show ?thesis
      using i h by (auto simp: ringRead_def Let_def k nth_ring_list slice_def mod_wrap)
  next
    case False
    then show ?thesis
      using i h by (auto simp: ringRead_def Let_def k nth_ring_list nth_append slice_def mod_wrap add.commute)
  qed
  then show ?thesis
    using len by (intro nth_equalityI) auto
qed

lemma ringRead_ok:
  assumes "ring_ok r"
  shows "ring_ok (snd (ringRead n r))"
proof -
  let ?c = "length (readBuf r)" and ?m = "min n (readLen r)"
  have "((readHead r + ?m) mod ?c + (readLen r - ?m)) mod ?c = (readHead r + readLen r) mod ?c"
    by (simp only: mod_add_left_eq) simp
  then show ?thesis
    unfolding ring_ok_def ringRead_fields using assms by (auto simp: ring_ok_def)
qed

lemma ring_list_ringRead:
  assumes ok: "ring_ok r"
  shows "ring_list (snd (ringRead n r)) = drop n (ring_list r)"
proof (rule nth_equalityI)
  show "length (ring_list (snd (ringRead n r))) = length (drop n (ring_list r))" by simp
next
  fix i
  assume "i < length (ring_list (snd (ringRead n r)))"
  then have i: "i < readLen r - n" by (simp add: min_def split: if_splits)
  then have "min n (readLen r) = n" by simp
  with i show "ring_list (snd (ringRead n r)) ! i = drop n (ring_list r) ! i"
    by (simp add: nth_ring_list mod_add_left_eq add.assoc)
qed

lemma reallocRing_props:
  assumes ok: "ring_ok r" and n: "readLen r \<le> newCap" "0 < newCap"
  shows "ring_ok (reallocRingLocked newCap r)"
    and "ring_list (reallocRingLocked newCap r) = ring_list r"
    and "length (readBuf (reallocRingLocked newCap r)) = newCap"
    and "readLen (reallocRingLocked newCap r) = readLen r"
proof -
  have out: "fst (ringRead (readLen r) r) = ring_list r"
    using ringRead_out [OF ok] by simp
  let ?q = "reallocRingLocked newCap r"
  have buf: "readBuf ?q = ring_list r @ drop (readLen r) (replicate newCap 0)"
    and q: "readHead ?q = 0" "readTail ?q = readLen r mod newCap" "readLen ?q = readLen r"
    using out n by (auto simp: reallocRingLocked_def Let_def go_copy_prefix split: prod.splits)
  show len: "length (readBuf ?q) = newCap" using n by (simp add: buf)
  show "ring_ok ?q" using n len by (simp add: ring_ok_def q)
  show "readLen ?q = readLen r" by (rule q)
  show "ring_list ?q = ring_list r"
    using n by (intro nth_equalityI) (auto simp: nth_ring_list q len buf nth_append)
qed

lemma growCap_ge: "0 < c \<Longrightarrow> need \<le> growCap c need \<and> c \<le> growCap c need"
proof (induction c need rule: growCap.induct)
  case (1 c need)
  then show ?case by (auto simp: growCap.simps [of c need])
qed

lemmas ring_rules [ring_simps] = ring_list_ringWrite ringWrite_ok ringRead_out ringRead_ok ring_list_ringRead

section \<open>The contract: a bounded byte queue\<close>

datatype qop = Put bytes | Get nat

locale byte_queue =
  fixes abs :: "'q \<Rightarrow> bytes"
    and invar :: "'q \<Rightarrow> bool"
    and room :: "'q \<Rightarrow> nat \<Rightarrow> bool"
    and put :: "bytes \<Rightarrow> 'q \<Rightarrow> 'q"
    and get :: "nat \<Rightarrow> 'q \<Rightarrow> bytes \<times> 'q"
  assumes put_abs: "invar q \<Longrightarrow> room q (length xs) \<Longrightarrow> abs (put xs q) = abs q @ xs"
    and put_invar: "invar q \<Longrightarrow> room q (length xs) \<Longrightarrow> invar (put xs q)"
    and get_out: "invar q \<Longrightarrow> fst (get n q) = take n (abs q)"
    and get_abs: "invar q \<Longrightarrow> abs (snd (get n q)) = drop n (abs q)"
    and get_invar: "invar q \<Longrightarrow> invar (snd (get n q))"
begin

text \<open>A client that writes only when there is room: what comes out, then what is still queued, is
  what was queued and then written, in order.\<close>

fun run :: "qop list \<Rightarrow> 'q \<Rightarrow> bytes \<times> bytes \<times> 'q" where
  "run [] q = ([], [], q)"
| "run (Put xs # ops) q =
     (if room q (length xs) then let (i, out, q') = run ops (put xs q) in (xs @ i, out, q')
      else run ops q)"
| "run (Get n # ops) q = (let (b, q1) = get n q; (i, out, q') = run ops q1 in (i, b @ out, q'))"

lemma run_fifo:
  "invar q \<Longrightarrow> run ops q = (i, out, q') \<Longrightarrow> invar q' \<and> out @ abs q' = abs q @ i"
proof (induction ops q arbitrary: i out q' rule: run.induct)
  case (1 q)
  then show ?case by simp
next
  case (2 xs ops q)
  show ?case
  proof (cases "room q (length xs)")
    case True
    obtain i1 o1 q1 where r: "run ops (put xs q) = (i1, o1, q1)" by (cases "run ops (put xs q)")
    from "2.IH"(1) [OF True put_invar [OF "2.prems"(1) True] r] show ?thesis
      using "2.prems" True r by (simp add: put_abs)
  next
    case False
    then show ?thesis using "2.IH"(2) "2.prems" by simp
  qed
next
  case (3 n ops q)
  obtain b q1 where g: "get n q = (b, q1)" by (cases "get n q")
  obtain i1 o1 q2 where r: "run ops q1 = (i1, o1, q2)" by (cases "run ops q1")
  have q1: "invar q1" "abs q1 = drop n (abs q)" "b = take n (abs q)"
    using get_invar [OF "3.prems"(1), of n] get_abs [OF "3.prems"(1), of n] get_out [OF "3.prems"(1), of n]
    by (simp_all add: g)
  from "3.IH" [OF g [symmetric] refl q1(1) r] show ?case
    using "3.prems"(2) g r q1 by (metis (no_types, lifting) Pair_inject append.assoc append_take_drop_id case_prod_conv run.simps(3))
qed

end

interpretation rb: byte_queue ring_list ring_ok ringFitsLocked ringWrite ringRead
  by unfold_locales (simp_all add: ring_simps)

text \<open>C28 (refinement). The stream's ring is a bounded byte queue. Any interleaving of \<open>ringWrite\<close>
  (guarded by \<open>ringFitsLocked\<close>, as every caller does) and \<open>ringRead\<close>, through any number of
  wrap-arounds, delivers exactly the bytes written, in order, without loss or duplication, and keeps
  the ring's invariant.\<close>

theorem ring_refines_queue:
  assumes "ring_ok r" and "rb.run ops r = (written, got, r')"
  shows "ring_ok r' \<and> got @ ring_list r' = ring_list r @ written"
  using assms by (rule rb.run_fifo)

theorem ring_refines_queue_witness:
  "\<exists>r'. rb.run [Put [1, 2, 3], Get 2, Put [4, 5], Put [6, 7], Get 9]
        \<lparr>readBuf = [0, 0, 0, 0], readHead = 0, readTail = 0, readLen = 0\<rparr> = ([1, 2, 3, 4, 5], [1, 2, 3, 4, 5], r') \<and>
     ring_ok r' \<and> [1, 2, 3, 4, 5] @ ring_list r' = [1, 2, 3, 4, 5]"
proof -
  let ?r = "\<lparr>readBuf = [0, 0, 0, 0], readHead = 0, readTail = 0, readLen = 0\<rparr>"
  have ok: "ring_ok ?r" by (simp add: ring_ok_def)
  have run: "rb.run [Put [1, 2, 3], Get 2, Put [4, 5], Put [6, 7], Get 9] ?r
    = ([1, 2, 3, 4, 5], [1, 2, 3, 4, 5], \<lparr>readBuf = [5, 2, 3, 4], readHead = 1, readTail = 1, readLen = 0\<rparr>)"
    by (simp add: ringFitsLocked_def ringWrite_def ringRead_def copy_slice_def go_copy_def slice_def)
  from ring_refines_queue [OF ok run] show ?thesis
    using run by (auto simp: ring_list_def)
qed

text \<open>C34 (functional). Growing the ring copies the buffered bytes to the front of the larger buffer
  and loses nothing, wherever the old contents wrapped.\<close>

theorem realloc_preserves_contents:
  assumes "ring_ok r" and "readLen r \<le> newCap" and "0 < newCap"
  shows "ring_ok (reallocRingLocked newCap r) \<and> ring_list (reallocRingLocked newCap r) = ring_list r \<and>
    length (readBuf (reallocRingLocked newCap r)) = newCap"
  using reallocRing_props [OF assms] by blast

theorem realloc_preserves_contents_witness:
  "ring_ok (reallocRingLocked 6 \<lparr>readBuf = [8, 9, 6, 7], readHead = 2, readTail = 2, readLen = 4\<rparr>) \<and>
   ring_list (reallocRingLocked 6 \<lparr>readBuf = [8, 9, 6, 7], readHead = 2, readTail = 2, readLen = 4\<rparr>)
     = ring_list \<lparr>readBuf = [8, 9, 6, 7], readHead = 2, readTail = 2, readLen = 4\<rparr> \<and>
   length (readBuf (reallocRingLocked 6 \<lparr>readBuf = [8, 9, 6, 7], readHead = 2, readTail = 2, readLen = 4\<rparr>)) = 6"
  by (rule realloc_preserves_contents) (simp_all add: ring_ok_def)

end
