(* ===== verification/Stream.thy ===== *)
theory Stream
  imports Options Ring
begin

text \<open>
  The data of a stream (\<open>stream.go\<close>, \<open>errors.go\<close>): the errors of the package, the calls a stream
  makes on its connection, and the \<open>Stream\<close> struct. The struct is split along its two locks: the
  fields guarded by \<open>readMu\<close> are the record \<open>readSide\<close> (with the ring in the record of theory
  \<open>Ring\<close>), the fields guarded by \<open>writeMu\<close> the record \<open>writeSide\<close>.

  A stream operation that calls into the connection (\<open>s.conn.sendWindowUpdate\<close>, the statistics
  counters, \<open>readCond.Broadcast\<close>, ...) appends the call to the \<open>rcalls\<close> or \<open>wcalls\<close> of its side, in
  program order; none of the operations that do so looks at the result of the call.
\<close>

section \<open>Errors\<close>

datatype err =
    ErrClosed
  | ErrStreamClosed
  | ErrStreamFIN
  | ErrMaxStreams
  | ErrConnRefused
  | ErrHandshakeTimeout
  | ErrPayloadTooLarge
  | ErrStreamReset
  | EOF
  | errDeadlineExceeded
  | ErrContext
  | Errno nat
  | ErrFrame frame_error

section \<open>Calls on the connection\<close>

datatype connCall =
    CallWindowUpdate u32 u64
  | CallNackFrames u32 "u32 list"
  | CallStatReorder
  | CallStatFecRecovered
  | CallReadBroadcast
  | CallWriteBroadcast
  | CallControlFrame u8 u32 u32
  | CallReliableFrame u8 u32 u32 bytes
  | CallDataFrame u32 u32 bytes
  | CallFecFrame u8 u32 u32 nat nat bytes
  | CallPurgeStream u32
  | CallFlushSend

section \<open>The structs\<close>

record fecAccum =
  aXor :: bytes
  aFolded :: u32
  aLenXor :: u32
  aMaxLen :: nat

record fecPendingParity =
  pCount :: nat
  pXorLen :: nat
  pData :: bytes

record fecLane =
  lXor :: bytes
  lMaxLen :: nat
  lLenXor :: u32
  lCount :: nat
  lBase :: u32

record readSide =
  rid :: u32
  rring :: ring
  readSeq :: u32
  reorder :: "(u32, bytes) gomap"
  reorderBytes :: int
  ackPendingSeqs :: "u32 list"
  ackReplaySeqs :: "u32 list"
  finRecvd :: bool
  finSeq :: u32
  readErr :: "err option"
  readCanceled :: bool
  grantPending :: int
  peerOffset :: int
  gapSeq :: u32
  gapFirstSeenAt :: time
  lastNackAt :: time
  lastArrivalAt :: time
  maxSeenSeq :: u32
  createdAt :: time
  lastGrowAt :: time
  fecAcc :: "(u32, fecAccum) gomap"
  fecPending :: "(u32, fecPendingParity) gomap"
  fecAccRow :: "(u32, fecAccum) gomap"
  fecPendingRow :: "(u32, fecPendingParity) gomap"
  readDeadline :: time
  rcalls :: "connCall list"

record writeSide =
  wid :: u32
  writeSeq :: u32
  writeFIN :: bool
  writeErr :: "err option"
  maxSendOffset :: int
  sentOffset :: int
  ackedBytes :: int
  writeDeadline :: time
  fecLanes :: "fecLane list"
  fecRowLane :: fecLane
  wcalls :: "connCall list"

record Stream =
  sid :: u32
  rd :: readSide
  wr :: writeSide

definition zeroLane :: fecLane where
  "zeroLane = \<lparr>lXor = [], lMaxLen = 0, lLenXor = 0, lCount = 0, lBase = 0\<rparr>"

definition initialStreamWindow :: int where
  "initialStreamWindow = 256 * 1024"

definition initialWindow :: "config \<Rightarrow> int \<Rightarrow> int" where
  "initialWindow c bufSize =
     (let initial = (if bufSize < initialStreamWindow then bufSize else initialStreamWindow)
      in if initial < 2 * maxPayload c then 2 * maxPayload c else initial)"

definition newReadSide :: "u32 \<Rightarrow> config \<Rightarrow> int \<Rightarrow> time \<Rightarrow> readSide" where
  "newReadSide i c bufSize now =
     \<lparr>rid = i, rring = newRing (nat (initialWindow c bufSize)), readSeq = 0, reorder = [],
      reorderBytes = 0, ackPendingSeqs = [], ackReplaySeqs = [], finRecvd = False, finSeq = 0,
      readErr = None, readCanceled = False, grantPending = 0, peerOffset = initialWindow c bufSize,
      gapSeq = 0, gapFirstSeenAt = 0, lastNackAt = 0, lastArrivalAt = 0, maxSeenSeq = 0,
      createdAt = now, lastGrowAt = now, fecAcc = [], fecPending = [], fecAccRow = [],
      fecPendingRow = [], readDeadline = 0, rcalls = []\<rparr>"

definition newWriteSide :: "u32 \<Rightarrow> config \<Rightarrow> int \<Rightarrow> writeSide" where
  "newWriteSide i c bufSize =
     \<lparr>wid = i, writeSeq = 0, writeFIN = False, writeErr = None,
      maxSendOffset = initialWindow c bufSize, sentOffset = 0, ackedBytes = 0, writeDeadline = 0,
      fecLanes = [], fecRowLane = zeroLane, wcalls = []\<rparr>"

definition newStream :: "u32 \<Rightarrow> config \<Rightarrow> int \<Rightarrow> time \<Rightarrow> Stream" where
  "newStream i c bufSize now =
     \<lparr>sid = i, rd = newReadSide i c bufSize now, wr = newWriteSide i c bufSize\<rparr>"

definition maxBufSize :: "config \<Rightarrow> int" where
  "maxBufSize c = (if streamBufSize c < 2 * maxPayload c then 2 * maxPayload c else streamBufSize c)"

lemma initialWindow_bounds:
  "2 * maxPayload c \<le> initialWindow c (streamBufSize c)"
  "initialWindow c (streamBufSize c) \<le> maxBufSize c"
  by (auto simp: initialWindow_def maxBufSize_def Let_def)

section \<open>XOR\<close>

text \<open>\<open>xorInto\<close>; the source requires \<open>len(src) <= len(dst)\<close> and every caller checks it.\<close>

definition xorInto :: "bytes \<Rightarrow> bytes \<Rightarrow> bytes" where
  "xorInto dst src = map2 (XOR) (take (length src) dst) src @ drop (length src) dst"

text \<open>The group geometry of a sequence number: column group and row group, with the member index.\<close>

definition fecGroupOf :: "u32 \<Rightarrow> u32 \<Rightarrow> u32 \<times> nat" where
  "fecGroupOf g sq = (let span = g * g in (sq div span * span + sq mod g, unat (sq div g mod g)))"

definition fecRowOf :: "u32 \<Rightarrow> u32 \<Rightarrow> u32 \<times> nat" where
  "fecRowOf g sq = (sq div g * g, unat (sq mod g))"

end
