(* ===== verification/Recv.thy ===== *)
theory Recv
  imports Stream
begin

text \<open>
  The receive side of a stream (\<open>stream.go\<close>): reassembly of DATA frames through the reorder map into
  the ring, FEC reconstruction in both dimensions, gap detection and NACKs, flow-control grants,
  acknowledgement snapshots, and the operations the application and the connection call on the read
  side. Every definition is named after the method it translates; the whole body of each runs under
  \<open>readMu\<close>.

  \<open>recvEnv\<close> holds what a method reads from outside the stream: the configuration, the clock (one
  reading per call from outside), the connection's current RTO and reorder grace, and the stale
  contents of pooled buffers. The pool itself is not modelled: \<open>reorderGetLocked\<close> hands out a buffer
  with arbitrary contents.

  Recursion. \<open>deliverLocked\<close> retries pending parities, and a successful reconstruction delivers the
  rebuilt frame, which retries again. Each round takes one parity out of the pending maps, so the
  recursion is bounded by their size; that number is the fuel of \<open>fecRetryBaseLocked\<close>, and theory
  \<open>RecvFuel\<close> shows that it is enough.
\<close>

record recvEnv =
  ecfg :: config
  enow :: time
  erto :: duration
  egrace :: duration
  estale :: "nat \<Rightarrow> byte"

definition rampWindow :: duration where "rampWindow = 3 * Second"
definition rampIntervalFraction :: int where "rampIntervalFraction = 4"
definition maxNackSeqsPerFire :: nat where "maxNackSeqsPerFire = 1024"
definition fecPendingCap :: nat where "fecPendingCap = 64"

definition rcall :: "connCall \<Rightarrow> readSide \<Rightarrow> readSide" where
  "rcall c s = s\<lparr>rcalls := rcalls s @ [c]\<rparr>"

definition grp :: "recvEnv \<Rightarrow> u32" where
  "grp e = word_of_int (fecGroup (ecfg e))"

section \<open>Grants and ring growth\<close>

definition grantLocked :: "int \<Rightarrow> readSide \<Rightarrow> readSide" where
  "grantLocked delta s =
     (if delta \<le> 0 then s
      else let off = peerOffset s + delta
           in rcall (CallWindowUpdate (rid s) (u64_of_int64 off)) (s\<lparr>peerOffset := off\<rparr>))"

definition growLocked :: "recvEnv \<Rightarrow> nat \<Rightarrow> readSide \<Rightarrow> bool \<times> readSide" where
  "growLocked e need s =
     (let oldCap = length (readBuf (rring s));
          newCap0 = growCap oldCap (readLen (rring s) + need);
          mx = nat (maxBufSize (ecfg e));
          newCap = (if mx < newCap0 then mx else newCap0) in
      if newCap \<le> oldCap \<or> newCap < readLen (rring s) + need then (False, s)
      else (True, grantLocked (int newCap - int oldCap) (s\<lparr>rring := reallocRingLocked newCap (rring s)\<rparr>)))"

definition maybeGrowLocked :: "recvEnv \<Rightarrow> readSide \<Rightarrow> readSide" where
  "maybeGrowLocked e s =
     (let oldCap = length (readBuf (rring s)); mx = nat (maxBufSize (ecfg e)) in
      if mx \<le> oldCap then s
      else
        let occupied = oldCap \<le> readLen (rring s) * 2;
            ramping = time_sub (enow e) (createdAt s) < rampWindow \<and>
                      erto e sdiv rampIntervalFraction \<le> time_sub (enow e) (lastGrowAt s) in
        if \<not> occupied \<and> \<not> ramping then s
        else
          let newCap0 = oldCap * 2; newCap = (if mx < newCap0 then mx else newCap0)
          in grantLocked (int newCap - int oldCap)
               (s\<lparr>lastGrowAt := enow e, rring := reallocRingLocked newCap (rring s)\<rparr>))"

definition reorderGetLocked :: "recvEnv \<Rightarrow> nat \<Rightarrow> bytes" where
  "reorderGetLocked e n = map (estale e) [0..<n]"

section \<open>FEC accumulators\<close>

definition fecFoldAccLocked ::
  "recvEnv \<Rightarrow> (u32, fecAccum) gomap \<Rightarrow> u32 \<Rightarrow> nat \<Rightarrow> bytes \<Rightarrow> (u32, fecAccum) gomap" where
  "fecFoldAccLocked e accs base idx data =
     (case mget accs base of
        None \<Rightarrow>
          let buf0 = reorderGetLocked e (nat (dataCap (ecfg e)));
              n = min (length buf0) (length data);
              buf = take n (go_copy buf0 0 data) @ replicate (length buf0 - n) 0
          in mput base \<lparr>aXor = buf, aFolded = push_bit idx 1, aLenXor = of_nat (length data),
                        aMaxLen = length data\<rparr> accs
      | Some acc \<Rightarrow>
          if aFolded acc AND push_bit idx 1 \<noteq> 0 \<or> length (aXor acc) < length data then accs
          else mput base
                 (acc\<lparr>aFolded := aFolded acc OR push_bit idx 1, aXor := xorInto (aXor acc) data,
                      aLenXor := aLenXor acc XOR of_nat (length data),
                      aMaxLen := (if aMaxLen acc < length data then length data else aMaxLen acc)\<rparr>) accs)"

definition fecSweepLocked :: "recvEnv \<Rightarrow> readSide \<Rightarrow> readSide" where
  "fecSweepLocked e s =
     (let g = grp e;
          span = g * g;
          s1 = (if 2 * nat (fecGroup (ecfg e)) < length (fecAcc s)
                then s\<lparr>fecAcc := filter (\<lambda>(base, acc). \<not> base + span - g < readSeq s) (fecAcc s)\<rparr> else s)
      in if 2 * nat (fecGroup (ecfg e)) < length (fecAccRow s1)
         then s1\<lparr>fecAccRow := filter (\<lambda>(base, acc). \<not> base + g - 1 < readSeq s1) (fecAccRow s1)\<rparr> else s1)"

definition fecFoldRecvLocked :: "recvEnv \<Rightarrow> u32 \<Rightarrow> bytes \<Rightarrow> readSide \<Rightarrow> readSide" where
  "fecFoldRecvLocked e sq data s =
     (if dataCap (ecfg e) < int (length data) then s
      else
        let (base, idx) = fecGroupOf (grp e) sq;
            s1 = s\<lparr>fecAcc := fecFoldAccLocked e (fecAcc s) base idx data\<rparr>;
            s2 = (if fec2D (ecfg e)
                  then let (rowBase, rowIdx) = fecRowOf (grp e) sq
                       in s1\<lparr>fecAccRow := fecFoldAccLocked e (fecAccRow s1) rowBase rowIdx data\<rparr>
                  else s1)
        in fecSweepLocked e s2)"

section \<open>Delivery into the ring\<close>

definition maybeEOFLocked :: "readSide \<Rightarrow> readSide" where
  "maybeEOFLocked s =
     (if finRecvd s \<and> finSeq s \<le> readSeq s \<and> readErr s = None
      then rcall CallReadBroadcast (s\<lparr>readErr := Some EOF\<rparr>) else s)"

text \<open>Room for \<open>n\<close> bytes: \<open>ringFitsLocked(n) || growLocked(n)\<close>.\<close>

definition fitOrGrow :: "recvEnv \<Rightarrow> nat \<Rightarrow> readSide \<Rightarrow> bool \<times> readSide" where
  "fitOrGrow e n s = (if ringFitsLocked (rring s) n then (True, s) else growLocked e n s)"

definition drainOne :: "recvEnv \<Rightarrow> bytes \<Rightarrow> readSide \<Rightarrow> readSide" where
  "drainOne e data s =
     (let s1 = s\<lparr>rring := ringWrite data (rring s), reorder := mdel (readSeq s) (reorder s),
                 reorderBytes := reorderBytes s - int (length data)\<rparr>;
          s2 = (if 0 < fecGroup (ecfg e) then fecFoldRecvLocked e (readSeq s1) data s1 else s1)
      in rcall CallReadBroadcast (s2\<lparr>readSeq := readSeq s2 + 1\<rparr>))"

lemma grantLocked_reorder [simp]: "reorder (grantLocked d s) = reorder s"
  by (simp add: grantLocked_def rcall_def Let_def)

lemma fitOrGrow_reorder [simp]: "reorder (snd (fitOrGrow e n s)) = reorder s"
  by (simp add: fitOrGrow_def growLocked_def Let_def)

lemma fecFoldRecv_reorder [simp]: "reorder (fecFoldRecvLocked e sq d s) = reorder s"
  by (simp add: fecFoldRecvLocked_def fecSweepLocked_def Let_def split: prod.splits)

lemma fitOrGrow_readSeq [simp]: "readSeq (snd (fitOrGrow e n s)) = readSeq s"
  by (simp add: fitOrGrow_def growLocked_def grantLocked_def rcall_def Let_def)

lemma length_mdel_less: "mget m k = Some v \<Longrightarrow> length (mdel k m) < length m"
proof -
  assume "mget m k = Some v"
  then have "(k, v) \<in> set m" by (rule mget_SomeD)
  then show ?thesis
    by (auto simp: mdel_def AList.delete_eq intro!: length_filter_less)
qed

function drainReorderLocked :: "recvEnv \<Rightarrow> readSide \<Rightarrow> readSide" where
  "drainReorderLocked e s =
     (case mget (reorder s) (readSeq s) of
        None \<Rightarrow> s
      | Some data \<Rightarrow>
          let (fits, s1) = fitOrGrow e (length data) s in
          if fits then drainReorderLocked e (drainOne e data s1) else s1)"
  by pat_completeness auto
termination
proof (relation "measure (\<lambda>(e, s). length (reorder s))", goal_cases)
  case 1
  show ?case by simp
next
  case (2 e s data p fits s1)
  have "reorder s1 = reorder s" "readSeq s1 = readSeq s"
    using 2 fitOrGrow_reorder [of e "length data" s] fitOrGrow_readSeq [of e "length data" s]
    by (metis snd_conv)+
  then have "length (mdel (readSeq s1) (reorder s1)) < length (reorder s)"
    using length_mdel_less [OF 2(1)] by simp
  then show ?case
    by (simp add: drainOne_def rcall_def Let_def)
qed

declare drainReorderLocked.simps [simp del]

section \<open>Gap detection\<close>

text \<open>
  The gap scan visits \<open>readSeq .. hi\<close>; its fuel is the number of those sequence numbers. (With
  \<open>hi = 0xFFFFFFFF\<close> the source's \<open>seq <= hi\<close> never fails and the scan would wrap around; the model
  stops at \<open>hi\<close>.)
\<close>

fun gapScan :: "nat \<Rightarrow> u32 \<Rightarrow> u32 \<Rightarrow> (u32, bytes) gomap \<Rightarrow> u32 list \<Rightarrow> u32 list" where
  "gapScan 0 sq hi ro gaps = gaps"
| "gapScan (Suc k) sq hi ro gaps =
     (if sq \<le> hi \<and> length gaps < maxNackSeqsPerFire
      then gapScan k (sq + 1) hi ro (if mget ro sq = None then gaps @ [sq] else gaps)
      else gaps)"

definition nackHi :: "readSide \<Rightarrow> u32" where
  "nackHi s = (if finRecvd s \<and> 0 < finSeq s \<and> maxSeenSeq s < finSeq s - 1 then finSeq s - 1
               else maxSeenSeq s)"

definition nackGaps :: "readSide \<Rightarrow> u32 list" where
  "nackGaps s =
     (let hi = nackHi s
      in gapScan (if readSeq s \<le> hi then Suc (unat (hi - readSeq s)) else 0) (readSeq s) hi (reorder s) [])"

definition fireNackLocked :: "readSide \<Rightarrow> readSide" where
  "fireNackLocked s =
     (let gaps = nackGaps s in if gaps \<noteq> [] then rcall (CallNackFrames (rid s) gaps) s else s)"

definition maybeFastRetransmitLocked :: "recvEnv \<Rightarrow> readSide \<Rightarrow> readSide" where
  "maybeFastRetransmitLocked e s0 =
     (let now = enow e; s = s0\<lparr>lastArrivalAt := now\<rparr>; grace = egrace e in
      if readSeq s \<noteq> gapSeq s then s\<lparr>gapSeq := readSeq s, gapFirstSeenAt := now\<rparr>
      else if time_sub now (gapFirstSeenAt s) < grace \<or> time_sub now (lastNackAt s) < grace then s
      else fireNackLocked (s\<lparr>lastNackAt := now\<rparr>))"

definition maybeTailNack :: "recvEnv \<Rightarrow> readSide \<Rightarrow> readSide" where
  "maybeTailNack e s =
     (let now = enow e in
      if readErr s \<noteq> None \<or> readCanceled s then s
      else if \<not> (reorder s \<noteq> [] \<or> finRecvd s \<and> readSeq s < finSeq s) \<or> lastArrivalAt s = 0 then s
      else if time_sub now (lastArrivalAt s) < egrace e \<or> time_sub now (lastNackAt s) < egrace e then s
      else fireNackLocked (s\<lparr>lastNackAt := now\<rparr>))"

section \<open>Reconstruction\<close>

datatype fecOutcome = fecUseless | fecRecovered | fecPendingMembers

text \<open>
  The first loop of \<open>tryReconstructLocked\<close>: \<open>Inl\<close> is an early return, \<open>Inr\<close> the missing index found,
  if any.
\<close>

fun scanMembers ::
  "readSide \<Rightarrow> u32 \<Rightarrow> u32 \<Rightarrow> u32 \<Rightarrow> nat list \<Rightarrow> nat option \<Rightarrow> fecOutcome + nat option" where
  "scanMembers s folded base stride [] missing = Inr missing"
| "scanMembers s folded base stride (i # is) missing =
     (if folded AND push_bit i 1 \<noteq> 0 then scanMembers s folded base stride is missing
      else
        let sq = base + of_nat i * stride in
        if mget (reorder s) sq \<noteq> None then scanMembers s folded base stride is missing
        else if sq < readSeq s then Inl fecUseless
        else if missing \<noteq> None then Inl fecPendingMembers
        else scanMembers s folded base stride is (Some i))"

text \<open>The second loop: XOR the buffered members in; \<open>None\<close> when one outsizes the parity.\<close>

fun xorMembers ::
  "readSide \<Rightarrow> u32 \<Rightarrow> u32 \<Rightarrow> u32 \<Rightarrow> nat \<Rightarrow> nat list \<Rightarrow> bytes \<times> u32 \<Rightarrow> (bytes \<times> u32) option" where
  "xorMembers s folded base stride missing [] (buf, len) = Some (buf, len)"
| "xorMembers s folded base stride missing (i # is) (buf, len) =
     (if folded AND push_bit i 1 \<noteq> 0 \<or> i = missing then xorMembers s folded base stride missing is (buf, len)
      else
        let data = (case mget (reorder s) (base + of_nat i * stride) of None \<Rightarrow> [] | Some d \<Rightarrow> d) in
        if length buf < length data then None
        else xorMembers s folded base stride missing is
               (xorInto buf data, len XOR of_nat (length data)))"

definition tryReconstructLocked ::
  "recvEnv \<Rightarrow> (readSide \<Rightarrow> u32 \<Rightarrow> bytes \<Rightarrow> readSide) \<Rightarrow> bool \<Rightarrow> u32 \<Rightarrow> nat \<Rightarrow> nat \<Rightarrow> bytes \<Rightarrow> readSide
     \<Rightarrow> fecOutcome \<times> readSide" where
  "tryReconstructLocked e dlv row base count xorLen xorData s =
     (let stride = (if row then 1 else grp e);
          accs = (if row then fecAccRow s else fecAcc s) in
      if base + (of_nat count - 1) * stride < readSeq s then (fecUseless, s)
      else
        let acc = mget accs base;
            folded = (case acc of None \<Rightarrow> 0 | Some a \<Rightarrow> aFolded a) in
        if (case acc of None \<Rightarrow> False | Some a \<Rightarrow> length xorData < aMaxLen a) then (fecUseless, s)
        else case scanMembers s folded base stride [0..<count] None of
          Inl out \<Rightarrow> (out, s)
        | Inr None \<Rightarrow> (fecUseless, s)
        | Inr (Some missing) \<Rightarrow>
            let buf0 = go_copy (reorderGetLocked e (length xorData)) 0 xorData;
                (buf, len) = (case acc of None \<Rightarrow> (buf0, of_nat xorLen)
                              | Some a \<Rightarrow> (xorInto buf0 (take (aMaxLen a) (aXor a)), of_nat xorLen XOR aLenXor a)) in
            case xorMembers s folded base stride missing [0..<count] (buf, len) of
              None \<Rightarrow> (fecUseless, s)
            | Some (buf', len') \<Rightarrow>
                if len' = 0 \<or> length xorData < unat len' then (fecUseless, s)
                else (fecRecovered, dlv s (base + of_nat missing * stride) (take (unat len') buf')))"

section \<open>Delivery\<close>

text \<open>
  The body of \<open>deliverLocked\<close>, in the order of the source: \<open>markArrival\<close> is its first statement,
  \<open>discardDelivery\<close> the branch of a finished read side, \<open>deliverData\<close> what follows the FIN branch.
\<close>

definition markArrival :: "recvEnv \<Rightarrow> readSide \<Rightarrow> readSide" where
  "markArrival e s = (if reorder s \<noteq> [] \<or> finRecvd s then s\<lparr>lastArrivalAt := enow e\<rparr> else s)"

definition discardDelivery :: "u32 \<Rightarrow> bytes \<Rightarrow> readSide \<Rightarrow> readSide" where
  "discardDelivery sq pl s =
     (let s1 = (if pl \<noteq> [] then grantLocked (int (length pl)) s else s)
      in if readSeq s1 \<le> sq then s1\<lparr>readSeq := sq + 1\<rparr> else s1)"

definition noteSeen :: "u32 \<Rightarrow> readSide \<Rightarrow> readSide" where
  "noteSeen sq s = (if maxSeenSeq s < sq then s\<lparr>maxSeenSeq := sq\<rparr> else s)"

definition bufferAhead ::
  "recvEnv \<Rightarrow> (u32 \<Rightarrow> readSide \<Rightarrow> readSide) \<Rightarrow> u32 \<Rightarrow> bytes \<Rightarrow> readSide \<Rightarrow> bool \<times> readSide" where
  "bufferAhead e retry sq pl s =
     (if maxBufSize (ecfg e) < reorderBytes s + int (length pl) then (False, s)
      else
        let cp = go_copy (reorderGetLocked e (length pl)) 0 pl;
            s1 = s\<lparr>reorder := mput sq cp (reorder s), reorderBytes := reorderBytes s + int (length pl)\<rparr>;
            s2 = maybeFastRetransmitLocked e (rcall CallStatReorder s1)
        in (True, if 0 < fecGroup (ecfg e) then retry sq s2 else s2))"

definition acceptNext ::
  "recvEnv \<Rightarrow> (u32 \<Rightarrow> readSide \<Rightarrow> readSide) \<Rightarrow> u32 \<Rightarrow> bytes \<Rightarrow> readSide \<Rightarrow> bool \<times> readSide" where
  "acceptNext e retry sq pl s =
     (let (fits, s1) = fitOrGrow e (length pl) s in
      if \<not> fits then (False, s1)
      else
        let s2 = (if 0 < fecGroup (ecfg e) then fecFoldRecvLocked e sq pl s1 else s1);
            s3 = s2\<lparr>rring := ringWrite pl (rring s2), readSeq := readSeq s2 + 1\<rparr>;
            s4 = drainReorderLocked e s3;
            s5 = maybeGrowLocked e s4;
            s6 = rcall CallReadBroadcast (maybeEOFLocked s5)
        in (True, if 0 < fecGroup (ecfg e) then retry sq s6 else s6))"

definition deliverData ::
  "recvEnv \<Rightarrow> (u32 \<Rightarrow> readSide \<Rightarrow> readSide) \<Rightarrow> u32 \<Rightarrow> bytes \<Rightarrow> readSide \<Rightarrow> bool \<times> readSide" where
  "deliverData e retry sq pl s0 =
     (let s = noteSeen sq s0 in
      if sq < readSeq s then (True, s)
      else if mget (reorder s) sq \<noteq> None then (True, s)
      else if readSeq s < sq then bufferAhead e retry sq pl s
      else acceptNext e retry sq pl s)"

definition deliverBody ::
  "recvEnv \<Rightarrow> (u32 \<Rightarrow> readSide \<Rightarrow> readSide) \<Rightarrow> readSide \<Rightarrow> u32 \<Rightarrow> bytes \<Rightarrow> bool \<Rightarrow> bool \<times> readSide" where
  "deliverBody e retry s0 sq pl isFin =
     (let s = markArrival e s0 in
      if readCanceled s \<or> readErr s \<noteq> None then (True, discardDelivery sq pl s)
      else if isFin then
        (if sq < readSeq s then (True, s)
         else (True, maybeEOFLocked (s\<lparr>finRecvd := True, finSeq := sq\<rparr>)))
      else deliverData e retry sq pl s)"

text \<open>The deferred function of \<open>deliverLocked\<close>: queue a selective ACK for what is still ahead.\<close>

definition deliverWith ::
  "recvEnv \<Rightarrow> (u32 \<Rightarrow> readSide \<Rightarrow> readSide) \<Rightarrow> readSide \<Rightarrow> u32 \<Rightarrow> bytes \<Rightarrow> bool \<Rightarrow> bool \<times> readSide" where
  "deliverWith e retry s sq pl isFin =
     (let (ack, s') = deliverBody e retry s sq pl isFin in
      (ack, if ack \<and> \<not> isFin \<and> readSeq s' \<le> sq
            then s'\<lparr>ackPendingSeqs := ackPendingSeqs s' @ [sq]\<rparr> else s'))"

definition fecRetrySeqLocked ::
  "recvEnv \<Rightarrow> (bool \<Rightarrow> u32 \<Rightarrow> readSide \<Rightarrow> readSide) \<Rightarrow> u32 \<Rightarrow> readSide \<Rightarrow> readSide" where
  "fecRetrySeqLocked e retryBase sq s =
     (let s1 = retryBase False (fst (fecGroupOf (grp e) sq)) s in
      if fec2D (ecfg e) then retryBase True (fst (fecRowOf (grp e) sq)) s1 else s1)"

definition pendingOf :: "bool \<Rightarrow> readSide \<Rightarrow> (u32, fecPendingParity) gomap" where
  "pendingOf row s = (if row then fecPendingRow s else fecPending s)"

definition setPending :: "bool \<Rightarrow> (u32, fecPendingParity) gomap \<Rightarrow> readSide \<Rightarrow> readSide" where
  "setPending row m s = (if row then s\<lparr>fecPendingRow := m\<rparr> else s\<lparr>fecPending := m\<rparr>)"

fun fecRetryBaseLocked :: "recvEnv \<Rightarrow> nat \<Rightarrow> bool \<Rightarrow> u32 \<Rightarrow> readSide \<Rightarrow> readSide" where
  "fecRetryBaseLocked e 0 row base s = s"
| "fecRetryBaseLocked e (Suc k) row base s =
     (case mget (pendingOf row s) base of
        None \<Rightarrow> s
      | Some p \<Rightarrow>
          let s1 = setPending row (mdel base (pendingOf row s)) s;
              dlv = (\<lambda>s sq d. snd (deliverWith e (fecRetrySeqLocked e (fecRetryBaseLocked e k)) s sq d False))
          in case tryReconstructLocked e dlv row base (pCount p) (pXorLen p) (pData p) s1 of
               (fecPendingMembers, s2) \<Rightarrow> setPending row (mput base p (pendingOf row s2)) s2
             | (fecRecovered, s2) \<Rightarrow> rcall CallStatFecRecovered s2
             | (fecUseless, s2) \<Rightarrow> s2)"

definition pendings :: "readSide \<Rightarrow> nat" where
  "pendings s = length (fecPending s) + length (fecPendingRow s)"

definition deliverLocked :: "recvEnv \<Rightarrow> readSide \<Rightarrow> u32 \<Rightarrow> bytes \<Rightarrow> bool \<Rightarrow> bool \<times> readSide" where
  "deliverLocked e s sq pl isFin =
     deliverWith e (fecRetrySeqLocked e (fecRetryBaseLocked e (pendings s))) s sq pl isFin"

text \<open>Evicting the oldest group from a full pending map.\<close>

definition evictOldest :: "(u32, fecPendingParity) gomap \<Rightarrow> (u32, fecPendingParity) gomap" where
  "evictOldest m = mdel (foldr min (mkeys m) (NOT 0)) m"

definition applyFec ::
  "recvEnv \<Rightarrow> bool \<Rightarrow> u32 \<Rightarrow> nat \<Rightarrow> nat \<Rightarrow> bytes \<Rightarrow> readSide \<Rightarrow> bool \<times> readSide" where
  "applyFec e row base count xorLen xorData s =
     (if readCanceled s \<or> readErr s \<noteq> None then (False, s)
      else if (if row then base mod grp e \<noteq> 0 else grp e \<le> base mod (grp e * grp e)) then (False, s)
      else
        case tryReconstructLocked e (\<lambda>s sq d. snd (deliverLocked e s sq d False)) row base count xorLen xorData s of
          (fecRecovered, s1) \<Rightarrow> (True, s1)
        | (fecPendingMembers, s1) \<Rightarrow>
            let pending = pendingOf row s1;
                pending' = (if mget pending base \<noteq> None then pending
                            else if fecPendingCap \<le> length pending then evictOldest pending else pending);
                cp = go_copy (reorderGetLocked e (length xorData)) 0 xorData
            in (False, setPending row (mput base \<lparr>pCount = count, pXorLen = xorLen, pData = cp\<rparr> pending') s1)
        | (fecUseless, s1) \<Rightarrow> (False, s1))"

section \<open>Application and connection entry points\<close>

datatype 'a blocking = Blocks | Returns 'a

text \<open>
  \<open>Read\<close>: one pass of the waiting loop, then the drain and the return of credit (\<open>returnCredit\<close>). \<open>Blocks\<close> is \<open>readCond.Wait()\<close>: the call
  resumes from the state some later operation leaves behind.
\<close>

definition returnCredit :: "nat \<Rightarrow> readSide \<Rightarrow> readSide" where
  "returnCredit n s0 =
     (let s = s0\<lparr>grantPending := grantPending s0 + int n\<rparr> in
      if int (length (readBuf (rring s)) div 4) \<le> grantPending s
      then grantLocked (grantPending s) (s\<lparr>grantPending := 0\<rparr>) else s)"

definition Read :: "recvEnv \<Rightarrow> nat \<Rightarrow> readSide \<Rightarrow> (bytes \<times> err option) blocking \<times> readSide" where
  "Read e want s =
     (if readLen (rring s) = 0 then
        (case readErr s of
           Some er \<Rightarrow> (Returns ([], Some er), s)
         | None \<Rightarrow>
             if readDeadline s \<noteq> 0 \<and> \<not> enow e < readDeadline s
             then (Returns ([], Some errDeadlineExceeded), s) else (Blocks, s))
      else
        let (out, r) = ringRead want (rring s)
        in (Returns (out, None),
            returnCredit (length out) (maybeEOFLocked (drainReorderLocked e (s\<lparr>rring := r\<rparr>)))))"

definition discardReadStateLocked :: "readSide \<Rightarrow> readSide" where
  "discardReadStateLocked s =
     s\<lparr>rring := (rring s)\<lparr>readHead := 0, readTail := 0, readLen := 0\<rparr>, reorder := [], reorderBytes := 0,
       ackPendingSeqs := [], ackReplaySeqs := [], fecAcc := [], fecPending := [], fecAccRow := [],
       fecPendingRow := []\<rparr>"

definition CancelRead :: "u64 \<Rightarrow> readSide \<Rightarrow> readSide" where
  "CancelRead code s =
     (if readCanceled s then s
      else
        let s1 = s\<lparr>readCanceled := True,
                   readErr := (if readErr s = None then Some ErrStreamReset else readErr s)\<rparr>
        in rcall (CallControlFrame frameStopSending (rid s) (ucast code))
             (rcall CallReadBroadcast (discardReadStateLocked s1)))"

definition deliverReset :: "u64 \<Rightarrow> readSide \<Rightarrow> readSide" where
  "deliverReset code s =
     rcall CallReadBroadcast (discardReadStateLocked
       (s\<lparr>readErr := (if readErr s = None then Some ErrStreamReset else readErr s)\<rparr>))"

text \<open>The read half of \<open>deliverFIN\<close>, \<open>deliverClose\<close> and \<open>deliverError\<close>: a sticky error.\<close>

definition stickyRead :: "err \<Rightarrow> readSide \<Rightarrow> readSide" where
  "stickyRead er s =
     rcall CallReadBroadcast (s\<lparr>readErr := (if readErr s = None then Some er else readErr s)\<rparr>)"

definition deliverFIN :: "readSide \<Rightarrow> readSide" where
  "deliverFIN s = stickyRead EOF s"

definition SetReadDeadline :: "time \<Rightarrow> readSide \<Rightarrow> readSide" where
  "SetReadDeadline t s = rcall CallReadBroadcast (s\<lparr>readDeadline := t\<rparr>)"

definition ackSnapshot :: "readSide \<Rightarrow> (u32 \<times> u32 list \<times> int) \<times> readSide" where
  "ackSnapshot s =
     (let cum = readSeq s;
          seqs = (if finRecvd s \<and> cum \<le> finSeq s then [finSeq s] else [])
                 @ filter (\<lambda>sq. cum \<le> sq) (ackReplaySeqs s)
                 @ filter (\<lambda>sq. cum \<le> sq) (ackPendingSeqs s)
      in ((cum, seqs, peerOffset s), s\<lparr>ackReplaySeqs := ackPendingSeqs s, ackPendingSeqs := []\<rparr>))"

end
