(* ===== verification/Fec.thy ===== *)
theory Fec
  imports Recv
begin

text \<open>
  The algebra behind forward error correction. XOR over a finite index set is the commutative-monoid
  sum \<open>xorsum\<close>; a parity is genuine for a list of chunks when it is the XOR of the members of one group,
  each padded with zeros, together with the XOR of their lengths. The central lemma is that the parity,
  the XOR of some members and the remaining members but one add up to exactly the missing member, bytes
  and length.
\<close>

section \<open>XOR over index sets\<close>

interpretation xorsum: comm_monoid_set "(XOR)" "0 :: 'a::len word"
  by unfold_locales (simp_all add: xor.assoc xor.commute)

lemma xor_cancel [simp]: "(a :: 'a::len word) XOR (a XOR b) = b"
  by (simp add: xor.assoc [symmetric])

lemma xor_cancel_right: "(a :: 'a::len word) XOR b XOR b = a"
  by (simp add: xor.assoc)

lemma xorsum_split:
  "finite A \<Longrightarrow> B \<subseteq> A \<Longrightarrow> (xorsum.F f A :: 'a::len word) = xorsum.F f B XOR xorsum.F f (A - B)"
  using xorsum.subset_diff [of B A f] by (simp add: xor.commute)

text \<open>What is left of a full group after taking out the members at hand.\<close>

lemma xorsum_missing:
  assumes "finite A" "A = insert m (B \<union> C)" "B \<inter> C = {}" "m \<notin> B" "m \<notin> C"
  shows "(xorsum.F f A :: 'a::len word) XOR xorsum.F f B XOR xorsum.F f C = f m"
proof -
  have fin: "finite B" "finite C" using assms by auto
  have "xorsum.F f A = f m XOR (xorsum.F f B XOR xorsum.F f C)"
    using assms fin by (simp add: xorsum.union_disjoint)
  then show ?thesis
    by (simp add: xor.assoc xor.left_commute)
qed

lemma xorsum_lessThan_Suc: "(xorsum.F f {..<Suc n} :: 'a::len word) = xorsum.F f {..<n} XOR f n"
  by (simp add: lessThan_Suc xor.commute)

section \<open>Padded bytes\<close>

definition byte_at :: "bytes \<Rightarrow> nat \<Rightarrow> byte" where
  "byte_at d j = (if j < length d then d ! j else 0)"

lemma byte_at_append: "byte_at (xs @ ys) j = (if j < length xs then xs ! j else byte_at ys (j - length xs))"
  by (auto simp: byte_at_def nth_append)

lemma length_xorInto [simp]: "length src \<le> length dst \<Longrightarrow> length (xorInto dst src) = length dst"
  by (simp add: xorInto_def)

lemma nth_xorInto:
  "length src \<le> length dst \<Longrightarrow> j < length dst \<Longrightarrow> xorInto dst src ! j = dst ! j XOR byte_at src j"
  by (simp add: xorInto_def nth_append byte_at_def)

lemma byte_at_xorInto:
  "length src \<le> length dst \<Longrightarrow> byte_at (xorInto dst src) j = byte_at dst j XOR byte_at src j"
  using nth_xorInto [of src dst j] by (cases "j < length dst") (auto simp: byte_at_def)

lemma byte_at_take: "byte_at (take n d) j = (if j < n then byte_at d j else 0)"
  by (simp add: byte_at_def)

lemma byte_at_replicate [simp]: "byte_at (replicate n 0) j = 0"
  by (simp add: byte_at_def)

lemma bytes_eqI: "length a = length b \<Longrightarrow> (\<And>j. byte_at a j = byte_at b j) \<Longrightarrow> a = b"
  by (rule nth_equalityI) (auto simp: byte_at_def, metis)

section \<open>Groups\<close>

text \<open>
  Member \<open>i\<close> of the group based at \<open>b\<close> is chunk \<open>b + i * stride\<close>. \<open>msum_byte\<close> and \<open>msum_len\<close> are the XOR
  of the padded bytes and of the lengths of a set of members.
\<close>

definition member :: "bytes list \<Rightarrow> nat \<Rightarrow> nat \<Rightarrow> nat \<Rightarrow> bytes" where
  "member cs stride b i = cs ! (b + i * stride)"

definition msum_byte :: "bytes list \<Rightarrow> nat \<Rightarrow> nat \<Rightarrow> nat set \<Rightarrow> nat \<Rightarrow> byte" where
  "msum_byte cs stride b I j = xorsum.F (\<lambda>i. byte_at (member cs stride b i) j) I"

definition msum_len :: "bytes list \<Rightarrow> nat \<Rightarrow> nat \<Rightarrow> nat set \<Rightarrow> u32" where
  "msum_len cs stride b I = xorsum.F (\<lambda>i. of_nat (length (member cs stride b i))) I"

lemma msum_empty [simp]: "msum_byte cs st b {} j = 0" "msum_len cs st b {} = 0"
  by (simp_all add: msum_byte_def msum_len_def)

lemma msum_insert:
  "finite I \<Longrightarrow> i \<notin> I \<Longrightarrow> msum_byte cs st b (insert i I) j = msum_byte cs st b I j XOR byte_at (member cs st b i) j"
  "finite I \<Longrightarrow> i \<notin> I \<Longrightarrow> msum_len cs st b (insert i I) = msum_len cs st b I XOR of_nat (length (member cs st b i))"
  by (simp_all add: msum_byte_def msum_len_def xor.commute)

text \<open>
  A genuine parity of group size \<open>g\<close>: it covers members \<open>0 ..< count\<close>, a short count means that the
  chunks end there, and data and length are the XOR of the members.
\<close>

definition genuine ::
  "nat \<Rightarrow> bytes list \<Rightarrow> nat \<Rightarrow> nat \<Rightarrow> nat \<Rightarrow> nat \<Rightarrow> bytes \<Rightarrow> bool" where
  "genuine g cs stride b count xorLen xorData \<longleftrightarrow>
     0 < count \<and> count \<le> g \<and> b + (count - 1) * stride < length cs \<and>
     (count = g \<or> length cs \<le> b + count * stride) \<and>
     (\<forall>i<count. length (member cs stride b i) \<le> length xorData) \<and>
     (\<forall>j<length xorData. xorData ! j = msum_byte cs stride b {..<count} j) \<and>
     of_nat xorLen = msum_len cs stride b {..<count}"

lemma genuine_member:
  "genuine g cs st b count xl xd \<Longrightarrow> i < count \<Longrightarrow> b + i * st < length cs"
proof -
  assume "genuine g cs st b count xl xd" "i < count"
  then have "b + (count - 1) * st < length cs" and "i * st \<le> (count - 1) * st"
    by (auto simp: genuine_def)
  then show ?thesis by linarith
qed

lemma genuine_byte:
  assumes "genuine g cs st b count xl xd"
  shows "byte_at xd j = msum_byte cs st b {..<count} j"
proof (cases "j < length xd")
  case True
  then show ?thesis using assms by (simp add: genuine_def byte_at_def)
next
  case False
  have "byte_at (member cs st b i) j = 0" if "i < count" for i
  proof -
    have "length (member cs st b i) \<le> length xd" using assms that by (simp add: genuine_def)
    then show ?thesis using False by (simp add: byte_at_def)
  qed
  then have "msum_byte cs st b {..<count} j = 0"
    unfolding msum_byte_def by (intro xorsum.neutral) simp
  then show ?thesis using False by (simp add: byte_at_def)
qed

lemma genuine_folded_inside:
  assumes "genuine g cs st b count xl xd" and "i < g" and "b + i * st < length cs" and "0 < st"
  shows "i < count"
proof (rule ccontr)
  assume "\<not> i < count"
  then have "count * st \<le> i * st" and "count \<noteq> g" using assms by auto
  moreover have "length cs \<le> b + count * st"
    using assms(1) \<open>count \<noteq> g\<close> by (auto simp: genuine_def)
  ultimately show False using assms(3) by linarith
qed

text \<open>The missing member, once the parity has absorbed all others.\<close>

lemma missing_member:
  assumes "{..<count} = insert m (B \<union> C)" "B \<inter> C = {}" "m \<notin> B" "m \<notin> C"
  shows "msum_byte cs st b {..<count} j XOR msum_byte cs st b B j XOR msum_byte cs st b C j
      = byte_at (member cs st b m) j"
    and "msum_len cs st b {..<count} XOR msum_len cs st b B XOR msum_len cs st b C
      = of_nat (length (member cs st b m))"
  unfolding msum_byte_def msum_len_def
  by (rule xorsum_missing [OF finite_lessThan assms])+

end
