(* ===== verification/RecvFec.thy ===== *)
theory RecvFec
  imports Fec
begin

text \<open>
  FEC on the receive side: an accumulator is the XOR of exactly the members recorded in its bitmask,
  folding a delivered chunk keeps it so, and a reconstruction from a genuine parity either leaves the
  stream alone or delivers exactly the missing chunk.
\<close>

section \<open>Accumulators\<close>

definition acc_ok ::
  "nat \<Rightarrow> nat \<Rightarrow> bytes list \<Rightarrow> nat \<Rightarrow> nat \<Rightarrow> nat \<Rightarrow> fecAccum \<Rightarrow> bool" where
  "acc_ok D g cs st n b a \<longleftrightarrow>
     length (aXor a) = D \<and> aMaxLen a \<le> D \<and>
     (\<exists>i. bit (aFolded a) i \<and> length (member cs st b i) = aMaxLen a) \<and>
     (\<forall>i. bit (aFolded a) i \<longrightarrow> i < g \<and> b + i * st < n \<and> length (member cs st b i) \<le> aMaxLen a) \<and>
     (\<forall>j. byte_at (aXor a) j = msum_byte cs st b {i. bit (aFolded a) i} j) \<and>
     aLenXor a = msum_len cs st b {i. bit (aFolded a) i}"

definition accs_ok ::
  "nat \<Rightarrow> nat \<Rightarrow> bytes list \<Rightarrow> nat \<Rightarrow> nat \<Rightarrow> (u32, fecAccum) gomap \<Rightarrow> bool" where
  "accs_ok D g cs st n m \<longleftrightarrow> mok m \<and> (\<forall>k a. mget m k = Some a \<longrightarrow> acc_ok D g cs st n (unat k) a)"

lemma finite_bits [simp]: "finite {i. bit (w :: 'a::len word) i}"
  by (rule finite_subset [of _ "{..<LENGTH('a)}"]) (auto dest: bit_imp_le_length)

lemma and_push_bit_iff: "(w :: u32) AND push_bit i 1 \<noteq> 0 \<longleftrightarrow> bit w i"
proof -
  have "w AND push_bit i 1 = (if bit w i then push_bit i 1 else 0)"
    by (rule bit_word_eqI) (auto simp: bit_simps)
  moreover have "bit w i \<Longrightarrow> (push_bit i 1 :: u32) \<noteq> 0"
    using bit_imp_le_length [of w i] by (auto simp: bit_eq_iff bit_simps)
  ultimately show ?thesis by auto
qed

lemma and_pow2_iff: "(w :: u32) AND 2 ^ i = 0 \<longleftrightarrow> \<not> bit w i"
  using and_push_bit_iff [of w i] by auto

lemma bit_pow2: "i < 32 \<Longrightarrow> bit (2 ^ i :: u32) j \<longleftrightarrow> j = i"
  by (auto simp: bit_simps)

lemma bits_or_pow2: "i < 32 \<Longrightarrow> {j. bit ((w :: u32) OR 2 ^ i) j} = insert i {j. bit w j}"
  by (auto simp: bit_simps)

lemma accs_ok_Nil [simp]: "accs_ok D g cs st n []"
  by (simp add: accs_ok_def)

lemma accs_ok_filter: "accs_ok D g cs st n m \<Longrightarrow> accs_ok D g cs st n (filter P m)"
  by (auto simp: accs_ok_def mok_filter mget_filter split: option.splits if_splits)

lemma accs_ok_mput:
  "accs_ok D g cs st n m \<Longrightarrow> acc_ok D g cs st n (unat k) a \<Longrightarrow> accs_ok D g cs st n (mput k a m)"
  by (auto simp: accs_ok_def mget_mput)

lemma length_reorderGet [simp]: "length (reorderGetLocked e n) = n"
  by (simp add: reorderGetLocked_def)

lemma go_copy_reorderGet [simp]: "go_copy (reorderGetLocked e (length xs)) 0 xs = xs"
  by (simp add: go_copy_full)

text \<open>A first member: the pooled buffer is overwritten by the data and zeroed past it.\<close>

lemma fold_first:
  assumes "length data \<le> D" and "D = nat (dataCap (ecfg e))"
  shows "(let buf0 = reorderGetLocked e (nat (dataCap (ecfg e)));
              n = min (length buf0) (length data)
          in take n (go_copy buf0 0 data) @ replicate (length buf0 - n) 0)
        = data @ replicate (D - length data) 0"
  using assms by (simp add: Let_def go_copy_prefix min_def)

lemma fold_acc_ok:
  assumes m: "accs_ok D g cs st hi m" and n: "unat base + idx * st = n" "n < hi" and idx: "idx < g" "g \<le> 32"
    and d: "data = cs ! n" "length data \<le> D" and D: "D = nat (dataCap (ecfg e))"
  shows "accs_ok D g cs st hi (fecFoldAccLocked e m base idx data)"
proof -
  have mem: "member cs st (unat base) idx = data"
    using n d by (simp add: member_def)
  show ?thesis
  proof (cases "mget m base")
    case None
    let ?a = "\<lparr>aXor = data @ replicate (D - length data) 0, aFolded = push_bit idx 1,
      aLenXor = of_nat (length data), aMaxLen = length data\<rparr>"
    have only: "bit (2 ^ idx :: u32) i \<longleftrightarrow> i = idx" for i
      using idx by (intro bit_pow2) simp
    then have bits: "Collect (bit (2 ^ idx :: u32)) = {idx}" by auto
    have "acc_ok D g cs st hi (unat base) ?a"
      unfolding acc_ok_def
      using d idx n mem by (simp add: bits only msum_insert [of "{}"] byte_at_append) (simp add: byte_at_def)
    then have "accs_ok D g cs st hi (mput base ?a m)"
      by (rule accs_ok_mput [OF m])
    then show ?thesis
      using fold_first [OF d(2) D] None by (simp add: fecFoldAccLocked_def Let_def)
  next
    case (Some a)
    show ?thesis
    proof (cases "bit (aFolded a) idx")
      case True
      then show ?thesis using m Some by (simp add: fecFoldAccLocked_def and_pow2_iff)
    next
      case fresh: False
    have a: "acc_ok D g cs st hi (unat base) a"
      using m Some by (simp add: accs_ok_def)
    let ?a = "a\<lparr>aFolded := aFolded a OR push_bit idx 1, aXor := xorInto (aXor a) data,
      aLenXor := aLenXor a XOR of_nat (length data),
      aMaxLen := (if aMaxLen a < length data then length data else aMaxLen a)\<rparr>"
    have len: "length data \<le> length (aXor a)" using a d by (simp add: acc_ok_def)
    have i32: "idx < 32" using idx by simp
    have bits: "bit (aFolded a OR 2 ^ idx) i \<longleftrightarrow> i = idx \<or> bit (aFolded a) i" for i
      using bits_or_pow2 [OF i32, of "aFolded a"] by blast
    have "acc_ok D g cs st hi (unat base) ?a"
      unfolding acc_ok_def
    proof (intro conjI allI impI)
      fix i assume "bit (aFolded ?a) i"
      then have "i = idx \<or> bit (aFolded a) i" by (simp add: bits)
      then show "i < g" "unat base + i * st < hi"
        "length (member cs st (unat base) i) \<le> aMaxLen ?a"
        using a idx n mem by (auto simp: acc_ok_def intro: order_trans)
    next
      fix j
      show "byte_at (aXor ?a) j = msum_byte cs st (unat base) {i. bit (aFolded ?a) i} j"
        using a fresh len by (simp add: byte_at_xorInto bits_or_pow2 [OF i32] msum_insert mem acc_ok_def)
    next
      show "aLenXor ?a = msum_len cs st (unat base) {i. bit (aFolded ?a) i}"
        using a fresh by (simp add: bits_or_pow2 [OF i32] msum_insert mem acc_ok_def)
    next
      show "\<exists>i. bit (aFolded ?a) i \<and> length (member cs st (unat base) i) = aMaxLen ?a"
      proof (cases "aMaxLen a < length data")
        case True
        then show ?thesis using mem bits by (intro exI [of _ idx]) simp
      next
        case False
        moreover obtain i where "bit (aFolded a) i" "length (member cs st (unat base) i) = aMaxLen a"
          using a by (auto simp: acc_ok_def)
        ultimately show ?thesis using bits by (intro exI [of _ i]) simp
      qed
    qed (use a d len in \<open>simp_all add: acc_ok_def\<close>)
    then have "accs_ok D g cs st hi (mput base ?a m)"
      by (rule accs_ok_mput [OF m])
    then show ?thesis
      using Some fresh len by (simp add: fecFoldAccLocked_def and_pow2_iff)
    qed
  qed
qed

section \<open>Group geometry\<close>

lemma unat_grp: "fecGroup (ecfg e) \<le> 32 \<Longrightarrow> 0 \<le> fecGroup (ecfg e) \<Longrightarrow> unat (grp e) = nat (fecGroup (ecfg e))"
  by (simp add: grp_def unat_eq_nat_uint take_bit_int_eq_self uint_word_of_int_eq)

lemma fecGroupOf_member:
  assumes "unat g = G" "0 < G" "G \<le> 32"
  shows "unat (fst (fecGroupOf g sq)) = unat sq div (G * G) * (G * G) + unat sq mod G"
    and "snd (fecGroupOf g sq) = unat sq div G mod G"
    and "unat (fst (fecGroupOf g sq)) + snd (fecGroupOf g sq) * G = unat sq"
    and "snd (fecGroupOf g sq) < G"
proof -
  have GG: "unat (g * g) = G * G"
    using assms mult_le_mono [OF assms(3) assms(3)] by (simp add: unat_word_ariths)
  have sq: "unat sq < 2 ^ 32" by (rule unat32_less)
  have q: "unat (sq div (g * g) * (g * g)) = unat sq div (G * G) * (G * G)"
    using GG by (simp add: unat_div_times32)
  have eq: "unat sq div (G * G) * (G * G) + unat sq mod G + unat sq div G mod G * G = unat sq"
  proof -
    have arith: "a * (G * G) + r + b * G = (a * G + b) * G + r" for a b r :: nat
      by (simp add: algebra_simps)
    have "unat sq div (G * G) = unat sq div G div G" by (simp add: div_mult2_eq)
    then show ?thesis by (simp only: arith div_mult_mod_eq)
  qed
  show base: "unat (fst (fecGroupOf g sq)) = unat sq div (G * G) * (G * G) + unat sq mod G"
    using q assms eq sq by (simp add: fecGroupOf_def Let_def unat_word_ariths unat_mod)
  show idx: "snd (fecGroupOf g sq) = unat sq div G mod G"
    using assms by (simp add: fecGroupOf_def Let_def unat_div unat_mod)
  show "unat (fst (fecGroupOf g sq)) + snd (fecGroupOf g sq) * G = unat sq"
    using base idx eq by simp
  show "snd (fecGroupOf g sq) < G"
    using idx assms by simp
qed

lemma fecRowOf_member:
  assumes "unat g = G" "0 < G"
  shows "unat (fst (fecRowOf g sq)) = unat sq div G * G"
    and "unat (fst (fecRowOf g sq)) + snd (fecRowOf g sq) * 1 = unat sq"
    and "snd (fecRowOf g sq) < G"
proof -
  show base: "unat (fst (fecRowOf g sq)) = unat sq div G * G"
    using assms by (simp add: fecRowOf_def unat_div_times32)
  show "unat (fst (fecRowOf g sq)) + snd (fecRowOf g sq) * 1 = unat sq" "snd (fecRowOf g sq) < G"
    using assms base by (simp_all add: fecRowOf_def unat_mod)
qed


section \<open>Reconstruction\<close>

definition have_member :: "readSide \<Rightarrow> u32 \<Rightarrow> u32 \<Rightarrow> u32 \<Rightarrow> nat \<Rightarrow> bool" where
  "have_member s folded base stride i \<longleftrightarrow>
     bit folded i \<or> mget (reorder s) (base + of_nat i * stride) \<noteq> None"

lemma scan_one_missing:
  "scanMembers s folded base stride is (Some m) = Inr r \<Longrightarrow>
     r = Some m \<and> (\<forall>i \<in> set is. have_member s folded base stride i)"
  by (induction "is") (auto simp: have_member_def Let_def and_pow2_iff split: if_splits)

lemma scan_missing:
  "scanMembers s folded base stride is None = Inr (Some m) \<Longrightarrow>
     m \<in> set is \<and> \<not> have_member s folded base stride m \<and> readSeq s \<le> base + of_nat m * stride \<and>
     (\<forall>i \<in> set is. i \<noteq> m \<longrightarrow> have_member s folded base stride i)"
proof (induction "is")
  case Nil
  then show ?case by simp
next
  case (Cons i "is")
  show ?case
  proof (cases "have_member s folded base stride i")
    case True
    then have "scanMembers s folded base stride is None = Inr (Some m)"
      using Cons.prems by (auto simp: have_member_def and_pow2_iff Let_def split: if_splits)
    then show ?thesis using Cons.IH True by auto
  next
    case False
    then have "scanMembers s folded base stride is (Some i) = Inr (Some m)"
      and "readSeq s \<le> base + of_nat i * stride"
      using Cons.prems by (auto simp: have_member_def and_pow2_iff Let_def not_less split: if_splits)
    then show ?thesis using scan_one_missing [of s folded base stride "is" i] False by auto
  qed
qed

text \<open>The scan finds the missing member whenever there is exactly one and it is still expected.\<close>

lemma scan_rest_present:
  "(\<forall>i \<in> set is. have_member s folded base stride i) \<Longrightarrow>
     scanMembers s folded base stride is miss = Inr miss"
  by (induction "is") (auto simp: have_member_def Let_def and_pow2_iff)

lemma scan_finds:
  assumes "m \<in> set is" "distinct is" "\<not> have_member s folded base stride m"
    and "readSeq s \<le> base + of_nat m * stride"
    and "\<forall>i \<in> set is. i \<noteq> m \<longrightarrow> have_member s folded base stride i"
  shows "scanMembers s folded base stride is None = Inr (Some m)"
  using assms
proof (induction "is")
  case Nil
  then show ?case by simp
next
  case (Cons i "is")
  show ?case
  proof (cases "i = m")
    case True
    then have "\<forall>i \<in> set is. have_member s folded base stride i" using Cons.prems by auto
    then show ?thesis
      using True Cons.prems scan_rest_present [of "is" s folded base stride "Some m"]
      by (auto simp: have_member_def and_pow2_iff Let_def)
  next
    case False
    then have "have_member s folded base stride i" using Cons.prems by auto
    moreover have "scanMembers s folded base stride is None = Inr (Some m)"
      using False Cons by auto
    ultimately show ?thesis by (auto simp: have_member_def and_pow2_iff Let_def)
  qed
qed

lemma xorMembers_eq:
  assumes "distinct is"
    and "\<forall>i \<in> set is. \<not> bit folded i \<and> i \<noteq> m \<longrightarrow>
      mget (reorder s) (base + of_nat i * stride) = Some (member cs st b i) \<and> length (member cs st b i) \<le> length buf"
  shows "\<exists>buf' len'. xorMembers s folded base stride m is (buf, len) = Some (buf', len') \<and>
    length buf' = length buf \<and>
    (\<forall>j. byte_at buf' j = byte_at buf j XOR msum_byte cs st b {i \<in> set is. \<not> bit folded i \<and> i \<noteq> m} j) \<and>
    len' = len XOR msum_len cs st b {i \<in> set is. \<not> bit folded i \<and> i \<noteq> m}"
  using assms
proof (induction "is" arbitrary: buf len)
  case Nil
  then show ?case by simp
next
  case (Cons i "is")
  let ?R = "{i \<in> set is. \<not> bit folded i \<and> i \<noteq> m}"
  show ?case
  proof (cases "bit folded i \<or> i = m")
    case True
    then have "{k \<in> set (i # is). \<not> bit folded k \<and> k \<noteq> m} = ?R" by auto
    moreover have "xorMembers s folded base stride m (i # is) (buf, len) = xorMembers s folded base stride m is (buf, len)"
      using True by (auto simp: and_pow2_iff)
    ultimately show ?thesis using Cons by (simp del: xorMembers.simps)
  next
    case False
    let ?d = "member cs st b i"
    have d: "mget (reorder s) (base + of_nat i * stride) = Some ?d" "length ?d \<le> length buf"
      using Cons.prems False by auto
    have "{k \<in> set (i # is). \<not> bit folded k \<and> k \<noteq> m} = insert i ?R" and "i \<notin> ?R"
      using False Cons.prems by auto
    then have sums:
      "msum_byte cs st b {k \<in> set (i # is). \<not> bit folded k \<and> k \<noteq> m} j
         = msum_byte cs st b ?R j XOR byte_at ?d j"
      "msum_len cs st b {k \<in> set (i # is). \<not> bit folded k \<and> k \<noteq> m}
         = msum_len cs st b ?R XOR of_nat (length ?d)" for j
      by (simp_all add: msum_insert)
    have step: "xorMembers s folded base stride m (i # is) (buf, len)
        = xorMembers s folded base stride m is (xorInto buf ?d, len XOR of_nat (length ?d))"
      using False d by (simp add: and_pow2_iff Let_def)
    have "distinct is" using Cons.prems by simp
    moreover have "\<forall>i \<in> set is. \<not> bit folded i \<and> i \<noteq> m \<longrightarrow>
      mget (reorder s) (base + of_nat i * stride) = Some (member cs st b i) \<and>
      length (member cs st b i) \<le> length (xorInto buf ?d)"
      using Cons.prems d by auto
    ultimately obtain buf' len' where r:
      "xorMembers s folded base stride m is (xorInto buf ?d, len XOR of_nat (length ?d)) = Some (buf', len')"
      "length buf' = length (xorInto buf ?d)"
      "\<forall>j. byte_at buf' j = byte_at (xorInto buf ?d) j XOR msum_byte cs st b ?R j"
      "len' = (len XOR of_nat (length ?d)) XOR msum_len cs st b ?R"
      using Cons.IH [of "xorInto buf ?d" "len XOR of_nat (length ?d)"] by blast
    show ?thesis
      using r d(2) by (simp only: step sums r(1) byte_at_xorInto length_xorInto)
        (auto simp: xor.assoc xor.commute xor.left_commute)
  qed
qed


text \<open>The chunks a conforming peer cuts its data into.\<close>

definition chunks_ok :: "config \<Rightarrow> bytes list \<Rightarrow> bool" where
  "chunks_ok c cs \<longleftrightarrow> config_ok c \<and> maxPayload c < 2 ^ 16 \<and> Suc (length cs) < 2 ^ 32 \<and>
     (\<forall>d \<in> set cs. d \<noteq> [] \<and> int (length d) \<le> dataCap c)"

definition stride_of :: "config \<Rightarrow> bool \<Rightarrow> nat" where
  "stride_of c row = (if row then 1 else nat (fecGroup c))"

definition accsOf :: "bool \<Rightarrow> readSide \<Rightarrow> (u32, fecAccum) gomap" where
  "accsOf row s = (if row then fecAccRow s else fecAcc s)"

definition reorder_ok :: "bytes list \<Rightarrow> nat \<Rightarrow> readSide \<Rightarrow> bool" where
  "reorder_ok cs hi s \<longleftrightarrow> mok (reorder s) \<and> (\<forall>k d. mget (reorder s) k = Some d \<longrightarrow>
     unat (readSeq s) \<le> unat k \<and> unat k < hi \<and> d = cs ! unat k)"

lemma chunks_okD:
  assumes "chunks_ok c cs"
  shows "length cs < 2 ^ 32 - 1" "i < length cs \<Longrightarrow> cs ! i \<noteq> []"
    "i < length cs \<Longrightarrow> length (cs ! i) \<le> nat (dataCap c)" "i < length cs \<Longrightarrow> length (cs ! i) < 2 ^ 16"
    "fecGroup c \<le> 32" "0 \<le> fecGroup c"
proof -
  show "length cs < 2 ^ 32 - 1" "fecGroup c \<le> 32" "0 \<le> fecGroup c"
    using assms by (auto simp: chunks_ok_def config_ok_def)
  assume "i < length cs"
  then have "cs ! i \<noteq> []" "int (length (cs ! i)) \<le> dataCap c"
    using assms by (auto simp: chunks_ok_def)
  moreover have "dataCap c < 2 ^ 16"
    using assms config_ok_dataCap [of c] by (auto simp: chunks_ok_def)
  ultimately show "cs ! i \<noteq> []" "length (cs ! i) \<le> nat (dataCap c)" "length (cs ! i) < 2 ^ 16"
    by simp_all
qed

lemma seq_word:
  "unat base = b \<Longrightarrow> stride = of_nat st \<Longrightarrow> (base :: u32) + of_nat i * stride = of_nat (b + i * st)"
  using of_nat_unat32 [of base] by (auto simp del: of_nat_unat32)

lemma stride_word:
  assumes "chunks_ok c cs" and "ecfg e = c"
  shows "(if row then 1 else grp e) = of_nat (stride_of c row)"
  using assms chunks_okD(5,6) [OF assms(1)] unat_grp [of e] of_nat_unat32 [of "grp e"]
  by (auto simp: stride_of_def simp del: of_nat_unat32)

text \<open>
  Absorbing the accumulator and the buffered members into a genuine parity leaves exactly the missing
  chunk.
\<close>

lemma absorb_exact:
  assumes cs: "chunks_ok c cs" and gen: "genuine g cs st b count xl xd" and st: "0 < st"
    and base: "unat base = b" and stride: "stride = of_nat st" and hi: "hi \<le> length cs" "n \<le> length cs"
    and ro: "reorder_ok cs hi s"
    and acc: "(case acc of None \<Rightarrow> folded = 0 | Some a \<Rightarrow> folded = aFolded a \<and> acc_ok D g cs st n b a)"
    and scan: "scanMembers s folded base stride [0..<count] None = Inr (Some m)"
    and size: "\<not> (case acc of None \<Rightarrow> False | Some a \<Rightarrow> length xd < aMaxLen a)"
  shows "\<exists>buf. xorMembers s folded base stride m [0..<count]
      (case acc of None \<Rightarrow> (xd, of_nat xl)
       | Some a \<Rightarrow> (xorInto xd (take (aMaxLen a) (aXor a)), of_nat xl XOR aLenXor a))
      = Some (buf, of_nat (length (cs ! (b + m * st)))) \<and>
      take (length (cs ! (b + m * st))) buf = cs ! (b + m * st) \<and> length (cs ! (b + m * st)) \<le> length xd"
proof -
  define F where "F = {i. bit folded i}"
  define R where "R = {i \<in> set [0..<count]. \<not> bit folded i \<and> i \<noteq> m}"
  obtain buf0 len0 where bl: "(case acc of None \<Rightarrow> (xd, of_nat xl)
      | Some a \<Rightarrow> (xorInto xd (take (aMaxLen a) (aXor a)), of_nat xl XOR aLenXor a)) = (buf0, len0)"
    by fastforce
  have buf0: "length buf0 = length xd" "byte_at buf0 j = byte_at xd j XOR msum_byte cs st b F j"
    and len0: "len0 = of_nat xl XOR msum_len cs st b F" for j
  proof -
    have "length buf0 = length xd \<and> (\<forall>j. byte_at buf0 j = byte_at xd j XOR msum_byte cs st b F j)
        \<and> len0 = of_nat xl XOR msum_len cs st b F"
    proof (cases acc)
      case None
      then show ?thesis using bl acc by (simp add: F_def)
    next
      case (Some a)
      have a: "folded = aFolded a" "acc_ok D g cs st n b a" "aMaxLen a \<le> length xd"
        using acc size Some by auto
      have short: "msum_byte cs st b F j = 0" if "aMaxLen a \<le> j" for j
      proof -
        have "byte_at (member cs st b i) j = 0" if "i \<in> F" for i
          using that a \<open>aMaxLen a \<le> j\<close> by (fastforce simp: F_def acc_ok_def byte_at_def)
        then show ?thesis unfolding msum_byte_def by (intro xorsum.neutral) simp
      qed
      have "byte_at (take (aMaxLen a) (aXor a)) j = msum_byte cs st b F j" for j
        using a short [of j] by (auto simp: byte_at_take F_def acc_ok_def)
      then show ?thesis
        using bl Some a by (auto simp: byte_at_xorInto F_def acc_ok_def)
    qed
    then show "length buf0 = length xd" "byte_at buf0 j = byte_at xd j XOR msum_byte cs st b F j"
      "len0 = of_nat xl XOR msum_len cs st b F" by auto
  qed
  have sq: "base + of_nat i * stride = of_nat (b + i * st)" for i
    using seq_word [OF base stride] .
  have inside: "b + i * st < length cs" if "i < count" for i
    using genuine_member [OF gen that] .
  note miss = scan_missing [OF scan]
  have F_in: "F \<subseteq> {..<count}"
  proof
    fix i assume "i \<in> F"
    then have "i < g" "b + i * st < n"
      using acc by (auto simp: F_def acc_ok_def split: option.splits)
    then show "i \<in> {..<count}"
      using genuine_folded_inside [OF gen] hi st by auto
  qed
  have part: "{..<count} = insert m (F \<union> R)" "F \<inter> R = {}" "m \<notin> F" "m \<notin> R"
    using miss F_in by (auto simp: F_def R_def have_member_def)
  have mem: "mget (reorder s) (base + of_nat i * stride) = Some (member cs st b i)"
    and mlen: "length (member cs st b i) \<le> length buf0" if "i \<in> R" for i
  proof -
    have i: "i < count" "have_member s folded base stride i" "\<not> bit folded i"
      using that miss by (auto simp: R_def)
    then obtain d where d: "mget (reorder s) (of_nat (b + i * st)) = Some d"
      by (auto simp: have_member_def sq)
    have "b + i * st < 2 ^ 32" using inside [OF i(1)] chunks_okD(1) [OF cs] by linarith
    then have "unat (of_nat (b + i * st) :: u32) = b + i * st" by (rule unat_of_nat32)
    then have "d = cs ! (b + i * st)" using ro d unfolding reorder_ok_def by metis
    then show "mget (reorder s) (base + of_nat i * stride) = Some (member cs st b i)"
      using d by (simp add: sq member_def)
    show "length (member cs st b i) \<le> length buf0"
      using gen i buf0(1) by (simp add: genuine_def)
  qed
  have mm: "member cs st b m = cs ! (b + m * st)" "m < count" using miss by (simp_all add: member_def)
  obtain buf' len' where x:
    "xorMembers s folded base stride m [0..<count] (buf0, len0) = Some (buf', len')"
    "length buf' = length buf0" "\<forall>j. byte_at buf' j = byte_at buf0 j XOR msum_byte cs st b R j"
    "len' = len0 XOR msum_len cs st b R"
    using xorMembers_eq [of "[0..<count]" folded m s base stride cs st b buf0 len0] mem mlen
    unfolding R_def by auto
  have byte: "byte_at buf' j = byte_at (cs ! (b + m * st)) j" for j
    using missing_member(1) [OF part] genuine_byte [OF gen] x(3) buf0(2) mm by (simp add: xor.assoc)
  have len: "len' = of_nat (length (cs ! (b + m * st)))"
    using missing_member(2) [OF part] gen x(4) len0 mm by (simp add: genuine_def xor.assoc)
  have le: "length (cs ! (b + m * st)) \<le> length xd"
    using gen mm by (auto simp: genuine_def)
  have "take (length (cs ! (b + m * st))) buf' = cs ! (b + m * st)"
    using byte le x(2) buf0(1) by (intro bytes_eqI) (auto simp: byte_at_take byte_at_def [of "cs ! _"])
  then show ?thesis using x(1) bl len le by auto
qed

text \<open>A scan that finds one missing member rebuilds it.\<close>

lemma tryReconstruct_rebuild:
  assumes cs: "chunks_ok c cs" and e: "ecfg e = c" and fec: "0 < fecGroup c"
    and gen: "genuine (nat (fecGroup c)) cs (stride_of c row) (unat base) count xl xd"
    and hi: "hi \<le> length cs" "n \<le> length cs" and ro: "reorder_ok cs hi s"
    and acc: "accs_ok D (nat (fecGroup c)) cs (stride_of c row) n (accsOf row s)"
    and guard: "\<not> base + (of_nat count - 1) * of_nat (stride_of c row) < readSeq s"
    and size: "\<not> (case mget (accsOf row s) base of None \<Rightarrow> False | Some a \<Rightarrow> length xd < aMaxLen a)"
    and scan: "scanMembers s (case mget (accsOf row s) base of None \<Rightarrow> 0 | Some a \<Rightarrow> aFolded a) base
      (of_nat (stride_of c row)) [0..<count] None = Inr (Some m)"
  shows "tryReconstructLocked e dlv row base count xl xd s =
     (fecRecovered, dlv s (of_nat (unat base + m * stride_of c row)) (cs ! (unat base + m * stride_of c row)))"
proof -
  let ?st = "stride_of c row" and ?g = "nat (fecGroup c)" and ?b = "unat base"
  let ?a = "mget (accsOf row s) base"
  let ?f = "case ?a of None \<Rightarrow> 0 | Some a \<Rightarrow> aFolded a"
  note stw = stride_word [OF cs e, of row]
  have accs: "(if row then fecAccRow s else fecAcc s) = accsOf row s" by (simp add: accsOf_def)
  have st: "0 < ?st" using fec by (simp add: stride_of_def)
  have accok: "case ?a of None \<Rightarrow> ?f = 0 | Some a \<Rightarrow> ?f = aFolded a \<and> acc_ok D ?g cs ?st n ?b a"
    using acc by (auto simp: accs_ok_def split: option.splits)
  let ?k = "?b + m * ?st"
  from absorb_exact [OF cs gen st refl refl hi ro accok scan size]
  obtain buf where buf: "xorMembers s ?f base (of_nat ?st) m [0..<count]
      (case ?a of None \<Rightarrow> (xd, of_nat xl)
       | Some a \<Rightarrow> (xorInto xd (take (aMaxLen a) (aXor a)), of_nat xl XOR aLenXor a))
      = Some (buf, of_nat (length (cs ! ?k)))" "take (length (cs ! ?k)) buf = cs ! ?k"
    "length (cs ! ?k) \<le> length xd" by blast
  note miss = scan_missing [OF scan]
  have k: "?k < length cs" using genuine_member [OF gen, of m] miss by simp
  have small: "unat (of_nat (length (cs ! ?k)) :: u32) = length (cs ! ?k)"
    using chunks_okD(4) [OF cs k] by (intro unat_of_nat32) simp
  have nz: "(of_nat (length (cs ! ?k)) :: u32) \<noteq> 0"
    using small chunks_okD(2) [OF cs k] by (metis length_0_conv unat_0)
  have sq: "base + of_nat m * of_nat ?st = of_nat ?k" by (rule seq_word) simp_all
  have pick: "(case ?a of None \<Rightarrow> (go_copy (reorderGetLocked e (length xd)) 0 xd, of_nat xl)
      | Some a \<Rightarrow> (xorInto (go_copy (reorderGetLocked e (length xd)) 0 xd) (take (aMaxLen a) (aXor a)),
                  of_nat xl XOR aLenXor a))
    = (case ?a of None \<Rightarrow> (xd, of_nat xl)
       | Some a \<Rightarrow> (xorInto xd (take (aMaxLen a) (aXor a)), of_nat xl XOR aLenXor a))"
    by (simp split: option.splits)
  have fin: "\<not> (of_nat (length (cs ! ?k)) = (0 :: u32) \<or> length xd < length (cs ! ?k))"
    using nz buf(3) by simp
  obtain b0 l0 where p: "(case ?a of None \<Rightarrow> (xd, of_nat xl)
       | Some a \<Rightarrow> (xorInto xd (take (aMaxLen a) (aXor a)), of_nat xl XOR aLenXor a)) = (b0, l0)" by fastforce
  show ?thesis
    unfolding tryReconstructLocked_def Let_def stw accs
    by (simp only: guard size scan pick p buf(1) [unfolded p] small fin if_False sum.case option.case
        prod.case sq buf(2))
qed

lemma tryReconstruct_cases:
  assumes cs: "chunks_ok c cs" and e: "ecfg e = c" and fec: "0 < fecGroup c"
    and gen: "genuine (nat (fecGroup c)) cs (stride_of c row) (unat base) count xl xd"
    and hi: "hi \<le> length cs" "n \<le> length cs" and ro: "reorder_ok cs hi s"
    and acc: "accs_ok D (nat (fecGroup c)) cs (stride_of c row) n (accsOf row s)"
  obtains (same) out where "tryReconstructLocked e dlv row base count xl xd s = (out, s)" "out \<noteq> fecRecovered"
  | (rebuilt) m where "m < count"
      "tryReconstructLocked e dlv row base count xl xd s =
         (fecRecovered, dlv s (of_nat (unat base + m * stride_of c row)) (cs ! (unat base + m * stride_of c row)))"
      "unat (readSeq s) \<le> unat base + m * stride_of c row"
      "mget (reorder s) (of_nat (unat base + m * stride_of c row)) = None"
proof -
  let ?st = "stride_of c row" and ?g = "nat (fecGroup c)" and ?b = "unat base"
  let ?a = "mget (accsOf row s) base"
  let ?f = "case ?a of None \<Rightarrow> 0 | Some a \<Rightarrow> aFolded a"
  let ?scan = "scanMembers s ?f base (of_nat ?st) [0..<count] None"
  note stw = stride_word [OF cs e, of row]
  have accs: "(if row then fecAccRow s else fecAcc s) = accsOf row s" by (simp add: accsOf_def)
  have st: "0 < ?st" using fec by (simp add: stride_of_def)
  show thesis
  proof (cases "base + (of_nat count - 1) * of_nat ?st < readSeq s
      \<or> (case ?a of None \<Rightarrow> False | Some a \<Rightarrow> length xd < aMaxLen a)
      \<or> (\<forall>m. ?scan \<noteq> Inr (Some m))")
    case True
    then have "\<exists>out. tryReconstructLocked e dlv row base count xl xd s = (out, s) \<and> out \<noteq> fecRecovered"
    proof -
      have "r \<noteq> Inl fecRecovered" if "scanMembers s ?f base (of_nat ?st) is miss = r" for "is" miss r
        using that by (induction "is" arbitrary: miss) (auto simp: Let_def split: if_splits)
      then have "?scan \<noteq> Inl fecRecovered" by blast
      then show ?thesis
        using True by (auto simp: tryReconstructLocked_def stw accs Let_def split: sum.splits option.splits)
    qed
    then show thesis using same by blast
  next
    case False
    then obtain m where scan: "?scan = Inr (Some m)" by blast
    let ?k = "?b + m * ?st"
    note miss = scan_missing [OF scan]
    have k: "?k < length cs" using genuine_member [OF gen, of m] miss by simp
    have sq: "base + of_nat m * of_nat ?st = of_nat ?k" by (rule seq_word) simp_all
    have ku: "unat (of_nat ?k :: u32) = ?k" using k chunks_okD(1) [OF cs] by (intro unat_of_nat32) simp
    have "tryReconstructLocked e dlv row base count xl xd s = (fecRecovered, dlv s (of_nat ?k) (cs ! ?k))"
      using False by (intro tryReconstruct_rebuild [OF cs e fec gen hi ro acc _ _ scan]) blast+
    moreover have "unat (readSeq s) \<le> ?k" using miss by (simp only: sq word_le_unat ku)
    moreover have "mget (reorder s) (of_nat ?k) = None" using miss by (simp only: sq have_member_def) blast
    moreover have "m < count" using miss by simp
    ultimately show thesis by (intro rebuilt)
  qed
qed

end
