(* ===== verification/RecvInv.thy ===== *)
theory RecvInv
  imports RecvFec
begin

text \<open>
  The invariant of a stream's receive side while a conforming peer sends the chunks \<open>cs\<close>, of which the
  first \<open>hi\<close> have left the sender and of which \<open>out\<close> is what the application has read so far; and its
  preservation by every operation of theory \<open>Recv\<close>. The flag \<open>fc\<close> says that the sender also respects
  flow control: the bytes of the first \<open>hi\<close> chunks stay within the granted offset.
\<close>

section \<open>The invariant\<close>

definition recvd :: "readSide \<Rightarrow> nat \<Rightarrow> bool" where
  "recvd s k \<longleftrightarrow> k < unat (readSeq s) \<or> k < 2 ^ 32 \<and> mget (reorder s) (of_nat k) \<noteq> None"

definition sumlen :: "(u32, bytes) gomap \<Rightarrow> int" where
  "sumlen m = (\<Sum>(k, d) \<leftarrow> m. int (length d))"

definition pend_ok ::
  "config \<Rightarrow> bytes list \<Rightarrow> nat \<Rightarrow> bool \<Rightarrow> (u32, fecPendingParity) gomap \<Rightarrow> bool" where
  "pend_ok c cs hi row m \<longleftrightarrow> (\<forall>k p. mget m k = Some p \<longrightarrow>
     genuine (nat (fecGroup c)) cs (stride_of c row) (unat k) (pCount p) (pXorLen p) (pData p) \<and>
     unat k + (pCount p - 1) * stride_of c row < hi)"

definition rcore :: "config \<Rightarrow> bytes list \<Rightarrow> nat \<Rightarrow> bytes \<Rightarrow> readSide \<Rightarrow> bool" where
  "rcore c cs hi out s \<longleftrightarrow>
     ring_ok (rring s) \<and> out @ ring_list (rring s) = concat (take (unat (readSeq s)) cs) \<and>
     reorder_ok cs hi s \<and> reorderBytes s = sumlen (reorder s) \<and> hi \<le> length cs \<and>
     accs_ok (nat (dataCap c)) (nat (fecGroup c)) cs (stride_of c False) hi (fecAcc s) \<and>
     accs_ok (nat (dataCap c)) (nat (fecGroup c)) cs (stride_of c True) hi (fecAccRow s) \<and>
     pend_ok c cs hi False (fecPending s) \<and> pend_ok c cs hi True (fecPendingRow s)"

definition rlive :: "bytes list \<Rightarrow> nat \<Rightarrow> readSide \<Rightarrow> bool" where
  "rlive cs hi s \<longleftrightarrow> \<not> readCanceled s \<and>
     (finRecvd s \<longrightarrow> hi = length cs \<and> unat (finSeq s) = length cs) \<and>
     (readErr s = None \<and> unat (readSeq s) \<le> hi \<or>
      readErr s = Some EOF \<and> finRecvd s \<and> length cs \<le> unat (readSeq s) \<and> unat (readSeq s) \<le> Suc (length cs))"

definition rflow :: "bool \<Rightarrow> config \<Rightarrow> bytes list \<Rightarrow> nat \<Rightarrow> bytes \<Rightarrow> readSide \<Rightarrow> bool" where
  "rflow fc c cs hi out s \<longleftrightarrow> (readErr s = None \<longrightarrow>
     peerOffset s = int (length (readBuf (rring s))) + int (length out) - grantPending s \<and>
     0 \<le> grantPending s \<and> int (length (readBuf (rring s))) \<le> maxBufSize c \<and>
     (fc \<longrightarrow> int (length (concat (take hi cs))) \<le> peerOffset s))"

definition racks :: "readSide \<Rightarrow> bool" where
  "racks s \<longleftrightarrow> (\<forall>k \<in> set (ackPendingSeqs s) \<union> set (ackReplaySeqs s). recvd s (unat k))"

text \<open>After the connection is torn down (\<open>lv\<close> false) only the data invariant is kept.\<close>

definition rinv :: "bool \<Rightarrow> bool \<Rightarrow> config \<Rightarrow> bytes list \<Rightarrow> nat \<Rightarrow> bytes \<Rightarrow> readSide \<Rightarrow> bool" where
  "rinv lv fc c cs hi out s \<longleftrightarrow>
     rcore c cs hi out s \<and> (lv \<longrightarrow> rlive cs hi s \<and> rflow fc c cs hi out s \<and> racks s)"

text \<open>What holds between operations: what can be delivered has been, and so has the end of the stream.\<close>

definition rdone :: "bool \<Rightarrow> readSide \<Rightarrow> bool" where
  "rdone fc s \<longleftrightarrow> (readErr s = None \<longrightarrow>
     (fc \<longrightarrow> mget (reorder s) (readSeq s) = None) \<and> (finRecvd s \<longrightarrow> readSeq s < finSeq s))"

definition ext :: "readSide \<Rightarrow> readSide \<Rightarrow> bool" where
  "ext s s' \<longleftrightarrow> (\<forall>k. recvd s k \<longrightarrow> recvd s' k)"

lemma ext_refl [simp]: "ext s s"
  by (simp add: ext_def)

lemma ext_trans: "ext s t \<Longrightarrow> ext t u \<Longrightarrow> ext s u"
  by (simp add: ext_def)

lemmas rinv_defs = rinv_def rcore_def rlive_def rflow_def racks_def recvd_def reorder_ok_def

section \<open>Updates that do not matter\<close>

lemma recvd_upd [simp]:
  "recvd (s\<lparr>lastArrivalAt := t\<rparr>) k = recvd s k" "recvd (s\<lparr>gapSeq := w\<rparr>) k = recvd s k"
  "recvd (s\<lparr>gapFirstSeenAt := t\<rparr>) k = recvd s k" "recvd (s\<lparr>lastNackAt := t\<rparr>) k = recvd s k"
  "recvd (s\<lparr>maxSeenSeq := w\<rparr>) k = recvd s k" "recvd (s\<lparr>lastGrowAt := t\<rparr>) k = recvd s k"
  "recvd (s\<lparr>readDeadline := t\<rparr>) k = recvd s k" "recvd (rcall cc s) k = recvd s k"
  "recvd (s\<lparr>readErr := er\<rparr>) k = recvd s k" "recvd (s\<lparr>rring := r\<rparr>) k = recvd s k"
  "recvd (s\<lparr>finRecvd := b\<rparr>) k = recvd s k" "recvd (s\<lparr>finSeq := w\<rparr>) k = recvd s k"
  "recvd (s\<lparr>grantPending := gp\<rparr>) k = recvd s k" "recvd (s\<lparr>peerOffset := po\<rparr>) k = recvd s k"
  "recvd (s\<lparr>ackPendingSeqs := ss\<rparr>) k = recvd s k" "recvd (s\<lparr>ackReplaySeqs := ss\<rparr>) k = recvd s k"
  "recvd (s\<lparr>fecAcc := fa\<rparr>) k = recvd s k" "recvd (s\<lparr>fecAccRow := fa\<rparr>) k = recvd s k"
  "recvd (s\<lparr>fecPending := fp\<rparr>) k = recvd s k" "recvd (s\<lparr>fecPendingRow := fp\<rparr>) k = recvd s k"
  "recvd (s\<lparr>reorderBytes := x\<rparr>) k = recvd s k"
  by (simp_all add: recvd_def rcall_def)

lemma rcall_sel [simp]:
  "rring (rcall cc s) = rring s" "readSeq (rcall cc s) = readSeq s" "reorder (rcall cc s) = reorder s"
  "readErr (rcall cc s) = readErr s" "finRecvd (rcall cc s) = finRecvd s" "finSeq (rcall cc s) = finSeq s"
  "readCanceled (rcall cc s) = readCanceled s" "peerOffset (rcall cc s) = peerOffset s"
  "grantPending (rcall cc s) = grantPending s" "fecPending (rcall cc s) = fecPending s"
  "fecPendingRow (rcall cc s) = fecPendingRow s" "fecAcc (rcall cc s) = fecAcc s"
  "fecAccRow (rcall cc s) = fecAccRow s" "reorderBytes (rcall cc s) = reorderBytes s"
  "ackPendingSeqs (rcall cc s) = ackPendingSeqs s" "ackReplaySeqs (rcall cc s) = ackReplaySeqs s"
  by (simp_all add: rcall_def)

lemma rinv_upd [simp]:
  "rinv lv fc c cs hi out (s\<lparr>lastArrivalAt := t\<rparr>) = rinv lv fc c cs hi out s"
  "rinv lv fc c cs hi out (s\<lparr>gapSeq := w\<rparr>) = rinv lv fc c cs hi out s"
  "rinv lv fc c cs hi out (s\<lparr>gapFirstSeenAt := t\<rparr>) = rinv lv fc c cs hi out s"
  "rinv lv fc c cs hi out (s\<lparr>lastNackAt := t\<rparr>) = rinv lv fc c cs hi out s"
  "rinv lv fc c cs hi out (s\<lparr>maxSeenSeq := w\<rparr>) = rinv lv fc c cs hi out s"
  "rinv lv fc c cs hi out (s\<lparr>lastGrowAt := t\<rparr>) = rinv lv fc c cs hi out s"
  "rinv lv fc c cs hi out (s\<lparr>readDeadline := t\<rparr>) = rinv lv fc c cs hi out s"
  "rinv lv fc c cs hi out (rcall cc s) = rinv lv fc c cs hi out s"
  by (simp_all add: rinv_defs)

lemma rdone_upd [simp]:
  "rdone fc (s\<lparr>lastArrivalAt := t\<rparr>) = rdone fc s" "rdone fc (s\<lparr>gapSeq := w\<rparr>) = rdone fc s"
  "rdone fc (s\<lparr>gapFirstSeenAt := t\<rparr>) = rdone fc s" "rdone fc (s\<lparr>lastNackAt := t\<rparr>) = rdone fc s"
  "rdone fc (s\<lparr>maxSeenSeq := w\<rparr>) = rdone fc s" "rdone fc (s\<lparr>readDeadline := t\<rparr>) = rdone fc s"
  "rdone fc (rcall cc s) = rdone fc s"
  "rdone fc (s\<lparr>fecPending := fp\<rparr>) = rdone fc s" "rdone fc (s\<lparr>fecPendingRow := fp\<rparr>) = rdone fc s"
  "rdone fc (s\<lparr>ackPendingSeqs := ss\<rparr>) = rdone fc s" "rdone fc (s\<lparr>ackReplaySeqs := ss\<rparr>) = rdone fc s"
  by (simp_all add: rdone_def)

text \<open>Each part of the invariant reads only some of the fields.\<close>

lemma reorder_ok_upd [simp]:
  "reorder_ok cs hi (s\<lparr>rring := r\<rparr>) = reorder_ok cs hi s"
  "reorder_ok cs hi (s\<lparr>reorderBytes := x\<rparr>) = reorder_ok cs hi s"
  "reorder_ok cs hi (s\<lparr>ackPendingSeqs := ss\<rparr>) = reorder_ok cs hi s"
  "reorder_ok cs hi (s\<lparr>ackReplaySeqs := ss\<rparr>) = reorder_ok cs hi s"
  "reorder_ok cs hi (s\<lparr>finRecvd := b\<rparr>) = reorder_ok cs hi s"
  "reorder_ok cs hi (s\<lparr>finSeq := w\<rparr>) = reorder_ok cs hi s"
  "reorder_ok cs hi (s\<lparr>readErr := er\<rparr>) = reorder_ok cs hi s"
  "reorder_ok cs hi (s\<lparr>grantPending := gp\<rparr>) = reorder_ok cs hi s"
  "reorder_ok cs hi (s\<lparr>peerOffset := po\<rparr>) = reorder_ok cs hi s"
  "reorder_ok cs hi (s\<lparr>fecAcc := fa\<rparr>) = reorder_ok cs hi s"
  "reorder_ok cs hi (s\<lparr>fecAccRow := fa\<rparr>) = reorder_ok cs hi s"
  "reorder_ok cs hi (s\<lparr>fecPending := fp\<rparr>) = reorder_ok cs hi s"
  "reorder_ok cs hi (s\<lparr>fecPendingRow := fp\<rparr>) = reorder_ok cs hi s"
  "reorder_ok cs hi (rcall cc s) = reorder_ok cs hi s"
  by (simp_all add: reorder_ok_def)

lemma rlive_upd [simp]:
  "rlive cs hi (s\<lparr>rring := r\<rparr>) = rlive cs hi s" "rlive cs hi (s\<lparr>reorder := ro\<rparr>) = rlive cs hi s"
  "rlive cs hi (s\<lparr>reorderBytes := x\<rparr>) = rlive cs hi s"
  "rlive cs hi (s\<lparr>ackPendingSeqs := ss\<rparr>) = rlive cs hi s"
  "rlive cs hi (s\<lparr>ackReplaySeqs := ss\<rparr>) = rlive cs hi s"
  "rlive cs hi (s\<lparr>grantPending := gp\<rparr>) = rlive cs hi s"
  "rlive cs hi (s\<lparr>peerOffset := po\<rparr>) = rlive cs hi s"
  "rlive cs hi (s\<lparr>fecAcc := fa\<rparr>) = rlive cs hi s" "rlive cs hi (s\<lparr>fecAccRow := fa\<rparr>) = rlive cs hi s"
  "rlive cs hi (s\<lparr>fecPending := fp\<rparr>) = rlive cs hi s"
  "rlive cs hi (s\<lparr>fecPendingRow := fp\<rparr>) = rlive cs hi s" "rlive cs hi (rcall cc s) = rlive cs hi s"
  by (simp_all add: rlive_def)

lemma rflow_upd [simp]:
  "rflow fc c cs hi out (s\<lparr>readSeq := w\<rparr>) = rflow fc c cs hi out s"
  "rflow fc c cs hi out (s\<lparr>reorder := ro\<rparr>) = rflow fc c cs hi out s"
  "rflow fc c cs hi out (s\<lparr>reorderBytes := x\<rparr>) = rflow fc c cs hi out s"
  "rflow fc c cs hi out (s\<lparr>ackPendingSeqs := ss\<rparr>) = rflow fc c cs hi out s"
  "rflow fc c cs hi out (s\<lparr>ackReplaySeqs := ss\<rparr>) = rflow fc c cs hi out s"
  "rflow fc c cs hi out (s\<lparr>finRecvd := b\<rparr>) = rflow fc c cs hi out s"
  "rflow fc c cs hi out (s\<lparr>finSeq := w\<rparr>) = rflow fc c cs hi out s"
  "rflow fc c cs hi out (s\<lparr>fecAcc := fa\<rparr>) = rflow fc c cs hi out s"
  "rflow fc c cs hi out (s\<lparr>fecAccRow := fa\<rparr>) = rflow fc c cs hi out s"
  "rflow fc c cs hi out (s\<lparr>fecPending := fp\<rparr>) = rflow fc c cs hi out s"
  "rflow fc c cs hi out (s\<lparr>fecPendingRow := fp\<rparr>) = rflow fc c cs hi out s"
  "rflow fc c cs hi out (rcall cc s) = rflow fc c cs hi out s"
  by (simp_all add: rflow_def)

lemma rflow_ring:
  "length (readBuf r) = length (readBuf (rring s)) \<Longrightarrow> rflow fc c cs hi out (s\<lparr>rring := r\<rparr>) = rflow fc c cs hi out s"
  by (simp add: rflow_def)

lemma racks_upd [simp]:
  "racks (s\<lparr>rring := r\<rparr>) = racks s" "racks (s\<lparr>reorderBytes := x\<rparr>) = racks s"
  "racks (s\<lparr>finRecvd := b\<rparr>) = racks s" "racks (s\<lparr>finSeq := w\<rparr>) = racks s"
  "racks (s\<lparr>readErr := er\<rparr>) = racks s" "racks (s\<lparr>grantPending := gp\<rparr>) = racks s"
  "racks (s\<lparr>peerOffset := po\<rparr>) = racks s" "racks (s\<lparr>fecAcc := fa\<rparr>) = racks s"
  "racks (s\<lparr>fecAccRow := fa\<rparr>) = racks s" "racks (s\<lparr>fecPending := fp\<rparr>) = racks s"
  "racks (s\<lparr>fecPendingRow := fp\<rparr>) = racks s" "racks (rcall cc s) = racks s"
  by (simp_all add: racks_def)

section \<open>Sums over the reorder map\<close>

lemma sumlen_mput_fresh: "mget m k = None \<Longrightarrow> sumlen (mput k d m) = sumlen m + int (length d)"
  by (induction m) (auto simp: sumlen_def mget_def mput_def split: if_splits)

lemma sumlen_mdel: "mok m \<Longrightarrow> mget m k = Some d \<Longrightarrow> sumlen (mdel k m) = sumlen m - int (length d)"
proof (induction m)
  case Nil
  then show ?case by simp
next
  case (Cons p m)
  have "k \<notin> set (mkeys m) \<Longrightarrow> AList.delete k m = m"
    by (induction m) (auto simp: mkeys_def)
  with Cons show ?case
    by (cases p) (auto simp: mok_def mkeys_def mget_def mdel_def sumlen_def split: if_splits)
qed

text \<open>Chunks held out of order are distinct chunks from the unread part of the stream.\<close>

lemma length_concat_take:
  "length (concat (take n cs)) = (\<Sum>k<n. if k < length cs then length (cs ! k) else 0)"
proof (induction n)
  case (Suc n)
  then show ?case
    by (cases "n < length cs") (simp_all add: take_Suc_conv_app_nth)
qed simp

lemma sumlen_bound:
  assumes ok: "reorder_ok cs hi s" and hi: "hi \<le> length cs" and i: "i < hi" "unat (readSeq s) \<le> i"
    and fresh: "mget (reorder s) (of_nat i) = None" and big: "length cs < 2 ^ 32 - 1"
  shows "sumlen (reorder s) + int (length (cs ! i)) + int (length (concat (take (unat (readSeq s)) cs)))
    \<le> int (length (concat (take hi cs)))"
proof -
  let ?m = "reorder s" and ?n = "unat (readSeq s)"
  let ?K = "unat ` fst ` set ?m"
  have mok: "mok ?m" using ok by (simp add: reorder_ok_def)
  have val: "unat k < hi \<and> ?n \<le> unat k \<and> d = cs ! unat k" if "(k, d) \<in> set ?m" for k d
    using ok that mget_iff [OF mok] by (auto simp: reorder_ok_def)
  have dist: "distinct (map fst ?m)" using mok by (simp add: mok_def mkeys_def)
  then have "sumlen ?m = (\<Sum>(k, d) \<in> set ?m. int (length d))"
    unfolding sumlen_def by (simp add: sum_list_distinct_conv_sum_set distinct_map)
  also have "\<dots> = (\<Sum>p \<in> set ?m. int (length (cs ! unat (fst p))))"
    using val by (intro sum.cong) auto
  also have "\<dots> = (\<Sum>k \<in> ?K. int (length (cs ! k)))"
  proof -
    have "inj_on (unat \<circ> fst) (set ?m)"
      using dist by (auto simp: inj_on_def distinct_map word_eq_unat)
    then show ?thesis
      using sum.reindex [of "unat \<circ> fst" "set ?m" "\<lambda>k. int (length (cs ! k))"]
      by (simp add: image_comp comp_def)
  qed
  finally have sl: "sumlen ?m = (\<Sum>k \<in> ?K. int (length (cs ! k)))" .
  have iK: "i \<notin> ?K"
  proof
    assume "i \<in> ?K"
    then obtain k d where "(k, d) \<in> set ?m" "i = unat k" by auto
    then show False using fresh mget_iff [OF mok, of k d] by simp
  qed
  have sub: "insert i ?K \<subseteq> {?n..<hi}" using val i by auto
  have fin: "finite ?K" by simp
  have "sumlen ?m + int (length (cs ! i)) = (\<Sum>k \<in> insert i ?K. int (length (cs ! k)))"
    using sl iK fin by simp
  also have "\<dots> \<le> (\<Sum>k \<in> {?n..<hi}. int (length (cs ! k)))"
    using sub by (intro sum_mono2) auto
  finally have le: "sumlen ?m + int (length (cs ! i)) \<le> (\<Sum>k \<in> {?n..<hi}. int (length (cs ! k)))" .
  have "(\<Sum>k<hi. int (length (cs ! k))) = (\<Sum>k<?n. int (length (cs ! k))) + (\<Sum>k \<in> {?n..<hi}. int (length (cs ! k)))"
    using sum.atLeastLessThan_concat [of 0 ?n hi "\<lambda>k. int (length (cs ! k))"] i
    by (simp only: lessThan_atLeast0)
  moreover have "int (length (concat (take hi cs))) = (\<Sum>k<hi. int (length (cs ! k)))"
    and "int (length (concat (take ?n cs))) = (\<Sum>k<?n. int (length (cs ! k)))"
    using hi i by (auto simp: length_concat_take intro!: sum.cong)
  ultimately show ?thesis using le by linarith
qed


section \<open>Grants and growth\<close>

lemma grantLocked_sel [simp]:
  "rring (grantLocked d s) = rring s" "readSeq (grantLocked d s) = readSeq s"
  "readErr (grantLocked d s) = readErr s" "finRecvd (grantLocked d s) = finRecvd s"
  "finSeq (grantLocked d s) = finSeq s" "readCanceled (grantLocked d s) = readCanceled s"
  "grantPending (grantLocked d s) = grantPending s" "fecPending (grantLocked d s) = fecPending s"
  "fecPendingRow (grantLocked d s) = fecPendingRow s" "fecAcc (grantLocked d s) = fecAcc s"
  "fecAccRow (grantLocked d s) = fecAccRow s" "reorderBytes (grantLocked d s) = reorderBytes s"
  "ackPendingSeqs (grantLocked d s) = ackPendingSeqs s" "ackReplaySeqs (grantLocked d s) = ackReplaySeqs s"
  "peerOffset (grantLocked d s) = peerOffset s + max 0 d"
  by (simp_all add: grantLocked_def Let_def)

lemma recvd_grant [simp]: "recvd (grantLocked d s) k = recvd s k"
  by (simp add: recvd_def)

lemma rdone_grant [simp]: "rdone fc (grantLocked d s) = rdone fc s"
  by (simp add: rdone_def)

text \<open>A larger ring with the same contents, and the difference granted to the peer.\<close>

lemma realloc_inv:
  assumes inv: "rinv lv fc c cs hi out s" and cap: "length (readBuf (rring s)) \<le> newCap"
    "int newCap \<le> maxBufSize c"
  defines "s' \<equiv> grantLocked (int newCap - int (length (readBuf (rring s)))) (s\<lparr>rring := reallocRingLocked newCap (rring s)\<rparr>)"
  shows "rinv lv fc c cs hi out s'" "length (readBuf (rring s')) = newCap"
    "readLen (rring s') = readLen (rring s)" "readSeq s' = readSeq s" "reorder s' = reorder s"
    "readErr s' = readErr s" "finRecvd s' = finRecvd s" "finSeq s' = finSeq s" "recvd s' k = recvd s k"
proof -
  have ok: "ring_ok (rring s)" using inv by (simp add: rinv_defs)
  then have pos: "0 < newCap" "readLen (rring s) \<le> newCap" using cap by (auto simp: ring_ok_def)
  note r = reallocRing_props [OF ok pos(2,1)]
  show "length (readBuf (rring s')) = newCap" using r by (simp add: s'_def)
  show "readLen (rring s') = readLen (rring s)"
    using r length_ring_list [of "rring s"] length_ring_list [of "reallocRingLocked newCap (rring s)"]
    by (simp add: s'_def del: length_ring_list)
  show "rinv lv fc c cs hi out s'"
    using inv r cap by (auto simp: s'_def rinv_defs)
qed (simp_all add: s'_def)

lemma growLocked_inv:
  assumes "rinv lv fc c cs hi out s" "ecfg e = c" "growLocked e need s = (b, s')"
  shows "rinv lv fc c cs hi out s'" "b \<Longrightarrow> ringFitsLocked (rring s') need" "\<not> b \<Longrightarrow> s' = s"
    "readSeq s' = readSeq s" "reorder s' = reorder s" "readErr s' = readErr s"
    "finRecvd s' = finRecvd s" "finSeq s' = finSeq s" "recvd s' k = recvd s k"
proof -
  let ?oldCap = "length (readBuf (rring s))"
  let ?newCap0 = "growCap ?oldCap (readLen (rring s) + need)"
  let ?mx = "nat (maxBufSize c)"
  let ?newCap = "if ?mx < ?newCap0 then ?mx else ?newCap0"
  let ?g = "grantLocked (int ?newCap - int ?oldCap) (s\<lparr>rring := reallocRingLocked ?newCap (rring s)\<rparr>)"
  have "b = (\<not> (?newCap \<le> ?oldCap \<or> ?newCap < readLen (rring s) + need))" and
    s': "s' = (if b then ?g else s)"
    using assms(2,3) by (auto simp: growLocked_def Let_def split: if_splits)
  moreover have "?newCap \<le> ?mx" by simp
  ultimately have cap: "?oldCap \<le> ?newCap" "int ?newCap \<le> maxBufSize c" "readLen (rring s) + need \<le> ?newCap" if b
    using that by linarith+
  note grown = realloc_inv [OF assms(1) cap(1,2)]
  show "rinv lv fc c cs hi out s'" "readSeq s' = readSeq s" "reorder s' = reorder s" "readErr s' = readErr s"
    "finRecvd s' = finRecvd s" "finSeq s' = finSeq s" "recvd s' k = recvd s k"
    using s' grown assms(1) by (cases b; simp)+
  show "b \<Longrightarrow> ringFitsLocked (rring s') need"
    using s' grown(2,3) cap(3) by (simp add: ringFitsLocked_def)
  show "\<not> b \<Longrightarrow> s' = s" using s' by simp
qed

lemma maybeGrow_inv:
  assumes inv: "rinv lv fc c cs hi out s" and e: "ecfg e = c"
  shows "rinv lv fc c cs hi out (maybeGrowLocked e s)" "recvd (maybeGrowLocked e s) k = recvd s k"
    "readSeq (maybeGrowLocked e s) = readSeq s" "reorder (maybeGrowLocked e s) = reorder s"
    "readErr (maybeGrowLocked e s) = readErr s" "finRecvd (maybeGrowLocked e s) = finRecvd s"
    "finSeq (maybeGrowLocked e s) = finSeq s"
proof -
  let ?oldCap = "length (readBuf (rring s))" and ?mx = "nat (maxBufSize c)"
  let ?newCap = "if ?mx < ?oldCap * 2 then ?mx else ?oldCap * 2"
  let ?g = "grantLocked (int ?newCap - int ?oldCap)
      (s\<lparr>lastGrowAt := enow e, rring := reallocRingLocked ?newCap (rring s)\<rparr>)"
  have alt: "maybeGrowLocked e s = s \<or> \<not> ?mx \<le> ?oldCap \<and> maybeGrowLocked e s = ?g"
    using e by (auto simp: maybeGrowLocked_def Let_def)
  have cap: "?oldCap \<le> ?newCap" "int ?newCap \<le> maxBufSize c" if "\<not> ?mx \<le> ?oldCap"
    using that by auto
  have "rinv lv fc c cs hi out (s\<lparr>lastGrowAt := enow e\<rparr>)" using inv by simp
  from realloc_inv(1) [OF this, of ?newCap] have "\<not> ?mx \<le> ?oldCap \<Longrightarrow> rinv lv fc c cs hi out ?g"
    using cap by simp
  then show "rinv lv fc c cs hi out (maybeGrowLocked e s)" using alt inv by metis
  show "recvd (maybeGrowLocked e s) k = recvd s k"
    "readSeq (maybeGrowLocked e s) = readSeq s" "reorder (maybeGrowLocked e s) = reorder s"
    "readErr (maybeGrowLocked e s) = readErr s" "finRecvd (maybeGrowLocked e s) = finRecvd s"
    "finSeq (maybeGrowLocked e s) = finSeq s"
    using alt by auto
qed


section \<open>Folding and consuming a chunk\<close>

lemma rinv_accs:
  assumes "rinv lv fc c cs hi out s"
    and "accs_ok (nat (dataCap c)) (nat (fecGroup c)) cs (stride_of c False) hi A"
    and "accs_ok (nat (dataCap c)) (nat (fecGroup c)) cs (stride_of c True) hi B"
  shows "rinv lv fc c cs hi out (s\<lparr>fecAcc := A, fecAccRow := B\<rparr>)"
  using assms by (simp add: rinv_def rcore_def)

lemma fold_shape:
  assumes cs: "chunks_ok c cs" and e: "ecfg e = c" and n: "unat sq < hi" "hi \<le> length cs"
    and col: "accs_ok (nat (dataCap c)) (nat (fecGroup c)) cs (stride_of c False) hi (fecAcc s)"
    and row: "accs_ok (nat (dataCap c)) (nat (fecGroup c)) cs (stride_of c True) hi (fecAccRow s)"
  shows "\<exists>A B. (if 0 < fecGroup c then fecFoldRecvLocked e sq (cs ! unat sq) s else s)
      = s\<lparr>fecAcc := A, fecAccRow := B\<rparr>
    \<and> accs_ok (nat (dataCap c)) (nat (fecGroup c)) cs (stride_of c False) hi A
    \<and> accs_ok (nat (dataCap c)) (nat (fecGroup c)) cs (stride_of c True) hi B"
proof (cases "0 < fecGroup c")
  case False
  with col row show ?thesis
    by (intro exI [of _ "fecAcc s"] exI [of _ "fecAccRow s"]) simp
next
  case True
  let ?g = "nat (fecGroup c)" and ?D = "nat (dataCap c)" and ?d = "cs ! unat sq"
  let ?ok = "\<lambda>r. accs_ok ?D ?g cs (stride_of c r) hi"
  have g: "unat (grp e) = ?g" "0 < ?g" "?g \<le> 32"
    using True chunks_okD(5,6) [OF cs] unat_grp [of e] e by auto
  have len: "length ?d \<le> ?D" using chunks_okD(3) [OF cs] n by simp
  have big: "\<not> dataCap (ecfg e) < int (length ?d)"
    using len e config_ok_dataCap [of c] cs by (auto simp: chunks_ok_def)
  obtain base idx where bi: "fecGroupOf (grp e) sq = (base, idx)" by fastforce
  obtain rbase ridx where rbi: "fecRowOf (grp e) sq = (rbase, ridx)" by fastforce
  let ?A = "fecFoldAccLocked e (fecAcc s) base idx ?d"
  let ?B = "if fec2D c then fecFoldAccLocked e (fecAccRow s) rbase ridx ?d else fecAccRow s"
  have A: "?ok False ?A"
    using fecGroupOf_member(3,4) [OF g, of sq] bi n len e g
    by (intro fold_acc_ok [OF col, of base idx "unat sq"]) (simp_all add: stride_of_def)
  have "?ok True (fecFoldAccLocked e (fecAccRow s) rbase ridx ?d)"
    using fecRowOf_member(2,3) [OF g(1,2), of sq] rbi n len e g
    by (intro fold_acc_ok [OF row, of rbase ridx "unat sq"]) (simp_all add: stride_of_def)
  then have B: "?ok True ?B" using row by simp
  have fold: "fecFoldRecvLocked e sq ?d s = fecSweepLocked e (s\<lparr>fecAcc := ?A, fecAccRow := ?B\<rparr>)"
    using big bi rbi e by (simp add: fecFoldRecvLocked_def)
  have "\<exists>A' B'. fecSweepLocked e (s\<lparr>fecAcc := A, fecAccRow := B\<rparr>) = s\<lparr>fecAcc := A', fecAccRow := B'\<rparr>
      \<and> ?ok False A' \<and> ?ok True B'" if "?ok False A" "?ok True B" for A B
  proof -
    let ?P = "\<lambda>(base, acc). \<not> base + grp e * grp e - grp e < readSeq s"
    let ?Q = "\<lambda>(base, acc). \<not> base + grp e - 1 < readSeq s"
    let ?A = "if 2 * nat (fecGroup (ecfg e)) < length A then filter ?P A else A"
    let ?B = "if 2 * nat (fecGroup (ecfg e)) < length B then filter ?Q B else B"
    have "fecSweepLocked e (s\<lparr>fecAcc := A, fecAccRow := B\<rparr>) = s\<lparr>fecAcc := ?A, fecAccRow := ?B\<rparr>"
      by (simp add: fecSweepLocked_def Let_def)
    moreover have "?ok False ?A" "?ok True ?B" using that accs_ok_filter by auto
    ultimately show ?thesis by blast
  qed
  from this [OF A B] show ?thesis using True fold by simp
qed

text \<open>
  Consuming the next chunk: it goes to the end of the ring, the watermark moves past it, and it leaves
  the reorder map if it was there.
\<close>

lemma consume_inv:
  assumes cs: "chunks_ok c cs" and inv: "rinv lv fc c cs hi out s" and n: "unat (readSeq s) < hi"
    and fits: "ringFitsLocked (rring s) (length (cs ! unat (readSeq s)))"
    and ro: "mok ro" "\<And>k. mget ro k = (if k = readSeq s then None else mget (reorder s) k)"
  defines "s' \<equiv> s\<lparr>rring := ringWrite (cs ! unat (readSeq s)) (rring s), readSeq := readSeq s + 1,
      reorder := ro, reorderBytes := sumlen ro\<rparr>"
  shows "rinv lv fc c cs hi out s'" "ext s s'" "unat (readSeq s') = Suc (unat (readSeq s))"
proof -
  let ?n = "unat (readSeq s)"
  have hi: "hi \<le> length cs" and ok: "ring_ok (rring s)" using inv by (simp_all add: rinv_defs)
  show n': "unat (readSeq s') = Suc ?n"
    using n hi chunks_okD(1) [OF cs] by (simp add: s'_def unat_Suc32)
  show ext: "ext s s'"
    unfolding ext_def
  proof (intro allI impI)
    fix k assume "recvd s k"
    then show "recvd s' k"
      using n' ro(2) [of "of_nat k"]
      by (cases "(of_nat k :: u32) = readSeq s") (auto simp: recvd_def s'_def word_eq_unat)
  qed
  have "out @ ring_list (rring s') = concat (take (Suc ?n) cs)"
    using inv ok fits n hi
    by (simp add: s'_def rinv_defs ring_list_ringWrite take_Suc_conv_app_nth)
  moreover have "ring_ok (rring s')" using ok fits by (simp add: s'_def ringWrite_ok)
  moreover have "reorder_ok cs hi s'"
    unfolding reorder_ok_def
  proof (intro conjI allI impI)
    show "mok (reorder s')" using ro by (simp add: s'_def)
    fix k d assume "mget (reorder s') k = Some d"
    then have k: "k \<noteq> readSeq s" "mget (reorder s) k = Some d"
      using ro(2) [of k] by (auto simp: s'_def split: if_splits)
    then have "?n \<le> unat k" "unat k < hi" "d = cs ! unat k"
      using inv by (auto simp: rinv_defs)
    then show "unat (readSeq s') \<le> unat k" "unat k < hi" "d = cs ! unat k"
      using k(1) n' by (auto simp: word_eq_unat)
  qed
  ultimately have "rcore c cs hi out s'"
    using inv n' by (simp add: rinv_def rcore_def) (simp add: s'_def)
  moreover have "rlive cs hi s'" if lv
  proof -
    have "rlive cs hi s" using inv that by (simp add: rinv_def)
    moreover have "readErr s' = readErr s" "readCanceled s' = readCanceled s" "finRecvd s' = finRecvd s"
      "finSeq s' = finSeq s" by (simp_all add: s'_def)
    ultimately show ?thesis using n n' hi unfolding rlive_def by fastforce
  qed
  moreover have "rflow fc c cs hi out s'" if lv
    using inv that ok fits by (simp add: rinv_def rflow_ring s'_def)
  moreover have "racks s'" if lv
  proof -
    have "racks s" using inv that by (simp add: rinv_def)
    then show ?thesis using ext by (auto simp: racks_def ext_def s'_def)
  qed
  ultimately show "rinv lv fc c cs hi out s'" by (simp add: rinv_def)
qed


text \<open>Flow control leaves room in the ring for the next chunk.\<close>

lemma take_concat_mono: "m \<le> n \<Longrightarrow> length (concat (take m cs)) \<le> length (concat (take n cs))"
  by (simp only: length_concat_take) (rule sum_mono2, auto)

lemma room_in_order:
  assumes inv: "rinv True True c cs hi out s" and live: "readErr s = None" and n: "unat (readSeq s) < hi"
  shows "ringFitsLocked (rring s) (length (cs ! unat (readSeq s)))"
proof -
  let ?n = "unat (readSeq s)"
  have hi: "hi \<le> length cs" and out: "out @ ring_list (rring s) = concat (take ?n cs)"
    and po: "peerOffset s = int (length (readBuf (rring s))) + int (length out) - grantPending s"
      "0 \<le> grantPending s" "int (length (concat (take hi cs))) \<le> peerOffset s"
    using inv live by (simp_all add: rinv_def rcore_def rflow_def)
  have "length (concat (take ?n cs)) + length (cs ! ?n) = length (concat (take (Suc ?n) cs))"
    using n hi by (simp add: take_Suc_conv_app_nth)
  also have "\<dots> \<le> length (concat (take hi cs))" using n by (intro take_concat_mono) simp
  finally have "length out + readLen (rring s) + length (cs ! ?n) \<le> length (concat (take hi cs))"
    using arg_cong [OF out, of length] by simp
  then show ?thesis using po unfolding ringFitsLocked_def by linarith
qed

lemma fitOrGrow_inv:
  assumes inv: "rinv lv fc c cs hi out s" and e: "ecfg e = c" and f: "fitOrGrow e need s = (b, s')"
  shows "rinv lv fc c cs hi out s'" "b \<Longrightarrow> ringFitsLocked (rring s') need"
    "readSeq s' = readSeq s" "reorder s' = reorder s" "readErr s' = readErr s"
    "finRecvd s' = finRecvd s" "finSeq s' = finSeq s" "recvd s' k = recvd s k"
    "ringFitsLocked (rring s) need \<Longrightarrow> b"
proof -
  consider "ringFitsLocked (rring s) need" "b" "s' = s"
    | "\<not> ringFitsLocked (rring s) need" "growLocked e need s = (b, s')"
    using f by (auto simp: fitOrGrow_def split: if_splits)
  then have "rinv lv fc c cs hi out s' \<and> (b \<longrightarrow> ringFitsLocked (rring s') need) \<and> readSeq s' = readSeq s \<and>
    reorder s' = reorder s \<and> readErr s' = readErr s \<and> finRecvd s' = finRecvd s \<and> finSeq s' = finSeq s \<and>
    recvd s' k = recvd s k \<and> (ringFitsLocked (rring s) need \<longrightarrow> b)"
  proof cases
    case 1
    then show ?thesis using inv by simp
  next
    case 2
    note g = growLocked_inv [OF inv e 2(2)]
    show ?thesis using g(1,2,4,5,6,7,8) g(9) [of k] 2(1) by blast
  qed
  then show "rinv lv fc c cs hi out s'" "b \<Longrightarrow> ringFitsLocked (rring s') need"
    "readSeq s' = readSeq s" "reorder s' = reorder s" "readErr s' = readErr s"
    "finRecvd s' = finRecvd s" "finSeq s' = finSeq s" "recvd s' k = recvd s k"
    "ringFitsLocked (rring s) need \<Longrightarrow> b" by blast+
qed

lemma drainOne_inv:
  assumes cs: "chunks_ok c cs" and e: "ecfg e = c" and inv: "rinv lv fc c cs hi out s"
    and d: "mget (reorder s) (readSeq s) = Some d" and fits: "ringFitsLocked (rring s) (length d)"
  shows "rinv lv fc c cs hi out (drainOne e d s)" "ext s (drainOne e d s)"
    "readErr (drainOne e d s) = readErr s" "finRecvd (drainOne e d s) = finRecvd s"
    "finSeq (drainOne e d s) = finSeq s"
proof -
  let ?n = "unat (readSeq s)"
  have core: "rcore c cs hi out s" using inv by (simp add: rinv_def)
  then have ro: "mok (reorder s)" "?n < hi" "d = cs ! ?n" and hi: "hi \<le> length cs"
    and rb: "reorderBytes s = sumlen (reorder s)"
    using d by (auto simp: rcore_def reorder_ok_def)
  let ?t = "s\<lparr>rring := ringWrite d (rring s), reorder := mdel (readSeq s) (reorder s),
      reorderBytes := reorderBytes s - int (length d)\<rparr>"
  obtain A B where AB: "(if 0 < fecGroup c then fecFoldRecvLocked e (readSeq s) d ?t else ?t)
      = ?t\<lparr>fecAcc := A, fecAccRow := B\<rparr>"
      "accs_ok (nat (dataCap c)) (nat (fecGroup c)) cs (stride_of c False) hi A"
      "accs_ok (nat (dataCap c)) (nat (fecGroup c)) cs (stride_of c True) hi B"
    using fold_shape [OF cs e ro(2) hi, of ?t] core ro(3) by (auto simp: rcore_def)
  let ?u = "s\<lparr>fecAcc := A, fecAccRow := B\<rparr>"
  have bytes: "reorderBytes s - int (length d) = sumlen (mdel (readSeq s) (reorder s))"
    using sumlen_mdel [OF ro(1) d] rb by simp
  have "drainOne e d s = rcall CallReadBroadcast
      ((?t\<lparr>fecAcc := A, fecAccRow := B\<rparr>)\<lparr>readSeq := readSeq (?t\<lparr>fecAcc := A, fecAccRow := B\<rparr>) + 1\<rparr>)"
    unfolding AB(1) [symmetric] by (simp add: drainOne_def Let_def e)
  then have form: "drainOne e d s = rcall CallReadBroadcast
      (?u\<lparr>rring := ringWrite (cs ! unat (readSeq ?u)) (rring ?u), readSeq := readSeq ?u + 1,
          reorder := mdel (readSeq s) (reorder s), reorderBytes := sumlen (mdel (readSeq s) (reorder s))\<rparr>)"
    by (simp add: bytes ro(3) [symmetric]) (rule arg_cong [of _ _ "rcall CallReadBroadcast"], simp)
  have u: "rinv lv fc c cs hi out ?u" by (rule rinv_accs [OF inv AB(2,3)])
  have fits': "ringFitsLocked (rring ?u) (length (cs ! unat (readSeq ?u)))" using fits ro by simp
  have mo: "mok (mdel (readSeq s) (reorder s))" using ro by simp
  have mg: "mget (mdel (readSeq s) (reorder s)) k = (if k = readSeq ?u then None else mget (reorder ?u) k)" for k
    by (simp add: mget_mdel)
  have nu: "unat (readSeq ?u) < hi" using ro by simp
  note c = consume_inv [OF cs u nu fits' mo mg]
  show "rinv lv fc c cs hi out (drainOne e d s)" using c(1) form by simp
  show "ext s (drainOne e d s)" using c(2) unfolding form by (simp add: ext_def)
  show "readErr (drainOne e d s) = readErr s" "finRecvd (drainOne e d s) = finRecvd s"
    "finSeq (drainOne e d s) = finSeq s" by (simp_all add: form)
qed

lemma drain_inv:
  assumes "chunks_ok c cs" "ecfg e = c" "rinv lv fc c cs hi out s"
  shows "rinv lv fc c cs hi out (drainReorderLocked e s) \<and> ext s (drainReorderLocked e s)
    \<and> readErr (drainReorderLocked e s) = readErr s \<and> finRecvd (drainReorderLocked e s) = finRecvd s
    \<and> finSeq (drainReorderLocked e s) = finSeq s
    \<and> (lv \<and> fc \<and> readErr s = None \<longrightarrow>
        mget (reorder (drainReorderLocked e s)) (readSeq (drainReorderLocked e s)) = None)"
  using assms
proof (induction e s rule: drainReorderLocked.induct)
  case (1 e s)
  show ?case
  proof (cases "mget (reorder s) (readSeq s)")
    case None
    then show ?thesis using 1 by (simp add: drainReorderLocked.simps [of e s])
  next
    case (Some d)
    obtain b s1 where f: "fitOrGrow e (length d) s = (b, s1)" by fastforce
    note g = fitOrGrow_inv [OF "1.prems"(3,2) f]
    have d1: "mget (reorder s1) (readSeq s1) = Some d" using Some g by simp
    have e1: "ext s s1" using g(8) by (simp add: ext_def)
    show ?thesis
    proof (cases b)
      case True
      have drain: "drainReorderLocked e s = drainReorderLocked e (drainOne e d s1)"
        using Some f True by (simp add: drainReorderLocked.simps [of e s])
      note o = drainOne_inv [OF "1.prems"(1,2) g(1) d1 g(2) [OF True]]
      from "1.IH" [OF Some f [symmetric] refl True "1.prems"(1,2) o(1)]
      show ?thesis
        unfolding drain using o(2-5) e1 g(5,6,7) by (auto intro: ext_trans)
    next
      case False
      have drain: "drainReorderLocked e s = s1"
        using Some f False by (simp add: drainReorderLocked.simps [of e s])
      have "ringFitsLocked (rring s) (length d)" if "lv" "fc" "readErr s = None"
      proof -
        have "rcore c cs hi out s" using "1.prems"(3) by (simp add: rinv_def)
        then have "unat (readSeq s) < hi" "d = cs ! unat (readSeq s)"
          using Some by (auto simp: rcore_def reorder_ok_def)
        then show ?thesis using room_in_order "1.prems"(3) that by auto
      qed
      then have "\<not> (lv \<and> fc \<and> readErr s = None)" using g(9) False by blast
      then show ?thesis unfolding drain using g e1 by auto
    qed
  qed
qed

end
