(* ===== verification/RecvDeliver.thy ===== *)
theory RecvDeliver
  imports RecvInv
begin

text \<open>
  Every operation of the receive side keeps the invariant of theory \<open>RecvInv\<close>: delivery of a chunk in
  any order, the peer's FIN, parity frames with the recursive retries of pending parities, reads by the
  application, and the operations that only observe.
\<close>

definition rok :: "bool \<Rightarrow> config \<Rightarrow> bytes list \<Rightarrow> nat \<Rightarrow> bytes \<Rightarrow> readSide \<Rightarrow> bool" where
  "rok fc c cs hi out s \<longleftrightarrow> rinv True fc c cs hi out s \<and> rdone fc s"

definition keeps :: "bool \<Rightarrow> config \<Rightarrow> bytes list \<Rightarrow> nat \<Rightarrow> bytes \<Rightarrow> readSide \<Rightarrow> readSide \<Rightarrow> bool" where
  "keeps fc c cs hi out s s' \<longleftrightarrow> rok fc c cs hi out s' \<and> ext s s'"

lemma keeps_trans: "keeps fc c cs hi out s t \<Longrightarrow> keeps fc c cs hi out t u \<Longrightarrow> keeps fc c cs hi out s u"
  by (auto simp: keeps_def intro: ext_trans)

lemma keeps_refl: "rok fc c cs hi out s \<Longrightarrow> keeps fc c cs hi out s s"
  by (simp add: keeps_def)

lemma rok_upd [simp]:
  "rok fc c cs hi out (s\<lparr>lastArrivalAt := t\<rparr>) = rok fc c cs hi out s"
  "rok fc c cs hi out (s\<lparr>gapSeq := w\<rparr>) = rok fc c cs hi out s"
  "rok fc c cs hi out (s\<lparr>gapFirstSeenAt := t\<rparr>) = rok fc c cs hi out s"
  "rok fc c cs hi out (s\<lparr>lastNackAt := t\<rparr>) = rok fc c cs hi out s"
  "rok fc c cs hi out (s\<lparr>maxSeenSeq := w\<rparr>) = rok fc c cs hi out s"
  "rok fc c cs hi out (s\<lparr>readDeadline := t\<rparr>) = rok fc c cs hi out s"
  "rok fc c cs hi out (rcall cc s) = rok fc c cs hi out s"
  by (simp_all add: rok_def)

lemma ext_upd [simp]:
  "ext s (t\<lparr>lastArrivalAt := x\<rparr>) = ext s t" "ext s (t\<lparr>gapSeq := w\<rparr>) = ext s t"
  "ext s (t\<lparr>gapFirstSeenAt := x\<rparr>) = ext s t" "ext s (t\<lparr>lastNackAt := x\<rparr>) = ext s t"
  "ext s (t\<lparr>maxSeenSeq := w\<rparr>) = ext s t" "ext s (t\<lparr>readDeadline := x\<rparr>) = ext s t"
  "ext s (rcall cc t) = ext s t" "ext s (t\<lparr>ackPendingSeqs := ss\<rparr>) = ext s t"
  "ext s (t\<lparr>ackReplaySeqs := ss\<rparr>) = ext s t" "ext s (t\<lparr>readErr := er\<rparr>) = ext s t"
  "ext s (t\<lparr>finRecvd := b\<rparr>) = ext s t" "ext s (t\<lparr>finSeq := w\<rparr>) = ext s t"
  "ext s (grantLocked d t) = ext s t" "ext s (t\<lparr>rring := r\<rparr>) = ext s t"
  "ext s (t\<lparr>grantPending := gp\<rparr>) = ext s t" "ext s (t\<lparr>fecPending := fp\<rparr>) = ext s t"
  "ext s (t\<lparr>fecPendingRow := fp\<rparr>) = ext s t"
  by (simp_all add: ext_def)

lemma fireNack_keeps [simp]:
  "rok fc c cs hi out (fireNackLocked s) = rok fc c cs hi out s" "ext t (fireNackLocked s) = ext t s"
  by (simp_all add: fireNackLocked_def Let_def)

lemma fastRetransmit_keeps [simp]:
  "rok fc c cs hi out (maybeFastRetransmitLocked e s) = rok fc c cs hi out s"
  "ext t (maybeFastRetransmitLocked e s) = ext t s"
  by (simp_all add: maybeFastRetransmitLocked_def Let_def)

lemma tailNack_keeps [simp]:
  "rok fc c cs hi out (maybeTailNack e s) = rok fc c cs hi out s" "ext t (maybeTailNack e s) = ext t s"
  by (simp_all add: maybeTailNack_def Let_def)

section \<open>The end of the stream\<close>

lemma maybeEOF_inv:
  assumes inv: "rinv lv fc c cs hi out s"
  shows "rinv lv fc c cs hi out (maybeEOFLocked s)"
proof (cases "finRecvd s \<and> finSeq s \<le> readSeq s \<and> readErr s = None")
  case True
  have "rcore c cs hi out (s\<lparr>readErr := Some EOF\<rparr>)" using inv by (simp add: rinv_def rcore_def)
  moreover have "rlive cs hi (s\<lparr>readErr := Some EOF\<rparr>)" if lv
  proof -
    have "rlive cs hi s" using inv that by (simp add: rinv_def)
    then show ?thesis using True by (auto simp: rlive_def word_le_unat)
  qed
  moreover have "rflow fc c cs hi out (s\<lparr>readErr := Some EOF\<rparr>)" by (simp add: rflow_def)
  moreover have "racks s" if lv using inv that by (simp add: rinv_def)
  ultimately have "rinv lv fc c cs hi out (s\<lparr>readErr := Some EOF\<rparr>)" by (simp add: rinv_def)
  then show ?thesis using True by (simp add: maybeEOFLocked_def)
next
  case False
  then show ?thesis using inv by (auto simp: maybeEOFLocked_def)
qed

lemma maybeEOF_ext [simp]: "ext s (maybeEOFLocked t) = ext s t"
  by (simp add: maybeEOFLocked_def)

lemma maybeEOF_done:
  "(fc \<Longrightarrow> readErr s = None \<Longrightarrow> mget (reorder s) (readSeq s) = None) \<Longrightarrow> rdone fc (maybeEOFLocked s)"
  by (auto simp: maybeEOFLocked_def rdone_def)

section \<open>Delivery of a chunk\<close>

lemma insert_inv:
  assumes inv: "rinv True fc c cs hi out s" and dn: "rdone fc s"
    and i: "i < hi" "unat (readSeq s) < i" "i < 2 ^ 32" and fresh: "mget (reorder s) (of_nat i) = None"
  defines "s' \<equiv> s\<lparr>reorder := mput (of_nat i) (cs ! i) (reorder s),
      reorderBytes := reorderBytes s + int (length (cs ! i))\<rparr>"
  shows "rok fc c cs hi out s'" "ext s s'" "recvd s' i"
proof -
  have get: "mget (reorder s') k = (if k = of_nat i then Some (cs ! i) else mget (reorder s) k)" for k
    by (simp add: s'_def mget_mput)
  show r: "recvd s' i" using i by (simp add: recvd_def get)
  have "readSeq s' = readSeq s" by (simp add: s'_def)
  then show ext: "ext s s'" by (auto simp: ext_def recvd_def get)
  have "rcore c cs hi out s" using inv by (simp add: rinv_def)
  moreover from this have "reorder_ok cs hi s'"
    using i unfolding rcore_def reorder_ok_def get by (auto simp: s'_def split: if_splits)
  ultimately have "rcore c cs hi out s'"
    using fresh by (simp add: rcore_def) (simp add: s'_def sumlen_mput_fresh)
  moreover have "rlive cs hi s'" "rflow fc c cs hi out s'"
    using inv by (simp_all add: rinv_def s'_def)
  moreover have "racks s'"
    using inv ext by (auto simp: rinv_def racks_def ext_def s'_def)
  moreover have "rdone fc s'"
  proof -
    have "readSeq s \<noteq> of_nat i" using i by (auto simp: word_eq_unat)
    then show ?thesis using dn get by (auto simp: rdone_def s'_def)
  qed
  ultimately show "rok fc c cs hi out s'" by (simp add: rok_def rinv_def)
qed

lemma deliver_in_order:
  assumes cs: "chunks_ok c cs" and e: "ecfg e = c" and inv: "rinv True fc c cs hi out s"
    and live: "readErr s = None" and n: "unat (readSeq s) < hi"
    and fits: "ringFitsLocked (rring s) (length (cs ! unat (readSeq s)))"
    and fresh: "mget (reorder s) (readSeq s) = None"
  defines "pl \<equiv> cs ! unat (readSeq s)"
  defines "s2 \<equiv> (if 0 < fecGroup (ecfg e) then fecFoldRecvLocked e (readSeq s) pl s else s)"
  defines "s3 \<equiv> s2\<lparr>rring := ringWrite pl (rring s2), readSeq := readSeq s2 + 1\<rparr>"
  defines "s6 \<equiv> rcall CallReadBroadcast (maybeEOFLocked (maybeGrowLocked e (drainReorderLocked e s3)))"
  shows "keeps fc c cs hi out s s6" "recvd s6 (unat (readSeq s))"
proof -
  have core: "rcore c cs hi out s" using inv by (simp add: rinv_def)
  then have hi: "hi \<le> length cs" by (simp add: rcore_def)
  obtain A B where AB: "s2 = s\<lparr>fecAcc := A, fecAccRow := B\<rparr>"
      "accs_ok (nat (dataCap c)) (nat (fecGroup c)) cs (stride_of c False) hi A"
      "accs_ok (nat (dataCap c)) (nat (fecGroup c)) cs (stride_of c True) hi B"
    using fold_shape [OF cs e n hi, of s] core unfolding rcore_def s2_def pl_def e by blast
  have i2: "rinv True fc c cs hi out s2" unfolding AB(1) by (rule rinv_accs [OF inv AB(2,3)])
  have sel: "readSeq s2 = readSeq s" "reorder s2 = reorder s" "rring s2 = rring s"
    by (simp_all add: AB(1))
  have mo: "mok (reorder s)" and rb: "reorderBytes s2 = sumlen (reorder s)"
    using core AB(1) by (simp_all add: rcore_def reorder_ok_def)
  have mg: "mget (reorder s) k = (if k = readSeq s2 then None else mget (reorder s2) k)" for k
    using fresh sel by simp
  have n2: "unat (readSeq s2) < hi" using n sel by simp
  have f2: "ringFitsLocked (rring s2) (length (cs ! unat (readSeq s2)))" using fits sel by simp
  note c = consume_inv [OF cs i2 n2 f2 mo mg]
  have s3: "s3 = s2\<lparr>rring := ringWrite (cs ! unat (readSeq s2)) (rring s2), readSeq := readSeq s2 + 1,
      reorder := reorder s, reorderBytes := sumlen (reorder s)\<rparr>"
    using rb sel by (simp add: s3_def pl_def)
  have i3: "rinv True fc c cs hi out s3" and e3: "ext s s3" and n3: "unat (readSeq s3) = Suc (unat (readSeq s))"
  proof -
    have "recvd s2 k = recvd s k" for k by (simp add: AB(1))
    then show "rinv True fc c cs hi out s3" "ext s s3" "unat (readSeq s3) = Suc (unat (readSeq s))"
      using c [folded s3] sel(1) by (simp_all add: ext_def)
  qed
  have r3: "recvd s3 (unat (readSeq s))" using n3 by (simp add: recvd_def)
  have l3: "readErr s3 = None" using live by (simp add: s3_def AB(1))
  note d = drain_inv [OF cs e i3]
  let ?s4 = "drainReorderLocked e s3"
  have i4: "rinv True fc c cs hi out ?s4" and e4: "ext s3 ?s4"
    and done4: "fc \<Longrightarrow> mget (reorder ?s4) (readSeq ?s4) = None"
    using d l3 by auto
  note g = maybeGrow_inv [OF i4 e]
  let ?s5 = "maybeGrowLocked e ?s4"
  have "rdone fc (maybeEOFLocked ?s5)" using g done4 by (intro maybeEOF_done) simp
  moreover have "rinv True fc c cs hi out (maybeEOFLocked ?s5)" using g(1) by (rule maybeEOF_inv)
  moreover have "ext ?s4 ?s5" using g(2) by (simp add: ext_def)
  then have e6: "ext s3 s6" using e4 by (auto simp: s6_def intro: ext_trans)
  ultimately show "keeps fc c cs hi out s s6"
    using e3 by (auto simp: keeps_def rok_def s6_def intro: ext_trans)
  show "recvd s6 (unat (readSeq s))" using r3 e6 by (simp add: ext_def)
qed


lemma rokD:
  assumes "rok fc c cs hi out s"
  shows "rinv True fc c cs hi out s" "rdone fc s" "rcore c cs hi out s" "rlive cs hi s"
    "rflow fc c cs hi out s" "racks s" "hi \<le> length cs" "\<not> readCanceled s"
  using assms by (simp_all add: rok_def rinv_def rcore_def rlive_def)

text \<open>A frame that arrives after the end of the stream has been delivered.\<close>

lemma deliver_after_eof:
  fixes pl :: bytes
  assumes ok: "rok fc c cs hi out s" and eof: "readErr s \<noteq> None" and sq: "unat sq \<le> length cs"
    and big: "length cs < 2 ^ 32 - 1"
  defines "s2 \<equiv> discardDelivery sq pl s"
  shows "keeps fc c cs hi out s s2" "unat sq < unat (readSeq s2)"
proof -
  define s1 where "s1 = (if pl \<noteq> [] then grantLocked (int (length pl)) s else s)"
  note o = rokD [OF ok]
  have n: "length cs \<le> unat (readSeq s)" "unat (readSeq s) \<le> Suc (length cs)" "finRecvd s"
    "readErr s = Some EOF" "hi = length cs"
    using o(4) eof by (auto simp: rlive_def)
  have none: "mget (reorder s) k = None" for k
    using o(3) n by (cases "mget (reorder s) k") (fastforce simp: rcore_def reorder_ok_def)+
  have s2: "s2 = s1\<lparr>readSeq := (if readSeq s \<le> sq then sq + 1 else readSeq s)\<rparr>"
    by (simp add: s2_def s1_def discardDelivery_def)
  have s1: "rcore c cs hi out s1 \<and> readErr s1 = Some EOF \<and> ackPendingSeqs s1 = ackPendingSeqs s
      \<and> ackReplaySeqs s1 = ackReplaySeqs s \<and> reorder s1 = reorder s \<and> readCanceled s1 = readCanceled s
      \<and> finRecvd s1 = finRecvd s \<and> finSeq s1 = finSeq s \<and> rring s1 = rring s
      \<and> readSeq s1 = readSeq s"
    using o(3) n by (auto simp: s1_def rcore_def reorder_ok_def)
  have suc: "unat (sq + 1) = Suc (unat sq)" using sq big by (simp add: unat_Suc32)
  have n2: "length cs \<le> unat (readSeq s2)" "unat (readSeq s2) \<le> Suc (length cs)"
    "unat (readSeq s) \<le> unat (readSeq s2)"
    using n sq suc by (auto simp: s2 word_le_unat)
  show "unat sq < unat (readSeq s2)" using suc by (auto simp: s2 word_le_unat)
  have ext: "ext s s2" using n2(3) none by (auto simp: ext_def recvd_def)
  have core2: "rcore c cs hi out s2"
    using s1 n n2 none by (auto simp: rcore_def reorder_ok_def s2)
  have live2: "rlive cs hi s2"
    using o(4) s1 n n2 unfolding rlive_def by (simp add: s2)
  have "racks s2" using o(6) ext s1 by (auto simp: racks_def ext_def s2)
  with core2 live2 s1 have "rok fc c cs hi out s2"
    by (simp add: rok_def rinv_def rflow_def rdone_def s2)
  then show "keeps fc c cs hi out s s2" using ext by (simp add: keeps_def)
qed

text \<open>Flow control also bounds what can be waiting out of order.\<close>

lemma room_out_of_order:
  assumes cs: "chunks_ok c cs" and ok: "rok True c cs hi out s" and live: "readErr s = None"
    and i: "i < hi" "unat (readSeq s) \<le> i" and fresh: "mget (reorder s) (of_nat i) = None"
  shows "reorderBytes s + int (length (cs ! i)) \<le> maxBufSize c"
proof -
  note o = rokD [OF ok]
  have ro: "reorder_ok cs hi s" and rb: "reorderBytes s = sumlen (reorder s)"
    and out: "out @ ring_list (rring s) = concat (take (unat (readSeq s)) cs)"
    using o(3) by (simp_all add: rcore_def)
  have po: "peerOffset s = int (length (readBuf (rring s))) + int (length out) - grantPending s"
    "0 \<le> grantPending s" "int (length (readBuf (rring s))) \<le> maxBufSize c"
    "int (length (concat (take hi cs))) \<le> peerOffset s"
    using o(5) live by (simp_all add: rflow_def)
  have "length out \<le> length (concat (take (unat (readSeq s)) cs))"
    using arg_cong [OF out, of length] by simp
  then show ?thesis
    using sumlen_bound [OF ro o(7) i fresh chunks_okD(1) [OF cs]] rb po by linarith
qed

text \<open>
  One delivery. \<open>retry\<close> stands for the FEC retries that follow a delivery and is assumed to keep the
  invariant; the recursion is tied below.
\<close>

lemma deliverBody_keeps:
  assumes cs: "chunks_ok c cs" and e: "ecfg e = c"
    and retry: "\<And>q t. rok fc c cs hi out t \<Longrightarrow> keeps fc c cs hi out t (retry q t)"
    and ok: "rok fc c cs hi out s" and i: "i < hi"
    and run: "deliverBody e retry s (of_nat i) (cs ! i) False = (ack, s')"
  shows "keeps fc c cs hi out s s' \<and> (ack \<longrightarrow> recvd s' i) \<and> (fc \<longrightarrow> ack)"
proof -
  define t where "t = markArrival e s"
  define u where "u = noteSeen (of_nat i) t"
  have tok: "rok fc c cs hi out t" and uok: "rok fc c cs hi out u" and eu: "ext s u" and et: "ext s t"
    using ok by (simp_all add: t_def u_def markArrival_def noteSeen_def)
  have big: "length cs < 2 ^ 32 - 1" using chunks_okD(1) [OF cs] .
  have hi: "hi \<le> length cs" using rokD(7) [OF ok] .
  have iu: "unat (of_nat i :: u32) = i" using i hi big by (intro unat_of_nat32) simp
  have can: "\<not> readCanceled t" using rokD(8) [OF tok] .
  show ?thesis
  proof (cases "readErr t = None")
    case False
    have "i \<le> length cs" using i hi by simp
    note a = deliver_after_eof [OF tok False, of "of_nat i" "cs ! i", unfolded iu, OF this big]
    have s': "ack" "s' = discardDelivery (of_nat i) (cs ! i) t"
      using run False by (simp_all add: deliverBody_def t_def [symmetric])
    then show ?thesis using a et by (auto simp: keeps_def recvd_def intro: ext_trans)
  next
    case live: True
    have lu: "readErr u = None" using live by (simp add: u_def noteSeen_def)
    have n: "unat (readSeq u) \<le> hi" using rokD(4) [OF uok] lu by (simp add: rlive_def)
    have body: "deliverBody e retry s (of_nat i) (cs ! i) False =
       (if of_nat i < readSeq u then (True, u)
        else if mget (reorder u) (of_nat i) \<noteq> None then (True, u)
        else if readSeq u < of_nat i then bufferAhead e retry (of_nat i) (cs ! i) u
        else acceptNext e retry (of_nat i) (cs ! i) u)"
      using live can by (simp add: deliverBody_def deliverData_def t_def [symmetric] u_def [symmetric])
    consider (dup) "i < unat (readSeq u)" | (buf) "\<not> i < unat (readSeq u)" "mget (reorder u) (of_nat i) \<noteq> None"
      | (ahead) "unat (readSeq u) < i" "mget (reorder u) (of_nat i) = None"
      | (inorder) "unat (readSeq u) = i" "mget (reorder u) (of_nat i) = None"
      by fastforce
    then show ?thesis
    proof cases
      case dup
      then have "ack" "s' = u" using run body iu by (simp_all add: word_less_unat)
      then show ?thesis using uok eu dup by (simp add: keeps_def recvd_def)
    next
      case buf
      then have "ack" "s' = u" using run body iu by (simp_all add: word_less_unat)
      then show ?thesis using uok eu buf i hi big by (simp add: keeps_def recvd_def)
    next
      case ahead
      show ?thesis
      proof (cases "maxBufSize c < reorderBytes u + int (length (cs ! i))")
        case True
        then have "\<not> ack" "s' = u" using run body iu ahead e by (simp_all add: word_less_unat bufferAhead_def)
        moreover have "\<not> fc"
          using room_out_of_order [OF cs _ lu i] uok ahead True by fastforce
        ultimately show ?thesis using uok eu by (simp add: keeps_def)
      next
        case False
        let ?s1 = "u\<lparr>reorder := mput (of_nat i) (cs ! i) (reorder u), reorderBytes := reorderBytes u + int (length (cs ! i))\<rparr>"
        let ?s2 = "maybeFastRetransmitLocked e (rcall CallStatReorder ?s1)"
        have i32: "i < 2 ^ 32" using i hi big by simp
        note ins = insert_inv [OF rokD(1,2) [OF uok] i ahead(1) i32 ahead(2)]
        have k2: "keeps fc c cs hi out u ?s2" using ins by (simp add: keeps_def)
        have r2: "recvd ?s2 i" using ins(3) fastRetransmit_keeps(2) [of ?s1 e "rcall CallStatReorder ?s1"]
          by (simp add: ext_def)
        have s': "ack" "s' = (if 0 < fecGroup c then retry (of_nat i) ?s2 else ?s2)"
          using run body iu ahead False e by (simp_all add: word_less_unat bufferAhead_def Let_def)
        have "keeps fc c cs hi out ?s2 s'"
          using s'(2) retry [of ?s2 "of_nat i"] keeps_refl [of fc c cs hi out ?s2] k2 by (simp add: keeps_def)
        then show ?thesis using s'(1) k2 r2 eu by (auto simp: keeps_def ext_def)
      qed
    next
      case inorder
      then have ri: "readSeq u = of_nat i" using of_nat_unat32 [of "readSeq u"] by simp
      obtain b s1 where f: "fitOrGrow e (length (cs ! i)) u = (b, s1)" by fastforce
      note g = fitOrGrow_inv [OF rokD(1) [OF uok] e f]
      have l1: "readErr s1 = None" and n1: "unat (readSeq s1) < hi"
        and fr1: "mget (reorder s1) (readSeq s1) = None" and rs1: "unat (readSeq s1) = i"
        using g lu inorder i ri by simp_all
      have e1: "ext s s1" using g(8) eu by (simp add: ext_def)
      show ?thesis
      proof (cases b)
        case False
        then have "\<not> ack" "s' = s1" using run body iu inorder f ri by (simp_all add: word_less_unat acceptNext_def)
        moreover have "\<not> fc"
          using room_in_order [of c cs hi out u] rokD(1) [OF uok] lu inorder i g(9) False by auto
        moreover have "rdone fc s1" using rokD(2) [OF uok] g by (simp add: rdone_def)
        ultimately show ?thesis using g(1) e1 by (simp add: keeps_def rok_def)
      next
        case True
        let ?s2 = "if 0 < fecGroup (ecfg e) then fecFoldRecvLocked e (readSeq s1) (cs ! unat (readSeq s1)) s1 else s1"
        let ?s3 = "?s2\<lparr>rring := ringWrite (cs ! unat (readSeq s1)) (rring ?s2), readSeq := readSeq ?s2 + 1\<rparr>"
        let ?s6 = "rcall CallReadBroadcast (maybeEOFLocked (maybeGrowLocked e (drainReorderLocked e ?s3)))"
        have fits: "ringFitsLocked (rring s1) (length (cs ! unat (readSeq s1)))"
          using g(2) [OF True] rs1 by simp
        note d = deliver_in_order [OF cs e g(1) l1 n1 fits fr1]
        have "acceptNext e retry (of_nat i) (cs ! i) u
            = (True, if 0 < fecGroup c then retry (of_nat i) ?s6 else ?s6)"
          using f True ri g(3) e iu by (simp add: acceptNext_def Let_def)
        moreover have "deliverBody e retry s (of_nat i) (cs ! i) False = acceptNext e retry (of_nat i) (cs ! i) u"
          using body inorder ri by simp
        ultimately have s': "ack" "s' = (if 0 < fecGroup c then retry (of_nat i) ?s6 else ?s6)"
          using run by simp_all
        have "keeps fc c cs hi out ?s6 s'"
          using s'(2) retry [of ?s6 "of_nat i"] keeps_refl [of fc c cs hi out ?s6] d(1)
          unfolding keeps_def by presburger
        then show ?thesis using s'(1) d rs1 e1 unfolding keeps_def ext_def by auto
      qed
    qed
  qed
qed


lemma deliverWith_keeps:
  assumes cs: "chunks_ok c cs" and e: "ecfg e = c"
    and retry: "\<And>q t. rok fc c cs hi out t \<Longrightarrow> keeps fc c cs hi out t (retry q t)"
    and ok: "rok fc c cs hi out s" and i: "i < hi"
    and run: "deliverWith e retry s (of_nat i) (cs ! i) False = (ack, s')"
  shows "keeps fc c cs hi out s s' \<and> (ack \<longrightarrow> recvd s' i) \<and> (fc \<longrightarrow> ack)"
proof -
  obtain s1 where b: "deliverBody e retry s (of_nat i) (cs ! i) False = (ack, s1)"
    and s': "s' = (if ack \<and> readSeq s1 \<le> of_nat i
                   then s1\<lparr>ackPendingSeqs := ackPendingSeqs s1 @ [of_nat i]\<rparr> else s1)"
    using run by (auto simp: deliverWith_def split: prod.splits if_splits)
  have k: "keeps fc c cs hi out s s1" "ack \<Longrightarrow> recvd s1 i" "fc \<Longrightarrow> ack"
    using deliverBody_keeps [OF cs e retry ok i b] by auto
  have "unat (of_nat i :: u32) = i"
    using i rokD(7) [OF ok] chunks_okD(1) [OF cs] by (intro unat_of_nat32) simp
  then have "rok fc c cs hi out s'"
    using k(1,2) s' by (auto simp: keeps_def rok_def rinv_def racks_def rcore_def)
  then show ?thesis using k s' by (auto simp: keeps_def)
qed

section \<open>Pending parities\<close>

lemma pendingOf_ok: "rok fc c cs hi out s \<Longrightarrow> pend_ok c cs hi row (pendingOf row s)"
  by (simp add: rok_def rinv_def rcore_def pendingOf_def)

lemma setPending_rok [simp]:
  assumes "rok fc c cs hi out s" "pend_ok c cs hi row m"
  shows "rok fc c cs hi out (setPending row m s)"
  using assms by (auto simp: setPending_def rok_def rinv_def rcore_def)

lemma setPending_sel [simp]:
  "reorder (setPending row m s) = reorder s" "readSeq (setPending row m s) = readSeq s"
  "pendingOf row (setPending row m s) = m" "accsOf r (setPending row m s) = accsOf r s"
  "ext t (setPending row m s) = ext t s"
  by (simp_all add: setPending_def pendingOf_def accsOf_def)

lemma pend_ok_mdel: "pend_ok c cs hi row m \<Longrightarrow> pend_ok c cs hi row (mdel k m)"
  by (auto simp: pend_ok_def mget_mdel split: if_splits)

lemma pend_ok_mput:
  "pend_ok c cs hi row m \<Longrightarrow>
   genuine (nat (fecGroup c)) cs (stride_of c row) (unat k) (pCount p) (pXorLen p) (pData p) \<Longrightarrow>
   unat k + (pCount p - 1) * stride_of c row < hi \<Longrightarrow> pend_ok c cs hi row (mput k p m)"
  by (auto simp: pend_ok_def mget_mput)

lemma keeps_setPending: "keeps fc c cs hi out (setPending row m s) t \<Longrightarrow> keeps fc c cs hi out s t"
  by (simp add: keeps_def ext_def setPending_def split: if_splits)

text \<open>A reconstruction attempt keeps the invariant if delivery does.\<close>

lemma tryReconstruct_keeps:
  assumes cs: "chunks_ok c cs" and e: "ecfg e = c" and ok: "rok fc c cs hi out s"
    and gen: "genuine (nat (fecGroup c)) cs (stride_of c row) (unat base) count xl xd"
    and in_hi: "unat base + (count - 1) * stride_of c row < hi"
    and dlv: "\<And>i. i < hi \<Longrightarrow> keeps fc c cs hi out s (dlv s (of_nat i) (cs ! i))"
    and run: "tryReconstructLocked e dlv row base count xl xd s = (outc, s')"
  shows "keeps fc c cs hi out s s' \<and> (outc \<noteq> fecRecovered \<longrightarrow> s' = s)"
proof -
  have hi: "hi \<le> length cs" using rokD(7) [OF ok] .
  have fec: "0 < fecGroup c" using gen by (auto simp: genuine_def)
  have ro: "reorder_ok cs hi s"
    and acc: "accs_ok (nat (dataCap c)) (nat (fecGroup c)) cs (stride_of c row) hi (accsOf row s)"
    using rokD(3) [OF ok] by (simp_all add: rcore_def accsOf_def)
  show ?thesis
  proof (cases rule: tryReconstruct_cases [OF cs e fec gen hi hi ro acc, of dlv, case_names same rebuilt])
    case (same o)
    then show ?thesis using run keeps_refl [OF ok] by auto
  next
    case (rebuilt m)
    have "m * stride_of c row \<le> (count - 1) * stride_of c row"
      using rebuilt(1) by (intro mult_le_mono1) simp
    then have "unat base + m * stride_of c row < hi" using in_hi by linarith
    from dlv [OF this] show ?thesis using rebuilt(2) run by auto
  qed
qed

lemma fecRetryBase_keeps:
  assumes cs: "chunks_ok c cs" and e: "ecfg e = c"
  shows "rok fc c cs hi out s \<Longrightarrow> keeps fc c cs hi out s (fecRetryBaseLocked e k row base s)"
proof (induction k arbitrary: row base s)
  case 0
  then show ?case by (simp add: keeps_refl)
next
  case (Suc k)
  show ?case
  proof (cases "mget (pendingOf row s) base")
    case None
    then show ?thesis using Suc.prems by (simp add: keeps_refl)
  next
    case (Some p)
    let ?s1 = "setPending row (mdel base (pendingOf row s)) s"
    let ?rt = "fecRetrySeqLocked e (fecRetryBaseLocked e k)"
    let ?dlv = "\<lambda>s sq d. snd (deliverWith e ?rt s sq d False)"
    have ok1: "rok fc c cs hi out ?s1"
      using pendingOf_ok [OF Suc.prems] by (intro setPending_rok Suc.prems pend_ok_mdel)
    have gen: "genuine (nat (fecGroup c)) cs (stride_of c row) (unat base) (pCount p) (pXorLen p) (pData p)"
      and in_hi: "unat base + (pCount p - 1) * stride_of c row < hi"
      using pendingOf_ok [OF Suc.prems, of row] Some by (simp_all add: pend_ok_def)
    have retry: "keeps fc c cs hi out t (?rt q t)" if "rok fc c cs hi out t" for q t
    proof -
      let ?a = "fecRetryBaseLocked e k False (fst (fecGroupOf (grp e) q)) t"
      have a: "keeps fc c cs hi out t ?a" by (rule Suc.IH [OF that])
      then have "keeps fc c cs hi out ?a (fecRetryBaseLocked e k True (fst (fecRowOf (grp e) q)) ?a)"
        by (intro Suc.IH) (simp add: keeps_def)
      with a show ?thesis by (auto simp: fecRetrySeqLocked_def Let_def intro: keeps_trans)
    qed
    have dlv: "keeps fc c cs hi out ?s1 (?dlv ?s1 (of_nat i) (cs ! i))" if "i < hi" for i
    proof -
      obtain ack t where r: "deliverWith e ?rt ?s1 (of_nat i) (cs ! i) False = (ack, t)" by fastforce
      from deliverWith_keeps [OF cs e retry ok1 that r] show ?thesis by (simp add: r)
    qed
    obtain outc s2 where t: "tryReconstructLocked e ?dlv row base (pCount p) (pXorLen p) (pData p) ?s1 = (outc, s2)"
      by fastforce
    note k2 = tryReconstruct_keeps [OF cs e ok1 gen in_hi dlv t]
    have step: "fecRetryBaseLocked e (Suc k) row base s =
        (case outc of fecPendingMembers \<Rightarrow> setPending row (mput base p (pendingOf row s2)) s2
         | fecRecovered \<Rightarrow> rcall CallStatFecRecovered s2 | fecUseless \<Rightarrow> s2)"
      using Some t by (simp add: Let_def split: fecOutcome.splits)
    have ok2: "rok fc c cs hi out s2" and k3: "keeps fc c cs hi out s s2"
      using k2 keeps_setPending by (auto simp: keeps_def)
    have "rok fc c cs hi out (setPending row (mput base p (pendingOf row s2)) s2)"
      using pendingOf_ok [OF ok2] gen in_hi by (intro setPending_rok ok2 pend_ok_mput)
    then show ?thesis
      unfolding step using k3 by (cases outc) (auto simp: keeps_def)
  qed
qed

lemma fecRetrySeq_keeps:
  assumes cs: "chunks_ok c cs" and e: "ecfg e = c" and ok: "rok fc c cs hi out s"
  shows "keeps fc c cs hi out s (fecRetrySeqLocked e (fecRetryBaseLocked e k) sq s)"
proof -
  let ?a = "fecRetryBaseLocked e k False (fst (fecGroupOf (grp e) sq)) s"
  have a: "keeps fc c cs hi out s ?a" by (rule fecRetryBase_keeps [OF cs e ok])
  then have "keeps fc c cs hi out ?a (fecRetryBaseLocked e k True (fst (fecRowOf (grp e) sq)) ?a)"
    by (intro fecRetryBase_keeps [OF cs e]) (simp add: keeps_def)
  with a show ?thesis by (auto simp: fecRetrySeqLocked_def Let_def intro: keeps_trans)
qed

section \<open>The entry points\<close>

lemma deliver_keeps:
  assumes "chunks_ok c cs" "ecfg e = c" "rok fc c cs hi out s" "i < hi"
    and "deliverLocked e s (of_nat i) (cs ! i) False = (ack, s')"
  shows "keeps fc c cs hi out s s' \<and> (ack \<longrightarrow> recvd s' i) \<and> (fc \<longrightarrow> ack)"
  using deliverWith_keeps [OF assms(1,2) _ assms(3,4) assms(5) [unfolded deliverLocked_def]]
    fecRetrySeq_keeps [OF assms(1,2)] by blast


text \<open>The peer's FIN, which takes the sequence position after the last chunk.\<close>

lemma deliver_fin_keeps:
  fixes e :: recvEnv
  assumes cs: "chunks_ok c cs" and ok: "rok fc c cs (length cs) out s"
  defines "s' \<equiv> snd (deliverLocked e s (of_nat (length cs)) [] True)"
  shows "keeps fc c cs (length cs) out s s'" "finRecvd s'"
proof -
  let ?sq = "of_nat (length cs) :: u32"
  define t where "t = markArrival e s"
  have big: "length cs < 2 ^ 32 - 1" by (rule chunks_okD(1) [OF cs])
  then have sq: "unat ?sq = length cs" by (intro unat_of_nat32) simp
  have tok: "rok fc c cs (length cs) out t" and et: "ext s t"
    using ok by (simp_all add: t_def markArrival_def)
  have can: "\<not> readCanceled t" using rokD(8) [OF tok] .
  have s': "s' = (if readErr t \<noteq> None then discardDelivery ?sq [] t
      else if ?sq < readSeq t then t else maybeEOFLocked (t\<lparr>finRecvd := True, finSeq := ?sq\<rparr>))"
    using can by (auto simp: s'_def deliverLocked_def deliverWith_def deliverBody_def t_def [symmetric])
  have "keeps fc c cs (length cs) out s s' \<and> finRecvd s'"
  proof (cases "readErr t = None")
    case False
    have le: "unat ?sq \<le> length cs" using sq by simp
    note a = deliver_after_eof [OF tok False le big, of "[]"]
    have "finRecvd t" using rokD(4) [OF tok] False by (auto simp: rlive_def)
    then have "finRecvd (discardDelivery ?sq [] t)" by (simp add: discardDelivery_def)
    then show ?thesis using a(1) False et by (auto simp: s' keeps_def intro: ext_trans)
  next
    case True
    have n: "unat (readSeq t) \<le> length cs" using rokD(4) [OF tok] True by (simp add: rlive_def)
    let ?u = "t\<lparr>finRecvd := True, finSeq := ?sq\<rparr>"
    have "rlive cs (length cs) ?u" using rokD(4) [OF tok] True sq unfolding rlive_def by simp
    then have "rinv True fc c cs (length cs) out ?u"
      using rokD(3,5,6) [OF tok] by (simp add: rinv_def rcore_def)
    then have "rinv True fc c cs (length cs) out (maybeEOFLocked ?u)" by (rule maybeEOF_inv)
    moreover have "rdone fc (maybeEOFLocked ?u)"
      using rokD(2) [OF tok] by (intro maybeEOF_done) (auto simp: rdone_def)
    moreover have "\<not> ?sq < readSeq t" using n sq by (simp add: word_less_unat)
    moreover have "finRecvd (maybeEOFLocked ?u)" by (simp add: maybeEOFLocked_def)
    ultimately show ?thesis using True et by (simp add: s' keeps_def rok_def)
  qed
  then show "keeps fc c cs (length cs) out s s'" "finRecvd s'" by auto
qed

lemma applyFec_keeps:
  assumes cs: "chunks_ok c cs" and e: "ecfg e = c" and ok: "rok fc c cs hi out s"
    and gen: "genuine (nat (fecGroup c)) cs (stride_of c row) (unat base) count xl xd"
    and in_hi: "unat base + (count - 1) * stride_of c row < hi"
  shows "keeps fc c cs hi out s (snd (applyFec e row base count xl xd s))"
proof -
  let ?dlv = "\<lambda>s sq d. snd (deliverLocked e s sq d False)"
  have dlv: "keeps fc c cs hi out s (?dlv s (of_nat i) (cs ! i))" if "i < hi" for i
  proof -
    obtain ack t where r: "deliverLocked e s (of_nat i) (cs ! i) False = (ack, t)" by fastforce
    from deliver_keeps [OF cs e ok that r] show ?thesis by (simp add: r)
  qed
  obtain outc s1 where t: "tryReconstructLocked e ?dlv row base count xl xd s = (outc, s1)" by fastforce
  note k = tryReconstruct_keeps [OF cs e ok gen in_hi dlv t]
  let ?pend = "pendingOf row s1"
  let ?pend' = "if mget ?pend base \<noteq> None then ?pend
      else if fecPendingCap \<le> length ?pend then evictOldest ?pend else ?pend"
  let ?p = "\<lparr>pCount = count, pXorLen = xl, pData = xd\<rparr>"
  have ok1: "rok fc c cs hi out s1" and e1: "ext s s1" using k by (auto simp: keeps_def)
  have "pend_ok c cs hi row ?pend'"
    using pendingOf_ok [OF ok1, of row] by (simp add: evictOldest_def pend_ok_mdel)
  then have p: "rok fc c cs hi out (setPending row (mput base ?p ?pend') s1)"
    using gen in_hi by (intro setPending_rok ok1 pend_ok_mput) simp_all
  show ?thesis
    using p ok ok1 e1 t
    by (cases outc) (auto simp: applyFec_def Let_def keeps_def split: fecOutcome.splits)
qed

text \<open>The application takes bytes out of the ring. The drain that follows does not look at the credit counter.\<close>

lemma growLocked_gp:
  "growLocked e n (s\<lparr>grantPending := x\<rparr>) = (fst (growLocked e n s), (snd (growLocked e n s))\<lparr>grantPending := x\<rparr>)"
  by (simp add: growLocked_def grantLocked_def rcall_def Let_def)

lemma fitOrGrow_gp:
  "fitOrGrow e n (s\<lparr>grantPending := x\<rparr>) = (fst (fitOrGrow e n s), (snd (fitOrGrow e n s))\<lparr>grantPending := x\<rparr>)"
  by (simp add: fitOrGrow_def growLocked_gp)

lemma fecFoldRecv_gp:
  "fecFoldRecvLocked e sq d (s\<lparr>grantPending := x\<rparr>) = (fecFoldRecvLocked e sq d s)\<lparr>grantPending := x\<rparr>"
  by (simp add: fecFoldRecvLocked_def fecSweepLocked_def Let_def split: prod.splits)

lemma drainOne_gp: "drainOne e d (s\<lparr>grantPending := x\<rparr>) = (drainOne e d s)\<lparr>grantPending := x\<rparr>"
proof -
  let ?t = "s\<lparr>rring := ringWrite d (rring s), reorder := mdel (readSeq s) (reorder s),
      reorderBytes := reorderBytes s - int (length d)\<rparr>"
  have eq: "(s\<lparr>grantPending := x\<rparr>)\<lparr>rring := ringWrite d (rring (s\<lparr>grantPending := x\<rparr>)),
      reorder := mdel (readSeq (s\<lparr>grantPending := x\<rparr>)) (reorder (s\<lparr>grantPending := x\<rparr>)),
      reorderBytes := reorderBytes (s\<lparr>grantPending := x\<rparr>) - int (length d)\<rparr> = ?t\<lparr>grantPending := x\<rparr>"
    by simp
  show ?thesis
    unfolding drainOne_def Let_def eq fecFoldRecv_gp by (simp add: rcall_def)
qed

lemma drain_gp:
  "drainReorderLocked e (s\<lparr>grantPending := x\<rparr>) = (drainReorderLocked e s)\<lparr>grantPending := x\<rparr>"
proof (induction e s rule: drainReorderLocked.induct)
  case (1 e s)
  show ?case
  proof (cases "mget (reorder s) (readSeq s)")
    case None
    then show ?thesis by (simp add: drainReorderLocked.simps [of e s] drainReorderLocked.simps [of e "s\<lparr>grantPending := x\<rparr>"])
  next
    case (Some d)
    obtain b s1 where f: "fitOrGrow e (length d) s = (b, s1)" by fastforce
    have "drainReorderLocked e ((drainOne e d s1)\<lparr>grantPending := x\<rparr>) = (drainReorderLocked e (drainOne e d s1))\<lparr>grantPending := x\<rparr>" if b
      using "1.IH" [OF Some f [symmetric] refl that] .
    then show ?thesis
      using Some f by (simp add: drainReorderLocked.simps [of e s] drainReorderLocked.simps [of e "s\<lparr>grantPending := x\<rparr>"]
        fitOrGrow_gp drainOne_gp)
  qed
qed

lemma maybeEOF_gp: "maybeEOFLocked (s\<lparr>grantPending := x\<rparr>) = (maybeEOFLocked s)\<lparr>grantPending := x\<rparr>"
  by (simp add: maybeEOFLocked_def rcall_def)

lemma drain_sel_gp: "grantPending (drainReorderLocked e s) = grantPending s"
  using arg_cong [OF drain_gp [of e "grantPending s" s], of grantPending] by simp

lemma Read_step:
  assumes cs: "chunks_ok c cs" and e: "ecfg e = c" and inv: "rinv lv fc c cs hi out s"
    and some: "readLen (rring s) \<noteq> 0" and run: "Read e want s = (r, s')"
  shows "\<exists>d. r = Returns (d, None) \<and> rinv lv fc c cs hi (out @ d) s' \<and> ext s s' \<and> (lv \<longrightarrow> rdone fc s')
    \<and> (0 < want \<longrightarrow> d \<noteq> [])"
proof -
  obtain d r1 where rr: "ringRead want (rring s) = (d, r1)" by fastforce
  have ok: "ring_ok (rring s)" using inv by (simp add: rinv_def rcore_def)
  have d: "d = take want (ring_list (rring s))" and ring: "ring_ok r1"
    "ring_list r1 = drop want (ring_list (rring s))" "length (readBuf r1) = length (readBuf (rring s))"
    using ringRead_ok [OF ok, of want] ringRead_out [OF ok, of want] ring_list_ringRead [OF ok, of want] rr
      ringRead_fields(1) [of want "rring s"] by auto
  let ?gp = "grantPending s + int (length d)"
  let ?g = "s\<lparr>rring := r1, grantPending := ?gp\<rparr>"
  have "rcore c cs hi (out @ d) ?g"
    using inv ring d by (simp add: rinv_def rcore_def)
  moreover have "rlive cs hi ?g" "racks ?g" "rflow fc c cs hi (out @ d) ?g" if lv
    using inv that ring by (auto simp: rinv_def rflow_def)
  ultimately have g: "rinv lv fc c cs hi (out @ d) ?g" by (simp add: rinv_def)
  note dr = drain_inv [OF cs e g]
  let ?m = "maybeEOFLocked (drainReorderLocked e ?g)"
  have m: "rinv lv fc c cs hi (out @ d) ?m" using dr maybeEOF_inv by blast
  have "ext s (drainReorderLocked e ?g)" using dr by (simp add: ext_def)
  then have em: "ext s ?m" by simp
  have dm: "rdone fc ?m" if lv
    using dr that by (intro maybeEOF_done) auto
  define m0 where "m0 = maybeEOFLocked (drainReorderLocked e (s\<lparr>rring := r1\<rparr>))"
  have "grantPending m0 = grantPending s"
    using drain_sel_gp [of e "s\<lparr>rring := r1\<rparr>"] by (simp add: m0_def maybeEOFLocked_def)
  then have swap: "m0\<lparr>grantPending := grantPending m0 + int (length d)\<rparr> = ?m"
    using drain_gp [of e ?gp "s\<lparr>rring := r1\<rparr>"] maybeEOF_gp by (simp add: m0_def)
  have "returnCredit (length d) m0 = (if int (length (readBuf (rring ?m)) div 4) \<le> grantPending ?m
      then grantLocked (grantPending ?m) (?m\<lparr>grantPending := 0\<rparr>) else ?m)"
    unfolding returnCredit_def Let_def swap by (rule refl)
  then have s': "r = Returns (d, None)" "s' = (if int (length (readBuf (rring ?m)) div 4) \<le> grantPending ?m
      then grantLocked (grantPending ?m) (?m\<lparr>grantPending := 0\<rparr>) else ?m)"
    using run some rr by (simp_all add: Read_def m0_def)
  have "rinv lv fc c cs hi (out @ d) (grantLocked (grantPending ?m) (?m\<lparr>grantPending := 0\<rparr>))"
    using m by (auto simp: rinv_def rcore_def rlive_def rflow_def racks_def reorder_ok_def)
  then have "rinv lv fc c cs hi (out @ d) s'" using m s'(2) by simp
  moreover have "ext s s'" using em s'(2) by simp
  moreover have "rdone fc s'" if lv using dm [OF that] s'(2) by (simp add: rdone_def)
  moreover have "d \<noteq> []" if "0 < want"
    using that some d length_ring_list [of "rring s"] by (auto simp del: length_ring_list)
  ultimately show ?thesis using s'(1) by blast
qed

end
