(* ===== verification/RecvRun.thy ===== *)
theory RecvRun
  imports RecvDeliver
begin

text \<open>
  Runs of a stream's receive side against a conforming sender, and what they guarantee. A run is any
  sequence of the events that can reach the read side: DATA frames lost, duplicated and reordered at
  will, the FIN, genuine parity frames in any order, reads of any size by the application, the periodic
  tail-NACK scan, acknowledgement snapshots, deadlines, cancellation, the peer's reset and connection
  teardown. Teardown fences ingress first (\<open>Connection.Close\<close> takes \<open>recvMu\<close> and clears the stream map
  before it calls \<open>deliverClose\<close>), so no frame is delivered after it.

  The state of a run is the phase, the number of chunks the sender has sent, the bytes the application
  has read, the set of chunks that have been delivered, and the read side itself. With \<open>fc\<close> the
  sender sends a chunk only within the offset it has been granted.
\<close>

datatype phase = Live | Closed | Aborted

inductive recvReach ::
  "bool \<Rightarrow> config \<Rightarrow> bytes list \<Rightarrow> phase \<Rightarrow> nat \<Rightarrow> bytes \<Rightarrow> nat set \<Rightarrow> readSide \<Rightarrow> bool"
  for fc c cs where
  start: "recvReach fc c cs Live 0 [] {} (newReadSide i c (streamBufSize c) now)"
| send: "recvReach fc c cs ph hi out got s \<Longrightarrow> hi < length cs \<Longrightarrow>
    (fc \<Longrightarrow> int (length (concat (take (Suc hi) cs))) \<le> peerOffset s) \<Longrightarrow>
    recvReach fc c cs ph (Suc hi) out got s"
| data: "recvReach fc c cs ph hi out got s \<Longrightarrow> ph \<noteq> Closed \<Longrightarrow> ecfg e = c \<Longrightarrow> i < hi \<Longrightarrow>
    recvReach fc c cs ph hi out (insert i got) (snd (deliverLocked e s (of_nat i) (cs ! i) False))"
| fin: "recvReach fc c cs ph (length cs) out got s \<Longrightarrow> ph \<noteq> Closed \<Longrightarrow> ecfg e = c \<Longrightarrow>
    recvReach fc c cs ph (length cs) out got (snd (deliverLocked e s (of_nat (length cs)) [] True))"
| parity: "recvReach fc c cs ph hi out got s \<Longrightarrow> ph \<noteq> Closed \<Longrightarrow> ecfg e = c \<Longrightarrow>
    genuine (nat (fecGroup c)) cs (stride_of c row) (unat base) count xorLen xorData \<Longrightarrow>
    unat base + (count - 1) * stride_of c row < hi \<Longrightarrow>
    recvReach fc c cs ph hi out got (snd (applyFec e row base count xorLen xorData s))"
| read: "recvReach fc c cs ph hi out got s \<Longrightarrow> ecfg e = c \<Longrightarrow>
    Read e want s = (Returns (d, er), s') \<Longrightarrow> recvReach fc c cs ph hi (out @ d) got s'"
| tail: "recvReach fc c cs ph hi out got s \<Longrightarrow> recvReach fc c cs ph hi out got (maybeTailNack e s)"
| ack: "recvReach fc c cs ph hi out got s \<Longrightarrow> recvReach fc c cs ph hi out got (snd (ackSnapshot s))"
| deadline: "recvReach fc c cs ph hi out got s \<Longrightarrow> recvReach fc c cs ph hi out got (SetReadDeadline t s)"
| cancel: "recvReach fc c cs ph hi out got s \<Longrightarrow> recvReach fc c cs Aborted hi out got (CancelRead code s)"
| reset: "recvReach fc c cs ph hi out got s \<Longrightarrow> ph \<noteq> Closed \<Longrightarrow>
    recvReach fc c cs Aborted hi out got (deliverReset code s)"
| close: "recvReach fc c cs ph hi out got s \<Longrightarrow>
    recvReach fc c cs (if ph = Aborted then Aborted else Closed) hi out got (stickyRead ErrStreamClosed s)"

section \<open>Starting and sending\<close>

lemma newRead_rok:
  assumes "chunks_ok c cs"
  shows "rok fc c cs 0 [] (newReadSide i c (streamBufSize c) now)"
proof -
  let ?w = "initialWindow c (streamBufSize c)"
  have w: "0 < ?w" "?w \<le> maxBufSize c"
    using assms initialWindow_bounds [of c] by (auto simp: chunks_ok_def config_ok_def)
  then have "ring_ok (newRing (nat ?w))" "length (readBuf (newRing (nat ?w))) = nat ?w"
    by (simp_all add: newRing_def ring_ok_def)
  then show ?thesis
    using w by (simp add: rok_def rinv_defs rdone_def newReadSide_def pend_ok_def sumlen_def)
qed

lemma acc_ok_mono: "acc_ok D g cs st n b a \<Longrightarrow> n \<le> n' \<Longrightarrow> acc_ok D g cs st n' b a"
  unfolding acc_ok_def by (meson order.strict_trans2)

lemma accs_ok_mono: "accs_ok D g cs st n m \<Longrightarrow> n \<le> n' \<Longrightarrow> accs_ok D g cs st n' m"
  by (auto simp: accs_ok_def intro: acc_ok_mono)

lemma rcore_mono:
  assumes "rcore c cs hi out s" "hi \<le> hi'" "hi' \<le> length cs"
  shows "rcore c cs hi' out s"
proof -
  note core = assms(1) [unfolded rcore_def]
  from core have "reorder_ok cs hi s" by simp
  then have ro: "reorder_ok cs hi' s"
    using assms(2) unfolding reorder_ok_def by (meson order.strict_trans2)
  have pend: "pend_ok c cs hi' row m" if "pend_ok c cs hi row m" for row m
    using that assms(2) unfolding pend_ok_def by (meson order.strict_trans2)
  have p: "pend_ok c cs hi' False (fecPending s)" "pend_ok c cs hi' True (fecPendingRow s)"
    using core by (auto intro: pend)
  have a: "accs_ok (nat (dataCap c)) (nat (fecGroup c)) cs (stride_of c False) hi' (fecAcc s)"
    "accs_ok (nat (dataCap c)) (nat (fecGroup c)) cs (stride_of c True) hi' (fecAccRow s)"
    using core assms(2) by (auto intro: accs_ok_mono)
  show ?thesis
    unfolding rcore_def using core ro p a assms(3) by (elim conjE) (intro conjI; assumption)
qed

lemma send_rok:
  assumes ok: "rok fc c cs hi out s" and hi: "hi < length cs"
    and fc: "fc \<Longrightarrow> int (length (concat (take (Suc hi) cs))) \<le> peerOffset s"
  shows "rok fc c cs (Suc hi) out s"
proof -
  note o = rokD [OF ok]
  have "rcore c cs (Suc hi) out s" using hi by (intro rcore_mono [OF o(3)]) simp_all
  moreover have "rlive cs (Suc hi) s" using o(4) hi by (auto simp: rlive_def)
  moreover have "rflow fc c cs (Suc hi) out s" using o(5) fc unfolding rflow_def by blast
  ultimately show ?thesis using o by (simp add: rok_def rinv_def)
qed

section \<open>Aborted streams\<close>

text \<open>Once reading has been aborted nothing enters the ring any more.\<close>

definition quiet :: "readSide \<Rightarrow> bool" where
  "quiet s \<longleftrightarrow> readLen (rring s) = 0 \<and> reorder s = [] \<and> readErr s \<noteq> None"

lemma quiet_upd [simp]:
  "quiet (s\<lparr>lastArrivalAt := t\<rparr>) = quiet s" "quiet (s\<lparr>lastNackAt := t\<rparr>) = quiet s"
  "quiet (s\<lparr>readSeq := w\<rparr>) = quiet s" "quiet (s\<lparr>ackPendingSeqs := ss\<rparr>) = quiet s"
  "quiet (s\<lparr>ackReplaySeqs := ss\<rparr>) = quiet s" "quiet (s\<lparr>readDeadline := t\<rparr>) = quiet s"
  "quiet (rcall cc s) = quiet s" "quiet (grantLocked d s) = quiet s"
  by (simp_all add: quiet_def)

lemma quiet_ops:
  "quiet s \<Longrightarrow> quiet (snd (deliverLocked e s sq pl f))"
  "quiet s \<Longrightarrow> quiet (snd (applyFec e row base count xl xd s))"
  "quiet s \<Longrightarrow> quiet (maybeTailNack e s)"
  "quiet s \<Longrightarrow> quiet (snd (ackSnapshot s))" "quiet s \<Longrightarrow> quiet (SetReadDeadline t s)"
  "quiet s \<Longrightarrow> quiet (stickyRead er s)"
  "quiet (deliverReset code s)" "quiet s \<or> \<not> readCanceled s \<Longrightarrow> quiet (CancelRead code s)"
proof -
  show "quiet (snd (deliverLocked e s sq pl f))" if "quiet s"
  proof -
    have "quiet (markArrival e s)" using that by (simp add: markArrival_def)
    then have "snd (deliverBody e rt s sq pl f) = discardDelivery sq pl (markArrival e s)" for rt
      by (simp add: deliverBody_def quiet_def Let_def)
    moreover have "quiet (discardDelivery sq pl (markArrival e s))"
      using \<open>quiet (markArrival e s)\<close> by (simp add: discardDelivery_def Let_def)
    ultimately show ?thesis by (simp add: deliverLocked_def deliverWith_def split_beta Let_def)
  qed
  show "quiet (snd (applyFec e row base count xl xd s))" if "quiet s"
    using that by (simp add: applyFec_def quiet_def)
  show "quiet (maybeTailNack e s)" if "quiet s"
    using that by (simp add: maybeTailNack_def quiet_def Let_def)
  show "quiet (snd (ackSnapshot s))" "quiet (SetReadDeadline t s)" "quiet (stickyRead er s)" if "quiet s"
    using that by (auto simp: ackSnapshot_def SetReadDeadline_def stickyRead_def Let_def) (simp add: quiet_def)
  show "quiet (deliverReset code s)"
    by (simp add: deliverReset_def discardReadStateLocked_def) (simp add: quiet_def)
  show "quiet (CancelRead code s)" if "quiet s \<or> \<not> readCanceled s"
    using that by (auto simp: CancelRead_def discardReadStateLocked_def Let_def) (simp_all add: quiet_def)
qed


section \<open>The invariant of a run\<close>

definition runInv ::
  "bool \<Rightarrow> config \<Rightarrow> bytes list \<Rightarrow> phase \<Rightarrow> nat \<Rightarrow> bytes \<Rightarrow> nat set \<Rightarrow> readSide \<Rightarrow> bool" where
  "runInv fc c cs ph hi out got s \<longleftrightarrow>
     (case ph of
        Live \<Rightarrow> rok fc c cs hi out s \<and> (fc \<longrightarrow> (\<forall>i \<in> got. recvd s i))
      | Closed \<Rightarrow> rinv False fc c cs hi out s \<and> readErr s \<noteq> None \<and> \<not> readCanceled s \<and>
                  (readErr s = Some EOF \<longrightarrow> length cs \<le> unat (readSeq s))
      | Aborted \<Rightarrow> quiet s \<and> (\<exists>rest. out @ rest = concat cs))"

lemma rcore_prefix: "rcore c cs hi out s \<Longrightarrow> \<exists>rest. out @ ring_list (rring s) @ rest = concat cs"
proof -
  assume "rcore c cs hi out s"
  then have "out @ ring_list (rring s) @ concat (drop (unat (readSeq s)) cs)
      = concat (take (unat (readSeq s)) cs) @ concat (drop (unat (readSeq s)) cs)"
    by (simp add: rcore_def)
  also have "\<dots> = concat cs" by (metis append_take_drop_id concat_append)
  finally show ?thesis by blast
qed

lemma ackSnapshot_rok: "rok fc c cs hi out s \<Longrightarrow> rok fc c cs hi out (snd (ackSnapshot s))"
  by (auto simp: ackSnapshot_def Let_def rok_def rinv_def rcore_def racks_def)

lemma ackSnapshot_ext: "ext s (snd (ackSnapshot s))"
  by (simp add: ackSnapshot_def Let_def)

lemma runInv_abort:
  assumes "runInv fc c cs ph hi out got s"
  shows "\<exists>rest. out @ rest = concat cs"
  using assms rcore_prefix [of c cs hi out s]
  by (cases ph) (auto simp: runInv_def rok_def rinv_def)

lemma runInv_not_canceled:
  "runInv fc c cs ph hi out got s \<Longrightarrow> quiet s \<or> \<not> readCanceled s"
  by (cases ph) (auto simp: runInv_def dest: rokD)

text \<open>A torn-down stream still hands out what it had put in order.\<close>

lemma Read_cases:
  assumes "Read e want s = (Returns (d, er), s')"
  obtains (err) "readLen (rring s) = 0" "d = []" "s' = s" "er \<noteq> None"
      "er = readErr s \<or> readErr s = None \<and> er = Some errDeadlineExceeded"
  | (data) "readLen (rring s) \<noteq> 0"
  using assms by (cases "readLen (rring s) = 0") (auto simp: Read_def split: option.splits if_splits)

lemma canceled_fields [simp]:
  "readCanceled (fecFoldRecvLocked e sq d s) = readCanceled s"
  "readCanceled (snd (fitOrGrow e n s)) = readCanceled s"
  "readCanceled (maybeEOFLocked s) = readCanceled s"
  "readErr (fecFoldRecvLocked e sq d s) = readErr s" "readErr (snd (fitOrGrow e n s)) = readErr s"
  by (simp_all add: fecFoldRecvLocked_def fecSweepLocked_def fitOrGrow_def growLocked_def maybeEOFLocked_def
      Let_def split: prod.splits)

lemma canceled_drainOne [simp]: "readCanceled (drainOne e d s) = readCanceled s" "readErr (drainOne e d s) = readErr s"
  by (simp_all add: drainOne_def Let_def)

lemma canceled_drain [simp]:
  "readCanceled (drainReorderLocked e s) = readCanceled s \<and> readErr (drainReorderLocked e s) = readErr s"
proof (induction e s rule: drainReorderLocked.induct)
  case (1 e s)
  show ?case
  proof (cases "mget (reorder s) (readSeq s)")
    case None
    then show ?thesis by (simp add: drainReorderLocked.simps [of e s])
  next
    case (Some d)
    obtain b s1 where f: "fitOrGrow e (length d) s = (b, s1)" by fastforce
    then have "readCanceled s1 = readCanceled s" "readErr s1 = readErr s"
      using canceled_fields(2,5) [of e "length d" s] by simp_all
    then show ?thesis
      using Some f "1.IH" [OF Some f [symmetric] refl] by (simp add: drainReorderLocked.simps [of e s])
  qed
qed

lemma Read_fields:
  assumes "Read e want s = (Returns (d, er), s')" "readErr s \<noteq> None"
  shows "readCanceled s' = readCanceled s" "readErr s' = readErr s"
    "mget (reorder s) (readSeq s) = None \<Longrightarrow> readSeq s' = readSeq s"
proof -
  show "readCanceled s' = readCanceled s"
    using assms by (auto simp: Read_def returnCredit_def Let_def split: option.splits if_splits prod.splits)
  show "readErr s' = readErr s"
    using assms by (auto simp: Read_def returnCredit_def maybeEOFLocked_def Let_def
        split: option.splits if_splits prod.splits)
  assume "mget (reorder s) (readSeq s) = None"
  then show "readSeq s' = readSeq s"
    using assms by (auto simp: Read_def returnCredit_def maybeEOFLocked_def Let_def
        drainReorderLocked.simps split: option.splits if_splits prod.splits)
qed


lemma runInv_holds:
  assumes "recvReach fc c cs ph hi out got s" "chunks_ok c cs"
  shows "runInv fc c cs ph hi out got s"
  using assms
proof (induction rule: recvReach.induct)
  case (start i now)
  then show ?case using newRead_rok by (simp add: runInv_def)
next
  case (send ph hi out got s)
  have "rinv False fc c cs (Suc hi) out s" if "rinv False fc c cs hi out s"
    using that send(2) rcore_mono [of c cs hi out s "Suc hi"] by (simp add: rinv_def)
  then show ?case
    using send send_rok [of fc c cs hi out s] by (cases ph) (auto simp: runInv_def)
next
  case (data ph hi out got s e i)
  obtain a s' where r: "deliverLocked e s (of_nat i) (cs ! i) False = (a, s')" by fastforce
  show ?case
  proof (cases ph)
    case Live
    then have "rok fc c cs hi out s" and got: "fc \<Longrightarrow> \<forall>i \<in> got. recvd s i" using data by (auto simp: runInv_def)
    from deliver_keeps [OF data.prems data(3) this(1) data(4) r]
    show ?thesis using Live got by (auto simp: r runInv_def keeps_def ext_def)
  next
    case Closed
    then show ?thesis using data by simp
  next
    case Aborted
    then show ?thesis using data quiet_ops(1) by (simp add: runInv_def)
  qed
next
  case (fin ph out got s e)
  show ?case
  proof (cases ph)
    case Live
    then show ?thesis
      using fin deliver_fin_keeps(1) [OF fin.prems, of fc out s e] by (auto simp: runInv_def keeps_def ext_def)
  qed (use fin quiet_ops(1) in \<open>auto simp: runInv_def\<close>)
next
  case (parity ph hi out got s e row base count xorLen xorData)
  show ?case
  proof (cases ph)
    case Live
    then show ?thesis
      using parity applyFec_keeps [OF parity.prems parity(3) _ parity(4,5), of fc out s]
      by (auto simp: runInv_def keeps_def ext_def)
  qed (use parity quiet_ops(2) in \<open>auto simp: runInv_def\<close>)
next
  case (read ph hi out got s e want d er s')
  show ?case
  proof (cases ph)
    case Live
    then have ok: "rok fc c cs hi out s" and got: "fc \<Longrightarrow> \<forall>i \<in> got. recvd s i"
      using read by (auto simp: runInv_def)
    from read(3) show ?thesis
    proof (cases rule: Read_cases)
      case err
      then show ?thesis using read Live by simp
    next
      case data
      then show ?thesis
        using Read_step [OF read.prems read(2) rokD(1) [OF ok] data read(3)] Live got
        by (auto simp: runInv_def rok_def ext_def)
    qed
  next
    case Closed
    then have inv: "rinv False fc c cs hi out s" and er: "readErr s \<noteq> None" "\<not> readCanceled s"
      and eof: "readErr s = Some EOF \<Longrightarrow> length cs \<le> unat (readSeq s)"
      using read by (auto simp: runInv_def)
    note fields = Read_fields [OF read(3) er(1)]
    from read(3) show ?thesis
    proof (cases rule: Read_cases)
      case err
      then show ?thesis using read Closed by simp
    next
      case data
      have "length cs \<le> unat (readSeq s')" if "readErr s = Some EOF"
      proof -
        have "mget (reorder s) (readSeq s) = None"
          using inv eof [OF that] by (cases "mget (reorder s) (readSeq s)")
            (fastforce simp: rinv_def rcore_def reorder_ok_def)+
        then show ?thesis using fields(3) eof [OF that] by simp
      qed
      then show ?thesis
        using Read_step [OF read.prems read(2) inv data read(3)] Closed er fields(1,2)
        by (auto simp: runInv_def)
    qed
  next
    case Aborted
    then show ?thesis using read by (auto simp: runInv_def quiet_def elim!: Read_cases)
  qed
next
  case (tail ph hi out got s e)
  moreover have "maybeTailNack e s = s" if "readErr s \<noteq> None" using that by (simp add: maybeTailNack_def)
  moreover have "recvd (maybeTailNack e s) k = recvd s k" for k
    by (simp add: maybeTailNack_def fireNackLocked_def Let_def)
  ultimately show ?case
    using quiet_ops(3) by (cases ph) (auto simp: runInv_def)
next
  case (ack ph hi out got s)
  have "recvd (snd (ackSnapshot s)) k = recvd s k" for k by (simp add: ackSnapshot_def Let_def)
  moreover have "rinv False fc c cs hi out (snd (ackSnapshot s)) = rinv False fc c cs hi out s"
    "readErr (snd (ackSnapshot s)) = readErr s" "readCanceled (snd (ackSnapshot s)) = readCanceled s"
    "readSeq (snd (ackSnapshot s)) = readSeq s"
    by (simp_all add: ackSnapshot_def Let_def rinv_def rcore_def)
  ultimately show ?case
    using ack ackSnapshot_rok quiet_ops(4) by (cases ph) (auto simp: runInv_def)
next
  case (deadline ph hi out got s t)
  then show ?case using quiet_ops(5) by (cases ph) (auto simp: runInv_def SetReadDeadline_def)
next
  case (cancel ph hi out got s code)
  then have inv: "runInv fc c cs ph hi out got s" by blast
  from quiet_ops(8) [OF runInv_not_canceled [OF inv]] runInv_abort [OF inv]
  show ?case by (simp add: runInv_def)
next
  case (reset ph hi out got s code)
  then have inv: "runInv fc c cs ph hi out got s" by blast
  from quiet_ops(7) runInv_abort [OF inv] show ?case by (simp add: runInv_def)
next
  case (close ph hi out got s)
  have live: "rinv False fc c cs hi out s \<and> \<not> readCanceled s \<and> (readErr s = Some EOF \<longrightarrow> length cs \<le> unat (readSeq s))"
    if "rok fc c cs hi out s"
    using rokD(3,4) [OF that] by (auto simp: rinv_def rlive_def)
  have "runInv fc c cs Closed hi out got (stickyRead ErrStreamClosed s)" if "ph \<noteq> Aborted"
    using close that live by (cases ph) (auto simp: runInv_def stickyRead_def rinv_def rcore_def)
  then show ?case using close quiet_ops(6) by (auto simp: runInv_def)
qed

end
