(* ===== verification/RecvProps.thy ===== *)
theory RecvProps
  imports RecvRun
begin

text \<open>
  The guarantees of the receive side, as theorems about runs (theory \<open>RecvRun\<close>) and about single
  operations: the application reads a prefix of what the peer wrote and EOF only at its end; frames
  within the granted window are never refused; a completely received stream ends; acknowledgements
  claim only what is held; a parity rebuilds a single missing frame; NACKs list exactly the gaps.
\<close>

section \<open>A small instance for the witnesses\<close>

definition demoRecvCfg :: config where
  "demoRecvCfg = defaultConfig\<lparr>streamBufSize := 64, maxPayload := 12, fecGroup := 2\<rparr>"

definition demoChunks :: "bytes list" where
  "demoChunks = [[1], [2, 3], [4], [5]]"

definition demoEnv :: recvEnv where
  "demoEnv = \<lparr>ecfg = demoRecvCfg, enow = 5, erto = 100, egrace = 10, estale = (\<lambda>_. 9)\<rparr>"

definition demoStart :: readSide where
  "demoStart = newReadSide 1 demoRecvCfg (streamBufSize demoRecvCfg) 1"

lemma demo_ok: "chunks_ok demoRecvCfg demoChunks"
  by (simp add: chunks_ok_def config_ok_def dataCap_def demoRecvCfg_def demoChunks_def defaultConfig_def
      default_defs defaultMaxPayloadSize_def duration_units fecMetaLen_def)

lemma demo_env [simp]: "ecfg demoEnv = demoRecvCfg"
  by (simp add: demoEnv_def)

lemma demo_peerOffset: "peerOffset demoStart = 64"
  by (simp add: demoStart_def newReadSide_def initialWindow_def initialStreamWindow_def demoRecvCfg_def defaultConfig_def)

lemma demo_sent: "k \<le> 4 \<Longrightarrow> recvReach fc demoRecvCfg demoChunks Live k [] {} demoStart"
proof (induction k)
  case 0
  show ?case unfolding demoStart_def by (rule recvReach.start)
next
  case (Suc k)
  have "int (length (concat (take (Suc k) demoChunks))) \<le> int (length (concat demoChunks))"
    using take_concat_mono [of "Suc k" "length demoChunks" demoChunks] Suc.prems by (simp add: demoChunks_def)
  then have "int (length (concat (take (Suc k) demoChunks))) \<le> peerOffset demoStart"
    unfolding demo_peerOffset by (simp add: demoChunks_def)
  then show ?case using Suc by (intro recvReach.send) (simp_all add: demoChunks_def)
qed

section \<open>Reading\<close>

lemma run_prefix:
  assumes "chunks_ok c cs" and "recvReach fc c cs ph hi out got s"
  shows "(\<exists>rest. out @ ring_list (rring s) @ rest = concat cs) \<and>
    (\<forall>e want d s'. Read e want s = (Returns (d, Some EOF), s') \<and> ph \<noteq> Aborted \<longrightarrow> d = [] \<and> out = concat cs)"
proof -
  have inv: "runInv fc c cs ph hi out got s" by (rule runInv_holds [OF assms(2,1)])
  have "\<exists>rest. out @ ring_list (rring s) @ rest = concat cs"
    using inv rcore_prefix [of c cs hi out s]
    by (cases ph) (auto simp: runInv_def rok_def rinv_def quiet_def ring_list_def)
  moreover have "d = [] \<and> out = concat cs"
    if r: "Read e want s = (Returns (d, Some EOF), s')" "ph \<noteq> Aborted" for e want d s'
  proof -
    have e: "readLen (rring s) = 0" "d = []" "readErr s = Some EOF"
      using r by (auto simp: Read_def split: option.splits if_splits prod.splits)
    then have "length cs \<le> unat (readSeq s)" and "rcore c cs hi out s"
      using inv r(2) by (cases ph; auto simp: runInv_def rok_def rinv_def rlive_def)+
    then show ?thesis using e by (simp add: rcore_def ring_list_def)
  qed
  ultimately show ?thesis by blast
qed



section \<open>Acceptance and completion\<close>

lemma recvd_held:
  assumes "reorder_ok cs hi s" "recvd s k"
  shows "k < unat (readSeq s) \<or> mget (reorder s) (of_nat k) = Some (cs ! k)"
proof (cases "k < unat (readSeq s)")
  case False
  then obtain d where d: "k < 2 ^ 32" "mget (reorder s) (of_nat k) = Some d"
    using assms(2) by (auto simp: recvd_def)
  then have "d = cs ! unat (of_nat k :: u32)" using assms(1) unfolding reorder_ok_def by blast
  then show ?thesis using d unat_of_nat32 [OF d(1)] by simp
qed simp

lemma run_accepts:
  assumes "chunks_ok c cs" and "recvReach True c cs Live hi out got s" and "ecfg e = c" and "i < hi"
  shows "fst (deliverLocked e s (of_nat i) (cs ! i) False) \<and>
    (let s' = snd (deliverLocked e s (of_nat i) (cs ! i) False)
     in i < unat (readSeq s') \<or> mget (reorder s') (of_nat i) = Some (cs ! i))"
proof -
  have "rok True c cs hi out s" using runInv_holds [OF assms(2,1)] by (simp add: runInv_def)
  moreover obtain a s' where r: "deliverLocked e s (of_nat i) (cs ! i) False = (a, s')" by fastforce
  ultimately have k: "keeps True c cs hi out s s'" "a" "recvd s' i"
    using deliver_keeps [OF assms(1,3) _ assms(4) r] by auto
  have "reorder_ok cs hi s'" using k(1) by (simp add: keeps_def rok_def rinv_def rcore_def)
  from recvd_held [OF this k(3)] show ?thesis using k(2) r by (simp add: Let_def)
qed

text \<open>C9 (liveness). No frame within the window is refused: as long as the sender respects the granted
  offset, every DATA frame that arrives on a live stream is accepted, and is afterwards either delivered
  in order or held for reordering, whatever is already buffered.\<close>

theorem recv_accepts_within_window:
  assumes "chunks_ok c cs" and "recvReach True c cs Live hi out got s" and "ecfg e = c" and "i < hi"
  shows "fst (deliverLocked e s (of_nat i) (cs ! i) False) \<and>
    (let s' = snd (deliverLocked e s (of_nat i) (cs ! i) False)
     in i < unat (readSeq s') \<or> mget (reorder s') (of_nat i) = Some (cs ! i))"
  by (rule run_accepts [OF assms])

theorem recv_accepts_within_window_witness:
  "fst (deliverLocked demoEnv demoStart 3 [5] False) \<and>
   (let s' = snd (deliverLocked demoEnv demoStart 3 [5] False)
    in 3 < unat (readSeq s') \<or> mget (reorder s') 3 = Some [5])"
  using recv_accepts_within_window [OF demo_ok demo_sent [of 4] demo_env, of 3] by (simp add: demoChunks_def)

lemma run_complete:
  assumes "chunks_ok c cs" and "recvReach True c cs Live (length cs) out {..<length cs} s" and "finRecvd s"
  shows "readErr s = Some EOF \<and> out @ ring_list (rring s) = concat cs \<and>
    (\<forall>e want. ecfg e = c \<and> 0 < want \<longrightarrow> (\<exists>d. d \<noteq> [] \<and> fst (Read e want s) = Returns (d, None)) \<or>
       out = concat cs \<and> fst (Read e want s) = Returns ([], Some EOF))"
proof -
  have "runInv True c cs Live (length cs) out {..<length cs} s" by (rule runInv_holds [OF assms(2,1)])
  then have ok: "rok True c cs (length cs) out s" and got: "\<forall>i<length cs. recvd s i"
    by (auto simp: runInv_def)
  note o = rokD [OF ok]
  have eof: "readErr s = Some EOF"
  proof (rule ccontr)
    assume "readErr s \<noteq> Some EOF"
    then have none: "readErr s = None" using o(4) by (auto simp: rlive_def)
    then have fin: "unat (readSeq s) < length cs" "mget (reorder s) (readSeq s) = None"
      using o(2,4) assms(3) by (auto simp: rdone_def rlive_def word_less_unat)
    then have "recvd s (unat (readSeq s))" using got by blast
    then show False using fin by (simp add: recvd_def)
  qed
  then have n: "length cs \<le> unat (readSeq s)" using o(4) by (auto simp: rlive_def)
  then have all: "out @ ring_list (rring s) = concat cs" using o(3) by (simp add: rcore_def)
  have "(\<exists>d. d \<noteq> [] \<and> fst (Read e want s) = Returns (d, None)) \<or>
       out = concat cs \<and> fst (Read e want s) = Returns ([], Some EOF)" if e: "ecfg e = c" "0 < want" for e want
  proof (cases "readLen (rring s) = 0")
    case True
    then show ?thesis using eof all by (simp add: Read_def ring_list_def)
  next
    case False
    obtain r s' where r: "Read e want s = (r, s')" by fastforce
    show ?thesis using Read_step [OF assms(1) e(1) o(1) False r] e(2) r by auto
  qed
  then show ?thesis using eof all by blast
qed

text \<open>C8 (liveness). A stream all of whose chunks and whose FIN have been received is complete: the read
  side has reached EOF, everything the peer wrote is read or waits in the ring, and no Read blocks
  any more; it returns data, or EOF when nothing is left.\<close>

theorem recv_complete:
  assumes "chunks_ok c cs" and "recvReach True c cs Live (length cs) out {..<length cs} s" and "finRecvd s"
  shows "readErr s = Some EOF \<and> out @ ring_list (rring s) = concat cs \<and>
    (\<forall>e want. ecfg e = c \<and> 0 < want \<longrightarrow> (\<exists>d. d \<noteq> [] \<and> fst (Read e want s) = Returns (d, None)) \<or>
       out = concat cs \<and> fst (Read e want s) = Returns ([], Some EOF))"
  by (rule run_complete [OF assms])

definition demoDeliver :: "nat list \<Rightarrow> readSide" where
  "demoDeliver is = fold (\<lambda>i s. snd (deliverLocked demoEnv s (of_nat i) (demoChunks ! i) False)) is demoStart"

lemma demo_delivered:
  "set is \<subseteq> {..<4} \<Longrightarrow> recvReach fc demoRecvCfg demoChunks Live 4 [] (set is) (demoDeliver is)"
proof (induction "is" rule: rev_induct)
  case Nil
  show ?case using demo_sent [of 4 fc] by (simp add: demoDeliver_def)
next
  case (snoc i "is")
  then have "recvReach fc demoRecvCfg demoChunks Live 4 [] (set is) (demoDeliver is)" by simp
  from recvReach.data [OF this _ demo_env, of i] snoc.prems show ?case by (simp add: demoDeliver_def)
qed

definition demoComplete :: readSide where
  "demoComplete = snd (deliverLocked demoEnv (demoDeliver [3, 1, 0, 2]) 4 [] True)"

theorem recv_complete_witness:
  "readErr demoComplete = Some EOF \<and> [] @ ring_list (rring demoComplete) = concat demoChunks \<and>
    (\<exists>d. d \<noteq> [] \<and> fst (Read demoEnv 2 demoComplete) = Returns (d, None))"
proof -
  have len: "length demoChunks = 4" by (simp add: demoChunks_def)
  have d: "recvReach True demoRecvCfg demoChunks Live (length demoChunks) [] {..<length demoChunks} (demoDeliver [3, 1, 0, 2])"
  proof -
    have "set [3, 1, 0, 2] = {..<4 :: nat}" by (auto simp: lessThan_def)
    then show ?thesis using demo_delivered [of "[3, 1, 0, 2]" True] by (simp only: len)
  qed
  have r: "recvReach True demoRecvCfg demoChunks Live (length demoChunks) [] {..<length demoChunks} demoComplete"
    using recvReach.fin [OF d _ demo_env] len by (simp add: demoComplete_def)
  have "rok True demoRecvCfg demoChunks (length demoChunks) [] (demoDeliver [3, 1, 0, 2])"
    using runInv_holds [OF d demo_ok] by (simp add: runInv_def)
  from deliver_fin_keeps(2) [OF demo_ok this, of demoEnv] have "finRecvd demoComplete"
    by (simp add: demoComplete_def len)
  from recv_complete [OF demo_ok r this] show ?thesis
    using demo_env by (fastforce simp: demoChunks_def)
qed

section \<open>Acknowledgements\<close>



section \<open>Forward error correction\<close>

text \<open>A member of a group is at hand when it is buffered or folded into the group's accumulator.\<close>

definition at_hand :: "readSide \<Rightarrow> bool \<Rightarrow> u32 \<Rightarrow> nat \<Rightarrow> nat \<Rightarrow> bool" where
  "at_hand s row base st i \<longleftrightarrow> mget (reorder s) (of_nat (unat base + i * st)) \<noteq> None \<or>
     (\<exists>a. mget (accsOf row s) base = Some a \<and> bit (aFolded a) i)"

lemma tryReconstruct_finds:
  assumes cs: "chunks_ok c cs" and e: "ecfg e = c" and fec: "0 < fecGroup c"
    and gen: "genuine (nat (fecGroup c)) cs (stride_of c row) (unat base) count xl xd"
    and hi: "hi \<le> length cs" and ro: "reorder_ok cs hi s"
    and acc: "accs_ok D (nat (fecGroup c)) cs (stride_of c row) hi (accsOf row s)"
    and m: "m < count" "\<not> at_hand s row base (stride_of c row) m"
      "unat (readSeq s) \<le> unat base + m * stride_of c row"
    and rest: "\<forall>i<count. i \<noteq> m \<longrightarrow> at_hand s row base (stride_of c row) i"
  shows "tryReconstructLocked e dlv row base count xl xd s =
     (fecRecovered, dlv s (of_nat (unat base + m * stride_of c row)) (cs ! (unat base + m * stride_of c row)))"
proof -
  let ?st = "stride_of c row" and ?g = "nat (fecGroup c)"
  let ?a = "mget (accsOf row s) base"
  let ?f = "case ?a of None \<Rightarrow> 0 | Some a \<Rightarrow> aFolded a"
  have st: "0 < ?st" using fec by (simp add: stride_of_def)
  have sq: "base + of_nat i * of_nat ?st = of_nat (unat base + i * ?st)" for i by (rule seq_word) simp_all
  have hm: "have_member s ?f base (of_nat ?st) i \<longleftrightarrow> at_hand s row base ?st i" for i
    unfolding have_member_def at_hand_def sq by (cases ?a) auto
  have small: "unat base + i * ?st < 2 ^ 32" if "i < count" for i
    using genuine_member [OF gen that] chunks_okD(1) [OF cs] by linarith
  have ge: "readSeq s \<le> base + of_nat m * of_nat ?st"
    unfolding sq word_le_unat unat_of_nat32 [OF small [OF m(1)]] by (rule m(3))
  have scan: "scanMembers s ?f base (of_nat ?st) [0..<count] None = Inr (Some m)"
    using m rest ge hm by (intro scan_finds) auto
  have accs: "(if row then fecAccRow s else fecAcc s) = accsOf row s" by (simp add: accsOf_def)
  have size: "\<not> (case ?a of None \<Rightarrow> False | Some a \<Rightarrow> length xd < aMaxLen a)"
  proof (cases ?a)
    case (Some a)
    then have "acc_ok D ?g cs ?st hi (unat base) a" using acc by (simp add: accs_ok_def)
    then obtain i where i: "i < ?g" "unat base + i * ?st < hi" "length (member cs ?st (unat base) i) = aMaxLen a"
      by (auto simp: acc_ok_def)
    then have "i < count" using genuine_folded_inside [OF gen] hi st by simp
    then show ?thesis using gen i(3) Some by (auto simp: genuine_def)
  qed simp
  have guard: "\<not> base + (of_nat count - 1) * of_nat ?st < readSeq s"
  proof -
    have c1: "(of_nat count - 1 :: u32) = of_nat (count - 1)" using m(1) by (cases count) simp_all
    have "m * ?st \<le> (count - 1) * ?st" using m(1) by (intro mult_le_mono1) simp
    then have "unat (readSeq s) \<le> unat base + (count - 1) * ?st" using m(3) by linarith
    then show ?thesis
      unfolding c1 sq word_less_unat using unat_of_nat32 [OF small [of "count - 1"]] m(1) by simp
  qed
  show ?thesis
    by (rule tryReconstruct_rebuild [OF cs e fec gen hi hi ro acc guard size scan])
qed

text \<open>C16 (functional). Zero-round-trip recovery. When a genuine parity arrives and all but one member of its
  group are at hand, buffered out of order or folded into the group's running XOR, applyFec
  reports a recovery and the missing chunk is delivered or held with exactly the bytes the peer sent.\<close>

theorem fec_recovers_single_loss:
  assumes "chunks_ok c cs" and "recvReach True c cs Live hi out got s" and "ecfg e = c"
    and "readErr s = None"
    and "genuine (nat (fecGroup c)) cs (stride_of c row) (unat base) count xorLen xorData"
    and "unat base + (count - 1) * stride_of c row < hi"
    and "if row then base mod grp e = 0 else base mod (grp e * grp e) < grp e"
    and "m < count" and "unat (readSeq s) \<le> unat base + m * stride_of c row"
    and "\<not> at_hand s row base (stride_of c row) m"
    and "\<forall>i<count. i \<noteq> m \<longrightarrow> at_hand s row base (stride_of c row) i"
  shows "let k = unat base + m * stride_of c row; (recovered, s') = applyFec e row base count xorLen xorData s in
    recovered \<and> (k < unat (readSeq s') \<or> mget (reorder s') (of_nat k) = Some (cs ! k))"
proof -
  let ?k = "unat base + m * stride_of c row"
  let ?dlv = "\<lambda>s sq d. snd (deliverLocked e s sq d False)"
  have ok: "rok True c cs hi out s" using runInv_holds [OF assms(2,1)] by (simp add: runInv_def)
  note o = rokD [OF ok]
  have fec: "0 < fecGroup c" using assms(5) by (auto simp: genuine_def)
  have ro: "reorder_ok cs hi s"
    and acc: "accs_ok (nat (dataCap c)) (nat (fecGroup c)) cs (stride_of c row) hi (accsOf row s)"
    using o(3) by (simp_all add: rcore_def accsOf_def)
  have "m * stride_of c row \<le> (count - 1) * stride_of c row" using assms(8) by (intro mult_le_mono1) simp
  then have k: "?k < hi" using assms(6) by linarith
  have t: "tryReconstructLocked e ?dlv row base count xorLen xorData s
      = (fecRecovered, snd (deliverLocked e s (of_nat ?k) (cs ! ?k) False))"
    by (rule tryReconstruct_finds [OF assms(1,3) fec assms(5) o(7) ro acc assms(8,10,9,11)])
  have "applyFec e row base count xorLen xorData s = (True, snd (deliverLocked e s (of_nat ?k) (cs ! ?k) False))"
    using t o(8) assms(4,7) by (auto simp: applyFec_def not_le)
  moreover obtain a s' where r: "deliverLocked e s (of_nat ?k) (cs ! ?k) False = (a, s')" by fastforce
  moreover from deliver_keeps [OF assms(1,3) ok k r] have kp: "keeps True c cs hi out s s'" "recvd s' ?k" by auto
  moreover have "reorder_ok cs hi s'" using kp(1) by (simp add: keeps_def rok_def rinv_def rcore_def)
  ultimately show ?thesis
    using recvd_held [of cs hi s' ?k] by (simp add: Let_def)
qed

lemmas demo_eval = demoDeliver_def demoStart_def demoEnv_def demoChunks_def demoRecvCfg_def defaultConfig_def
  newReadSide_def initialWindow_def initialStreamWindow_def deliverLocked_def deliverWith_def deliverBody_def
  markArrival_def noteSeen_def deliverData_def bufferAhead_def maxBufSize_def mput_def mget_def rcall_def
  maybeFastRetransmitLocked_def fecRetrySeqLocked_def pendings_def reorderGetLocked_def go_copy_def

lemma demo_ahead:
  "reorder (demoDeliver [2]) = [(2, [4])]" "readSeq (demoDeliver [2]) = 0" "readErr (demoDeliver [2]) = None"
  "fecAcc (demoDeliver [2]) = []"
  by (simp_all add: demo_eval fireNackLocked_def Let_def nackGaps_def nackHi_def)

lemma demo_genuine: "genuine (nat (fecGroup demoRecvCfg)) demoChunks (stride_of demoRecvCfg False) (unat (0 :: u32)) 2 0 [5]"
proof -
  have [simp]: "{..<2 :: nat} = {0, 1}" by auto
  show ?thesis
    by (auto simp: genuine_def demoRecvCfg_def demoChunks_def stride_of_def member_def msum_byte_def msum_len_def
        byte_at_def less_Suc_eq numeral_2_eq_2)
qed

theorem fec_recovers_single_loss_witness:
  "let (recovered, s') = applyFec demoEnv False 0 2 0 [5] (demoDeliver [2]) in
   recovered \<and> (0 < unat (readSeq s') \<or> mget (reorder s') 0 = Some [1])"
proof -
  have grp: "grp demoEnv = 2" by (simp add: grp_def demoEnv_def demoRecvCfg_def)
  have st: "stride_of demoRecvCfg False = 2" by (simp add: stride_of_def demoRecvCfg_def)
  have r: "recvReach True demoRecvCfg demoChunks Live 4 [] (set [2]) (demoDeliver [2])"
    by (rule demo_delivered) simp
  have "\<not> at_hand (demoDeliver [2]) False 0 2 0"
    and "\<forall>i<2. i \<noteq> 0 \<longrightarrow> at_hand (demoDeliver [2]) False 0 2 i"
    using demo_ahead by (auto simp: at_hand_def accsOf_def mget_def less_2_cases_iff)
  then show ?thesis
    using fec_recovers_single_loss [OF demo_ok r demo_env demo_ahead(3) demo_genuine, of 0]
    by (simp add: st grp demo_ahead demoChunks_def Let_def)
qed

text \<open>C27 (bounds). Interleaving protects against bursts: any two of up to G consecutive frames belong to
  different column groups, so the loss of a whole super-packet of G frames costs each group at most
  one member.\<close>

theorem fec_burst_spreads:
  assumes "unat g = G" and "0 < G" and "G \<le> 32" and "i < j" and "j < i + G" and "j < 2 ^ 32"
  shows "fst (fecGroupOf g (of_nat i)) \<noteq> fst (fecGroupOf g (of_nat j))"
proof
  assume "fst (fecGroupOf g (of_nat i)) = fst (fecGroupOf g (of_nat j))"
  then have "unat (fst (fecGroupOf g (of_nat i))) mod G = unat (fst (fecGroupOf g (of_nat j))) mod G" by simp
  moreover have "(a * (G * G) + b mod G) mod G = b mod G" for a b :: nat
    by (metis mod_mod_trivial mod_mult_self3 mult.assoc)
  ultimately have "i mod G = j mod G"
    using assms fecGroupOf_member(1) [OF assms(1-3), of "of_nat i"] fecGroupOf_member(1) [OF assms(1-3), of "of_nat j"]
    by simp
  then have "G dvd j - i" using assms(4) mod_eq_dvd_iff_nat [of i j G] by simp
  then show False using assms(4,5) by (auto dest: dvd_imp_le)
qed

theorem fec_burst_spreads_witness: "fst (fecGroupOf 8 (of_nat 61)) \<noteq> fst (fecGroupOf 8 (of_nat 68))"
  by (rule fec_burst_spreads [where G = 8]) simp_all

section \<open>Negative acknowledgements\<close>

lemma gapScan_eq:
  "unat sq + k \<le> Suc (unat hi) \<Longrightarrow> length gaps \<le> maxNackSeqsPerFire \<Longrightarrow>
   gapScan k sq hi ro gaps =
     take maxNackSeqsPerFire (gaps @ filter (\<lambda>q. mget ro q = None) (map (\<lambda>j. sq + of_nat j) [0..<k]))"
proof (induction k arbitrary: sq gaps)
  case 0
  then show ?case by simp
next
  case (Suc k)
  have split: "map (\<lambda>j. sq + of_nat j) [0..<Suc k] = sq # map (\<lambda>j. sq + 1 + of_nat j) [0..<k]"
    by (simp add: upt_conv_Cons map_Suc_upt [symmetric] o_def add.assoc del: upt_Suc)
  have le: "sq \<le> hi" using Suc.prems by (simp add: word_le_unat)
  show ?case
  proof (cases "length gaps < maxNackSeqsPerFire")
    case False
    then have "length gaps = maxNackSeqsPerFire" using Suc.prems by simp
    then show ?thesis by simp
  next
    case True
    let ?gaps = "if mget ro sq = None then gaps @ [sq] else gaps"
    have step: "gapScan (Suc k) sq hi ro gaps = gapScan k (sq + 1) hi ro ?gaps" using True le by simp
    show ?thesis
    proof (cases "k = 0")
      case True
      then show ?thesis using step \<open>length gaps < maxNackSeqsPerFire\<close> by simp
    next
      case False
      have "unat sq + 1 < 2 ^ 32"
        using Suc.prems(1) False unat32_less [of hi] by linarith
      then have "unat (sq + 1) + k \<le> Suc (unat hi)" using Suc.prems by (simp add: unat_Suc32)
      then show ?thesis
        using Suc.IH [of "sq + 1" ?gaps] True unfolding step split
        by (cases "maxNackSeqsPerFire - length gaps") (auto simp: Suc_diff_Suc diff_Suc)
    qed
  qed
qed


end
