(* ===== verification/Retransmit.thy ===== *)
theory Retransmit
  imports Prelude
begin

text \<open>
  The retransmission queue of a connection (\<open>retransmit.go\<close>): the arena of payload buffers, the pool of
  entry structs, the map of outstanding frames and the intrusive doubly-linked list in send order.

  Pointers matter here: entries are linked in place and recycled, and payload buffers are handed to
  the kernel by reference. So the model keeps the heap: an entry is an address into \<open>qheap\<close>, a slice
  is a buffer identity with its length and capacity, and \<open>amem\<close> maps a buffer identity to the bytes
  of its backing array. \<open>qfresh\<close> and \<open>afresh\<close> are the next unused identities. Every operation runs
  under \<open>q.mu\<close>; the clock reading of an operation is an argument.

  A range over the Go map \<open>entries\<close> visits the association list in order: the order shows only in
  the order of the two free lists.
\<close>

section \<open>Data\<close>

type_synonym ptr = nat

record sliceHdr =
  sbuf :: nat
  slen :: nat
  scap :: nat

record retransmitEntry =
  eftype :: u8
  estreamID :: u32
  eseq :: u32
  edata :: "sliceHdr option"
  esentAt :: time
  eretries :: int
  equeued :: bool
  eprev :: "ptr option"
  enext :: "ptr option"

record retransmitRequest =
  reqStream :: u32
  reqSeq :: u32

record retransmitArena =
  slotSize :: nat
  growBy :: nat
  afree :: "sliceHdr list"
  amem :: "nat \<Rightarrow> bytes"
  afresh :: nat

record retransmitQueue =
  entries :: "(u64, ptr) gomap"
  qhead :: "ptr option"
  qtail :: "ptr option"
  freeEntries :: "ptr list"
  arena :: retransmitArena
  pendingFree :: "sliceHdr list"
  ackedThrough :: "(u32, u32) gomap"
  qheap :: "ptr \<Rightarrow> retransmitEntry"
  qfresh :: ptr

section \<open>The arena\<close>

definition newRetransmitArena :: "nat \<Rightarrow> retransmitArena" where
  "newRetransmitArena n = \<lparr>slotSize = n, growBy = 128, afree = [], amem = (\<lambda>_. []), afresh = 0\<rparr>"

text \<open>Fresh slots: the three-index slices of one backing array cannot reach each other, so each is a
  buffer of its own.\<close>

definition arenaGrow :: "retransmitArena \<Rightarrow> retransmitArena" where
  "arenaGrow a = a\<lparr>
     afree := afree a @ map (\<lambda>i. \<lparr>sbuf = afresh a + i, slen = 0, scap = slotSize a\<rparr>) [0..<growBy a],
     amem := (\<lambda>b. if afresh a \<le> b \<and> b < afresh a + growBy a then replicate (slotSize a) 0 else amem a b),
     afresh := afresh a + growBy a\<rparr>"

definition arenaGet :: "nat \<Rightarrow> retransmitArena \<Rightarrow> sliceHdr \<times> retransmitArena" where
  "arenaGet n a =
     (if slotSize a < n
      then (\<lparr>sbuf = afresh a, slen = n, scap = n\<rparr>,
            a\<lparr>amem := (amem a)(afresh a := replicate n 0), afresh := Suc (afresh a)\<rparr>)
      else
        let a1 = (if afree a = [] then arenaGrow a else a);
            buf = last (afree a1)
        in (buf\<lparr>slen := n\<rparr>, a1\<lparr>afree := butlast (afree a1)\<rparr>))"

definition arenaPut :: "sliceHdr \<Rightarrow> retransmitArena \<Rightarrow> retransmitArena" where
  "arenaPut buf a =
     (if scap buf \<noteq> slotSize a then a else a\<lparr>afree := afree a @ [buf\<lparr>slen := 0\<rparr>]\<rparr>)"

text \<open>\<open>copy(data, payload)\<close> into a slice, and the bytes a slice shows.\<close>

definition sliceWrite :: "sliceHdr \<Rightarrow> bytes \<Rightarrow> retransmitArena \<Rightarrow> retransmitArena" where
  "sliceWrite sl bs a =
     a\<lparr>amem := (amem a)(sbuf sl := go_copy (amem a (sbuf sl)) 0 (take (slen sl) bs))\<rparr>"

definition sliceRead :: "sliceHdr \<Rightarrow> retransmitArena \<Rightarrow> bytes" where
  "sliceRead sl a = take (slen sl) (amem a (sbuf sl))"

section \<open>Entries and links\<close>

definition retransmitKey :: "u32 \<Rightarrow> u32 \<Rightarrow> u64" where
  "retransmitKey sid sq = push_bit 32 (ucast sid) OR ucast sq"

definition zeroEntry :: retransmitEntry where
  "zeroEntry = \<lparr>eftype = 0, estreamID = 0, eseq = 0, edata = None, esentAt = 0, eretries = 0, equeued = False,
     eprev = None, enext = None\<rparr>"

definition newRetransmitQueue :: "nat \<Rightarrow> retransmitQueue" where
  "newRetransmitQueue maxp =
     \<lparr>entries = [], qhead = None, qtail = None, freeEntries = [], arena = newRetransmitArena maxp,
      pendingFree = [], ackedThrough = [], qheap = (\<lambda>_. zeroEntry), qfresh = 0\<rparr>"

text \<open>An assignment to fields of the entry at an address.\<close>

definition hupd :: "ptr \<Rightarrow> (retransmitEntry \<Rightarrow> retransmitEntry) \<Rightarrow> retransmitQueue \<Rightarrow> retransmitQueue" where
  "hupd p f q = q\<lparr>qheap := (qheap q)(p := f (qheap q p))\<rparr>"

definition getEntry :: "retransmitQueue \<Rightarrow> ptr \<times> retransmitQueue" where
  "getEntry q =
     (if freeEntries q \<noteq> []
      then (last (freeEntries q), q\<lparr>freeEntries := butlast (freeEntries q)\<rparr>)
      else (qfresh q, q\<lparr>qheap := (qheap q)(qfresh q := zeroEntry), qfresh := Suc (qfresh q)\<rparr>))"

definition pushTail :: "ptr \<Rightarrow> retransmitQueue \<Rightarrow> retransmitQueue" where
  "pushTail p q =
     (let q1 = hupd p (\<lambda>e. e\<lparr>enext := None, eprev := qtail q\<rparr>) q;
          q2 = (case qtail q1 of
                  Some t \<Rightarrow> hupd t (\<lambda>e. e\<lparr>enext := Some p\<rparr>) q1
                | None \<Rightarrow> q1\<lparr>qhead := Some p\<rparr>)
      in q2\<lparr>qtail := Some p\<rparr>)"

definition unlink :: "ptr \<Rightarrow> retransmitQueue \<Rightarrow> retransmitQueue" where
  "unlink p q =
     (let q1 = (case eprev (qheap q p) of
                  Some a \<Rightarrow> hupd a (\<lambda>e. e\<lparr>enext := enext (qheap q p)\<rparr>) q
                | None \<Rightarrow> q\<lparr>qhead := enext (qheap q p)\<rparr>);
          q2 = (case enext (qheap q1 p) of
                  Some b \<Rightarrow> hupd b (\<lambda>e. e\<lparr>eprev := eprev (qheap q1 p)\<rparr>) q1
                | None \<Rightarrow> q1\<lparr>qtail := eprev (qheap q1 p)\<rparr>)
      in hupd p (\<lambda>e. e\<lparr>eprev := None, enext := None\<rparr>) q2)"

text \<open>\<open>append(q.pendingFree, e.data)\<close>: an entry in the map always owns a buffer; appending nil is
  kept as a slice of capacity 0, which \<open>put\<close> ignores.\<close>

definition nilSlice :: sliceHdr where
  "nilSlice = \<lparr>sbuf = 0, slen = 0, scap = 0\<rparr>"

definition dataOf :: "retransmitEntry \<Rightarrow> sliceHdr" where
  "dataOf e = (case edata e of None \<Rightarrow> nilSlice | Some sl \<Rightarrow> sl)"

definition removeLocked :: "u64 \<Rightarrow> ptr \<Rightarrow> retransmitQueue \<Rightarrow> retransmitQueue" where
  "removeLocked key p q =
     (let q1 = unlink p q;
          q2 = q1\<lparr>pendingFree := pendingFree q1 @ [dataOf (qheap q1 p)]\<rparr>;
          q3 = hupd p (\<lambda>e. e\<lparr>edata := None\<rparr>) q2
      in q3\<lparr>freeEntries := freeEntries q3 @ [p], entries := mdel key (entries q3)\<rparr>)"

section \<open>Operations\<close>

definition queueAdd :: "time \<Rightarrow> u8 \<Rightarrow> u32 \<Rightarrow> u32 \<Rightarrow> bytes \<Rightarrow> retransmitQueue \<Rightarrow> sliceHdr \<times> retransmitQueue" where
  "queueAdd now ft sid sq payload q =
     (let (sl, a1) = arenaGet (length payload) (arena q);
          q1 = q\<lparr>arena := sliceWrite sl payload a1\<rparr>;
          (p, q2) = getEntry q1;
          q3 = hupd p (\<lambda>e. e\<lparr>eftype := ft, estreamID := sid, eseq := sq, edata := Some sl, esentAt := now,
                             eretries := 0, equeued := False\<rparr>) q2;
          q4 = q3\<lparr>entries := mput (retransmitKey sid sq) p (entries q3)\<rparr>
      in (sl, pushTail p q4))"

definition hasStream :: "u32 \<Rightarrow> retransmitQueue \<Rightarrow> bool" where
  "hasStream sid q = list_ex (\<lambda>(k, p). estreamID (qheap q p) = sid) (entries q)"

definition ackOne :: "u32 \<Rightarrow> u32 \<Rightarrow> retransmitQueue \<Rightarrow> retransmitQueue" where
  "ackOne sid sq q =
     (let key = retransmitKey sid sq in
      case mget (entries q) key of None \<Rightarrow> q | Some p \<Rightarrow> removeLocked key p q)"

text \<open>The body of the loops of \<open>ackMany\<close> and \<open>ackCumulative\<close>; the accumulator is the pair of
  named results.\<close>

definition ackBody :: "time \<Rightarrow> u32 \<Rightarrow> u32 \<Rightarrow> int \<times> duration \<times> retransmitQueue \<Rightarrow> int \<times> duration \<times> retransmitQueue" where
  "ackBody now sid sq st =
     (case st of (freed, rtt, q) \<Rightarrow>
        let key = retransmitKey sid sq in
        case mget (entries q) key of
          None \<Rightarrow> st
        | Some p \<Rightarrow>
            let e = qheap q p;
                s = time_sub now (esentAt e);
                rtt' = (if eretries e = 0 then if rtt = 0 \<or> s < rtt then s else rtt else rtt)
            in (freed + int (slen (dataOf e)), rtt', removeLocked key p q))"

definition ackMany :: "time \<Rightarrow> u32 \<Rightarrow> u32 list \<Rightarrow> retransmitQueue \<Rightarrow> int \<times> duration \<times> retransmitQueue" where
  "ackMany now sid seqs q = fold (ackBody now sid) seqs (0, 0, q)"

definition maxCumAdvance :: u32 where "maxCumAdvance = 2 ^ 20"

definition ackCumulative :: "time \<Rightarrow> u32 \<Rightarrow> u32 \<Rightarrow> retransmitQueue \<Rightarrow> int \<times> duration \<times> retransmitQueue" where
  "ackCumulative now sid cum q =
     (let from = (case mget (ackedThrough q) sid of None \<Rightarrow> 0 | Some w \<Rightarrow> w) in
      if cum \<le> from \<or> maxCumAdvance < cum - from then (0, 0, q)
      else
        let (freed, rtt, q1) = fold (ackBody now sid) (map of_nat [unat from..<unat cum]) (0, 0, q)
        in (freed, rtt, q1\<lparr>ackedThrough := mput sid cum (ackedThrough q1)\<rparr>))"

definition purgeStream :: "u32 \<Rightarrow> retransmitQueue \<Rightarrow> retransmitQueue" where
  "purgeStream sid q =
     (let q1 = fold (\<lambda>(k, p) q. if estreamID (qheap q p) = sid then removeLocked k p q else q) (entries q) q
      in q1\<lparr>ackedThrough := mdel sid (ackedThrough q1)\<rparr>)"

definition drainPendingFree :: "retransmitQueue \<Rightarrow> retransmitQueue" where
  "drainPendingFree q = q\<lparr>arena := fold arenaPut (pendingFree q) (arena q), pendingFree := []\<rparr>"

definition pendingFreeLen :: "retransmitQueue \<Rightarrow> nat" where
  "pendingFreeLen q = length (pendingFree q)"

definition drainPendingFreeFirst :: "nat \<Rightarrow> retransmitQueue \<Rightarrow> retransmitQueue" where
  "drainPendingFreeFirst n q =
     (let m = (if length (pendingFree q) < n then length (pendingFree q) else n)
      in q\<lparr>arena := fold arenaPut (take m (pendingFree q)) (arena q), pendingFree := drop m (pendingFree q)\<rparr>)"

definition requestForResend ::
  "time \<Rightarrow> u32 \<Rightarrow> u32 \<Rightarrow> duration \<Rightarrow> retransmitQueue \<Rightarrow> retransmitRequest option \<times> retransmitQueue" where
  "requestForResend now sid sq minAge q =
     (case mget (entries q) (retransmitKey sid sq) of
        None \<Rightarrow> (None, q)
      | Some p \<Rightarrow>
          if equeued (qheap q p) \<or> 0 < minAge \<and> time_sub now (esentAt (qheap q p)) < minAge then (None, q)
          else (Some \<lparr>reqStream = sid, reqSeq = sq\<rparr>, hupd p (\<lambda>e. e\<lparr>equeued := True\<rparr>) q))"

definition peekForResend :: "retransmitRequest \<Rightarrow> retransmitQueue \<Rightarrow> (u8 \<times> nat) option" where
  "peekForResend req q =
     (case mget (entries q) (retransmitKey (reqStream req) (reqSeq req)) of
        None \<Rightarrow> None
      | Some p \<Rightarrow> if equeued (qheap q p) then Some (eftype (qheap q p), slen (dataOf (qheap q p))) else None)"

text \<open>The returned entry is a value: the type, stream and sequence number of the frame, with a copy of
  its payload in a slice that the caller owns until \<open>releaseResendCopy\<close>.\<close>

definition takeForResend ::
  "time \<Rightarrow> retransmitRequest \<Rightarrow> retransmitQueue \<Rightarrow> retransmitEntry option \<times> retransmitQueue" where
  "takeForResend now req q =
     (case mget (entries q) (retransmitKey (reqStream req) (reqSeq req)) of
        None \<Rightarrow> (None, q)
      | Some p \<Rightarrow>
          if \<not> equeued (qheap q p) then (None, q)
          else
            let q1 = hupd p (\<lambda>e. e\<lparr>equeued := False, esentAt := now, eretries := eretries e + 1\<rparr>) q;
                q2 = pushTail p (unlink p q1);
                src = dataOf (qheap q2 p);
                (sl, a1) = arenaGet (slen src) (arena q2);
                a2 = sliceWrite sl (sliceRead src a1) a1
            in (Some ((qheap q2 p)\<lparr>eprev := None, enext := None, equeued := False, edata := Some sl\<rparr>),
                q2\<lparr>arena := a2\<rparr>))"

definition releaseResendCopy :: "sliceHdr \<Rightarrow> retransmitQueue \<Rightarrow> retransmitQueue" where
  "releaseResendCopy sl q = q\<lparr>arena := arenaPut sl (arena q)\<rparr>"

text \<open>
  The walk of \<open>due\<close> along the list, \<open>None\<close> when the fuel runs out. The list has at most \<open>qfresh\<close>
  entries, so \<open>Suc qfresh\<close> steps are enough (theory \<open>RetransmitInv\<close>).
\<close>

fun dueWalk :: "nat \<Rightarrow> time \<Rightarrow> duration \<Rightarrow> ptr option \<Rightarrow> retransmitRequest list \<Rightarrow> retransmitQueue
    \<Rightarrow> (retransmitRequest list \<times> retransmitQueue) option" where
  "dueWalk 0 now rto cur reqs q = None"
| "dueWalk (Suc k) now rto cur reqs q =
     (case cur of
        None \<Rightarrow> Some (reqs, q)
      | Some p \<Rightarrow>
          if time_sub now (esentAt (qheap q p)) < rto then Some (reqs, q)
          else if \<not> equeued (qheap q p)
          then dueWalk k now rto (enext (qheap q p))
                 (reqs @ [\<lparr>reqStream = estreamID (qheap q p), reqSeq = eseq (qheap q p)\<rparr>])
                 (hupd p (\<lambda>e. e\<lparr>equeued := True\<rparr>) q)
          else dueWalk k now rto (enext (qheap q p)) reqs q)"

definition due :: "time \<Rightarrow> duration \<Rightarrow> retransmitQueue \<Rightarrow> (retransmitRequest list \<times> retransmitQueue) option" where
  "due now rto q = dueWalk (Suc (qfresh q)) now rto (qhead q) [] q"

end
