(* ===== verification/RetransmitInv.thy ===== *)
theory RetransmitInv
  imports Retransmit "HOL-Library.Multiset"
begin

text \<open>
  The retransmission queue as a list of outstanding frames. The list is the chain of entries from
  \<open>head\<close> along \<open>next\<close>; the invariant says that the chain is a proper doubly-linked list in send order,
  that the map indexes exactly its entries, that pooled entries are apart from it, and that every
  payload buffer has exactly one owner: an outstanding entry, the pending-free list, a resend copy on
  loan to the worker, or the arena's free list.
\<close>

section \<open>Linked segments\<close>

definition firstp :: "ptr list \<Rightarrow> ptr option \<Rightarrow> ptr option" where
  "firstp ps b = (case ps of [] \<Rightarrow> b | p # _ \<Rightarrow> Some p)"

definition lastp :: "ptr option \<Rightarrow> ptr list \<Rightarrow> ptr option" where
  "lastp a ps = (if ps = [] then a else Some (last ps))"

fun seg :: "(ptr \<Rightarrow> retransmitEntry) \<Rightarrow> ptr option \<Rightarrow> ptr list \<Rightarrow> ptr option \<Rightarrow> bool" where
  "seg h a [] b \<longleftrightarrow> True"
| "seg h a (p # ps) b \<longleftrightarrow> eprev (h p) = a \<and> enext (h p) = firstp ps b \<and> seg h (Some p) ps b"

lemma firstp_simps [simp]:
  "firstp [] b = b" "firstp (p # ps) b = Some p" "firstp (ps @ qs) b = firstp ps (firstp qs b)"
  by (simp_all add: firstp_def split: list.split)

lemma lastp_simps [simp]:
  "lastp a [] = a" "lastp a (ps @ [p]) = Some p" "lastp a (ps @ qs) = lastp (lastp a ps) qs"
  "lastp a (p # ps) = lastp (Some p) ps"
  by (simp_all add: lastp_def)

lemma seg_append [simp]:
  "seg h a (ps @ qs) b \<longleftrightarrow> seg h a ps (firstp qs b) \<and> seg h (lastp a ps) qs b"
  by (induction ps arbitrary: a) auto

lemma seg_cong:
  "(\<And>p. p \<in> set ps \<Longrightarrow> eprev (h p) = eprev (h' p) \<and> enext (h p) = enext (h' p)) \<Longrightarrow>
   seg h a ps b = seg h' a ps b"
  by (induction ps arbitrary: a) auto

lemma seg_upd_other [simp]: "p \<notin> set ps \<Longrightarrow> seg (h(p := e)) a ps b = seg h a ps b"
  by (rule seg_cong) auto

text \<open>Redirecting the two ends of a segment.\<close>

lemma seg_relast:
  "seg h a (ps @ [l]) b \<Longrightarrow> l \<notin> set ps \<Longrightarrow> seg (h(l := (h l)\<lparr>enext := b'\<rparr>)) a (ps @ [l]) b'"
  by simp

lemma seg_refirst:
  "seg h a (f # ps) b \<Longrightarrow> f \<notin> set ps \<Longrightarrow> seg (h(f := (h f)\<lparr>eprev := a'\<rparr>)) a' (f # ps) b"
  by simp

section \<open>The chain\<close>

definition links :: "retransmitQueue \<Rightarrow> ptr list \<Rightarrow> bool" where
  "links q ps \<longleftrightarrow> qhead q = firstp ps None \<and> qtail q = lastp None ps \<and> seg (qheap q) None ps None \<and> distinct ps"

text \<open>An entry without its links.\<close>

definition body :: "retransmitEntry \<Rightarrow> retransmitEntry" where
  "body e = e\<lparr>eprev := None, enext := None\<rparr>"

lemma body_eqD:
  assumes "body e = body e'"
  shows "eftype e = eftype e'" "estreamID e = estreamID e'" "eseq e = eseq e'" "edata e = edata e'"
    "esentAt e = esentAt e'" "eretries e = eretries e'" "equeued e = equeued e'" "dataOf e = dataOf e'"
  using assms by (cases e; cases e'; simp add: body_def dataOf_def)+

lemma body_upd [simp]: "body (e\<lparr>eprev := a\<rparr>) = body e" "body (e\<lparr>enext := b\<rparr>) = body e"
  by (simp_all add: body_def)

text \<open>The fields of the queue that the list operations leave alone.\<close>

definition samePool :: "retransmitQueue \<Rightarrow> retransmitQueue \<Rightarrow> bool" where
  "samePool q q' \<longleftrightarrow> entries q' = entries q \<and> freeEntries q' = freeEntries q \<and> arena q' = arena q \<and>
     pendingFree q' = pendingFree q \<and> ackedThrough q' = ackedThrough q \<and> qfresh q' = qfresh q"

lemma hupd_simps [simp]:
  "entries (hupd p f q) = entries q" "qhead (hupd p f q) = qhead q" "qtail (hupd p f q) = qtail q"
  "freeEntries (hupd p f q) = freeEntries q" "arena (hupd p f q) = arena q"
  "pendingFree (hupd p f q) = pendingFree q" "ackedThrough (hupd p f q) = ackedThrough q"
  "qfresh (hupd p f q) = qfresh q" "qheap (hupd p f q) = (qheap q)(p := f (qheap q p))"
  by (simp_all add: hupd_def)

lemma pushTail_links:
  assumes "links q ps" "p \<notin> set ps"
  shows "links (pushTail p q) (ps @ [p])"
proof (cases ps rule: rev_cases)
  case Nil
  then show ?thesis using assms by (simp add: links_def pushTail_def Let_def)
next
  case (snoc xs l)
  then show ?thesis using assms by (auto simp: links_def pushTail_def Let_def)
qed

lemma pushTail_keeps [simp]:
  "body (qheap (pushTail p q) r) = body (qheap q r)" "samePool q (pushTail p q)"
  by (auto simp: pushTail_def samePool_def Let_def split: option.split)

lemma unlink_links:
  assumes "links q (xs @ p # ys)"
  shows "links (unlink p q) (xs @ ys)"
proof -
  have seg: "seg (qheap q) None xs (Some p)" "seg (qheap q) (Some p) ys None"
    "eprev (qheap q p) = lastp None xs" "enext (qheap q p) = firstp ys None"
    and d: "distinct (xs @ p # ys)" using assms by (auto simp: links_def)
  note a = assms [unfolded links_def]
  show ?thesis
  proof (cases xs rule: rev_cases)
    case Nil
    then show ?thesis using a seg d
      by (cases ys) (auto simp: links_def unlink_def Let_def)
  next
    case (snoc us l)
    then show ?thesis using a seg d
      by (cases ys) (auto simp: links_def unlink_def Let_def)
  qed
qed

lemma unlink_keeps [simp]:
  "body (qheap (unlink p q) r) = body (qheap q r)" "samePool q (unlink p q)"
  by (auto simp: unlink_def samePool_def Let_def split: option.split)

text \<open>The chain as a function of the queue, walked like \<open>due\<close> walks it.\<close>

fun walk :: "nat \<Rightarrow> (ptr \<Rightarrow> retransmitEntry) \<Rightarrow> ptr option \<Rightarrow> ptr list" where
  "walk (Suc k) h (Some p) = p # walk k h (enext (h p))"
| "walk k h cur = []"

definition chain :: "retransmitQueue \<Rightarrow> ptr list" where
  "chain q = walk (qfresh q) (qheap q) (qhead q)"

lemma walk_seg: "seg h a ps None \<Longrightarrow> length ps \<le> k \<Longrightarrow> walk k h (firstp ps None) = ps"
proof (induction ps arbitrary: a k)
  case Nil
  then show ?case by (cases k) simp_all
next
  case (Cons p ps)
  then show ?case by (cases k) auto
qed

lemma length_below: "distinct ps \<Longrightarrow> (\<forall>p \<in> set ps. p < n) \<Longrightarrow> length ps \<le> (n :: nat)"
  using card_mono [of "{..<n}" "set ps"] by (auto simp: distinct_card)

section \<open>Keys\<close>

lemma retransmitKey_inject [simp]:
  "retransmitKey a b = retransmitKey a' b' \<longleftrightarrow> a = a' \<and> b = b'"
proof
  assume eq: "retransmitKey a b = retransmitKey a' b'"
  have "bit a n = bit a' n" "bit b n = bit b' n" if "n < 32" for n
  proof -
    from eq have "bit (retransmitKey a b) (n + 32) = bit (retransmitKey a' b') (n + 32)"
      "bit (retransmitKey a b) n = bit (retransmitKey a' b') n" by simp_all
    with that show "bit a n = bit a' n" "bit b n = bit b' n"
      by (auto simp: retransmitKey_def bit_simps dest: bit_imp_le_length)
  qed
  then show "a = a' \<and> b = b'" by (auto intro: bit_word_eqI)
qed simp

section \<open>Buffer ownership\<close>

text \<open>\<open>owned a bs\<close>: the slices in \<open>bs\<close> (in use somewhere) and the free slots of the arena are all
  different buffers, each backed by memory of its capacity.\<close>

definition owned :: "retransmitArena \<Rightarrow> sliceHdr list \<Rightarrow> bool" where
  "owned a bs \<longleftrightarrow> distinct (map sbuf (bs @ afree a)) \<and> 0 < growBy a \<and>
     (\<forall>b \<in> set (bs @ afree a). sbuf b < afresh a \<and> length (amem a (sbuf b)) = scap b \<and> slen b \<le> scap b) \<and>
     (\<forall>b \<in> set (afree a). scap b = slotSize a)"

definition untouched :: "retransmitArena \<Rightarrow> retransmitArena \<Rightarrow> sliceHdr list \<Rightarrow> bool" where
  "untouched a a' bs \<longleftrightarrow> (\<forall>b \<in> set bs. amem a' (sbuf b) = amem a (sbuf b))"

lemma owned_new: "owned (newRetransmitArena n) []"
  by (simp add: owned_def newRetransmitArena_def)

lemma owned_perm:
  assumes "owned a bs" "mset bs = mset bs'"
  shows "owned a bs'"
proof -
  have "set bs = set bs'" using assms(2) by (rule mset_eq_setD)
  moreover have "mset (map sbuf (bs @ afree a)) = mset (map sbuf (bs' @ afree a))" using assms(2) by simp
  then have "distinct (map sbuf (bs @ afree a)) = distinct (map sbuf (bs' @ afree a))"
    by (rule mset_eq_imp_distinct_iff)
  ultimately show ?thesis using assms(1) by (simp add: owned_def)
qed

lemma owned_less: "owned a bs \<Longrightarrow> b \<in> set bs \<Longrightarrow> sbuf b < afresh a"
  and owned_less_free: "owned a bs \<Longrightarrow> b \<in> set (afree a) \<Longrightarrow> sbuf b < afresh a"
  by (auto simp: owned_def)

lemma owned_grow:
  assumes "owned a bs"
  shows "owned (arenaGrow a) bs" "untouched a (arenaGrow a) (bs @ afree a)" "afree (arenaGrow a) \<noteq> []"
    "slotSize (arenaGrow a) = slotSize a"
proof -
  note o = assms [unfolded owned_def]
  let ?new = "map (\<lambda>i. \<lparr>sbuf = afresh a + i, slen = 0, scap = slotSize a\<rparr>) [0..<growBy a]"
  have sb: "map sbuf ?new = map (\<lambda>i. afresh a + i) [0..<growBy a]" by simp
  have "distinct (map sbuf ?new)" unfolding sb by (simp add: distinct_map)
  moreover have "sbuf ` set (bs @ afree a) \<inter> sbuf ` set ?new = {}"
    using o by (force simp: image_iff)
  ultimately have "distinct (map sbuf (bs @ afree (arenaGrow a)))"
    using o by (auto simp: arenaGrow_def simp del: map_map)
  moreover have "sbuf b < afresh a + growBy a" "\<not> afresh a \<le> sbuf b" if "b \<in> set (bs @ afree a)" for b
    using o that trans_less_add1 leD by blast+
  ultimately show "owned (arenaGrow a) bs"
    using o unfolding owned_def by (auto simp: arenaGrow_def)
  show "untouched a (arenaGrow a) (bs @ afree a)"
    using owned_less [OF assms] owned_less_free [OF assms] leD
    by (fastforce simp: untouched_def arenaGrow_def)
qed (use assms in \<open>simp_all add: owned_def arenaGrow_def\<close>)

lemma owned_pop:
  assumes "owned a bs" "afree a \<noteq> []" "n \<le> slotSize a"
  shows "owned (a\<lparr>afree := butlast (afree a)\<rparr>) ((last (afree a))\<lparr>slen := n\<rparr> # bs)"
proof -
  obtain fs l where f: "afree a = fs @ [l]" using assms(2) by (cases "afree a" rule: rev_cases) auto
  then show ?thesis using assms by (auto simp: owned_def)
qed

lemma arenaGet_owned:
  assumes "owned a bs" "arenaGet n a = (sl, a')"
  shows "owned a' (sl # bs) \<and> untouched a a' bs \<and> slen sl = n \<and> slotSize a' = slotSize a"
proof (cases "slotSize a < n")
  case True
  then have r: "sl = \<lparr>sbuf = afresh a, slen = n, scap = n\<rparr>"
    "a' = a\<lparr>amem := (amem a)(afresh a := replicate n 0), afresh := Suc (afresh a)\<rparr>"
    using assms(2) by (auto simp: arenaGet_def)
  have "sbuf b \<noteq> afresh a" "sbuf b < Suc (afresh a)" if "b \<in> set (bs @ afree a)" for b
  proof -
    have "sbuf b < afresh a" using that assms(1) unfolding owned_def by blast
    then show "sbuf b \<noteq> afresh a" "sbuf b < Suc (afresh a)" by simp_all
  qed
  then show ?thesis using assms(1) unfolding r owned_def untouched_def
    by (auto simp: image_iff)
next
  case False
  let ?a = "if afree a = [] then arenaGrow a else a"
  have a: "owned ?a bs" "afree ?a \<noteq> []" "slotSize ?a = slotSize a" "untouched a ?a bs"
    using assms(1) owned_grow [OF assms(1)] by (auto simp: untouched_def)
  have r: "sl = (last (afree ?a))\<lparr>slen := n\<rparr>" "a' = ?a\<lparr>afree := butlast (afree ?a)\<rparr>"
    using assms(2) False by (auto simp: arenaGet_def Let_def)
  from owned_pop [OF a(1,2), of n] show ?thesis
    using False a(3,4) unfolding r by (simp add: untouched_def)
qed

lemma sliceWrite_owned:
  assumes "owned a (sl # bs)"
  shows "owned (sliceWrite sl d a) (sl # bs)" "untouched a (sliceWrite sl d a) bs"
    "length d = slen sl \<Longrightarrow> sliceRead sl (sliceWrite sl d a) = d"
    "slotSize (sliceWrite sl d a) = slotSize a"
proof -
  have ne: "sbuf b \<noteq> sbuf sl" if "b \<in> set (bs @ afree a)" for b
    using that assms by (auto simp: owned_def image_iff)
  then show "owned (sliceWrite sl d a) (sl # bs)" "untouched a (sliceWrite sl d a) bs"
    using assms by (auto simp: owned_def untouched_def sliceWrite_def)
qed (use assms in \<open>auto simp: owned_def sliceWrite_def sliceRead_def go_copy_def\<close>)

lemma arenaPut_owned:
  assumes "owned a (sl # bs)"
  shows "owned (arenaPut sl a) bs" "amem (arenaPut sl a) = amem a" "slotSize (arenaPut sl a) = slotSize a"
  using assms by (auto simp: owned_def arenaPut_def)

lemma foldPut_owned:
  "owned a (xs @ bs) \<Longrightarrow>
   owned (fold arenaPut xs a) bs \<and> amem (fold arenaPut xs a) = amem a \<and> slotSize (fold arenaPut xs a) = slotSize a"
  by (induction xs arbitrary: a) (auto simp: arenaPut_owned)

lemma untouched_trans: "untouched a b bs \<Longrightarrow> untouched b c bs \<Longrightarrow> untouched a c bs"
  by (simp add: untouched_def)

lemma untouched_read: "untouched a a' bs \<Longrightarrow> b \<in> set bs \<Longrightarrow> sliceRead b a' = sliceRead b a"
  by (simp add: untouched_def sliceRead_def)

section \<open>The invariant\<close>

definition index :: "retransmitQueue \<Rightarrow> ptr list \<Rightarrow> bool" where
  "index q ps \<longleftrightarrow> mok (entries q) \<and> snd ` set (entries q) = set ps \<and>
     (\<forall>(k, p) \<in> set (entries q). k = retransmitKey (estreamID (qheap q p)) (eseq (qheap q p)))"

definition pool :: "retransmitQueue \<Rightarrow> ptr list \<Rightarrow> bool" where
  "pool q ps \<longleftrightarrow> distinct (ps @ freeEntries q) \<and> (\<forall>p \<in> set (ps @ freeEntries q). p < qfresh q)"

definition inUse :: "sliceHdr list \<Rightarrow> retransmitQueue \<Rightarrow> ptr list \<Rightarrow> sliceHdr list" where
  "inUse lent q ps = map (\<lambda>p. dataOf (qheap q p)) ps @ pendingFree q @ lent"

definition order :: "time \<Rightarrow> retransmitQueue \<Rightarrow> ptr list \<Rightarrow> bool" where
  "order now q ps \<longleftrightarrow> sorted (map (\<lambda>p. esentAt (qheap q p)) ps) \<and> (\<forall>p \<in> set ps. esentAt (qheap q p) \<le> now)"

definition qinv :: "time \<Rightarrow> sliceHdr list \<Rightarrow> retransmitQueue \<Rightarrow> ptr list \<Rightarrow> bool" where
  "qinv now lent q ps \<longleftrightarrow> links q ps \<and> index q ps \<and> pool q ps \<and> owned (arena q) (inUse lent q ps) \<and>
     order now q ps"

definition qok :: "time \<Rightarrow> sliceHdr list \<Rightarrow> retransmitQueue \<Rightarrow> bool" where
  "qok now lent q \<longleftrightarrow> qinv now lent q (chain q)"

lemma qinv_chain: "qinv now lent q ps \<Longrightarrow> chain q = ps"
  using length_below [of ps "qfresh q"] walk_seg [of "qheap q" None ps "qfresh q"]
  by (auto simp: qinv_def links_def pool_def chain_def)

lemma qinv_qok: "qinv now lent q ps \<Longrightarrow> qok now lent q"
  by (simp add: qok_def qinv_chain)

lemma qinv_new: "qinv now [] (newRetransmitQueue n) []"
  by (simp add: qinv_def links_def index_def pool_def order_def inUse_def newRetransmitQueue_def owned_new)

text \<open>An outstanding frame as the protocol sees it, and the list of them.\<close>

record pframe =
  fType :: u8
  fStream :: u32
  fSeq :: u32
  fData :: bytes
  fSentAt :: time
  fRetries :: int
  fQueued :: bool

definition view :: "retransmitQueue \<Rightarrow> ptr \<Rightarrow> pframe" where
  "view q p = (let e = qheap q p in
     \<lparr>fType = eftype e, fStream = estreamID e, fSeq = eseq e, fData = sliceRead (dataOf e) (arena q),
      fSentAt = esentAt e, fRetries = eretries e, fQueued = equeued e\<rparr>)"

definition frames :: "retransmitQueue \<Rightarrow> pframe list" where
  "frames q = map (view q) (chain q)"

definition fKey :: "pframe \<Rightarrow> u64" where
  "fKey f = retransmitKey (fStream f) (fSeq f)"

lemma frames_eq: "qinv now lent q ps \<Longrightarrow> frames q = map (view q) ps"
  by (simp add: frames_def qinv_chain)

section \<open>Looking up an entry\<close>

lemma index_mget:
  assumes "index q ps"
  shows "mget (entries q) k = Some p \<longleftrightarrow>
    p \<in> set ps \<and> k = retransmitKey (estreamID (qheap q p)) (eseq (qheap q p))"
proof -
  have "(k, p) \<in> set (entries q)"
    if "p \<in> set ps" "k = retransmitKey (estreamID (qheap q p)) (eseq (qheap q p))"
  proof -
    from that assms obtain k' where "(k', p) \<in> set (entries q)" by (force simp: index_def)
    then show ?thesis using that assms by (auto simp: index_def)
  qed
  moreover have "p \<in> set ps" "k = retransmitKey (estreamID (qheap q p)) (eseq (qheap q p))"
    if "(k, p) \<in> set (entries q)"
    using that assms by (force simp: index_def)+
  ultimately show ?thesis using assms mget_iff [of "entries q" k p] by (auto simp: index_def)
qed

lemma view_key: "fKey (view q p) = retransmitKey (estreamID (qheap q p)) (eseq (qheap q p))"
  by (simp add: fKey_def view_def Let_def)

lemma index_find:
  assumes "index q ps"
  shows "mget (entries q) k = None \<longleftrightarrow> k \<notin> fKey ` set (map (view q) ps)"
    and "mget (entries q) k = Some p \<longleftrightarrow> p \<in> set ps \<and> k = fKey (view q p)"
  using index_mget [OF assms, of k] by (auto simp: view_key image_iff) (metis option.exhaust)+

lemma distinct_keys:
  assumes "links q ps" "index q ps"
  shows "distinct (map fKey (map (view q) ps))"
proof -
  have "p = p'" if "p \<in> set ps" "p' \<in> set ps" "fKey (view q p) = fKey (view q p')" for p p'
    using that index_find(2) [OF assms(2), of "fKey (view q p)"] by (metis option.inject)
  then show ?thesis using assms(1) by (auto simp: links_def distinct_map inj_on_def o_def)
qed

end
