(* ===== verification/RetransmitOps.thy ===== *)
theory RetransmitOps
  imports RetransmitInv
begin

text \<open>
  Every operation of the retransmission queue keeps the invariant and acts on the list of outstanding
  frames as its specification says.
\<close>

section \<open>Carrying the invariant over\<close>

lemma index_iff:
  "index q ps \<longleftrightarrow> mok (entries q) \<and>
    (\<forall>k p. mget (entries q) k = Some p \<longleftrightarrow>
       p \<in> set ps \<and> k = retransmitKey (estreamID (qheap q p)) (eseq (qheap q p)))"
proof (intro iffI conjI)
  assume "mok (entries q) \<and>
    (\<forall>k p. mget (entries q) k = Some p \<longleftrightarrow>
       p \<in> set ps \<and> k = retransmitKey (estreamID (qheap q p)) (eseq (qheap q p)))"
  then have m: "mok (entries q)" and f: "\<And>k p. (k, p) \<in> set (entries q) \<longleftrightarrow>
       p \<in> set ps \<and> k = retransmitKey (estreamID (qheap q p)) (eseq (qheap q p))"
    by (auto simp: mget_iff)
  have "snd ` set (entries q) = set ps"
    using f by (auto simp: image_iff) (metis snd_conv)
  then show "index q ps" using m f by (auto simp: index_def)
qed (auto simp: index_mget, simp add: index_def)

lemma view_body:
  assumes "body (qheap q' p) = body (qheap q p)" "sliceRead (dataOf (qheap q p)) (arena q') = sliceRead (dataOf (qheap q p)) (arena q)"
  shows "view q' p = view q p"
  using body_eqD [OF assms(1)] assms(2) by (simp add: view_def Let_def)

lemma samePoolD:
  assumes "samePool q q'"
  shows "entries q' = entries q" "freeEntries q' = freeEntries q" "arena q' = arena q"
    "pendingFree q' = pendingFree q" "ackedThrough q' = ackedThrough q" "qfresh q' = qfresh q"
  using assms by (simp_all add: samePool_def)

lemma samePool_trans: "samePool a b \<Longrightarrow> samePool b c \<Longrightarrow> samePool a c"
  by (simp add: samePool_def)

lemma order_cong:
  "(\<And>p. p \<in> set ps \<Longrightarrow> esentAt (qheap q' p) = esentAt (qheap q p)) \<Longrightarrow> order t q' ps = order t q ps"
  by (simp add: order_def cong: map_cong)

lemma order_mono: "order t q ps \<Longrightarrow> t \<le> t' \<Longrightarrow> order t' q ps"
  by (auto simp: order_def)

lemma qinv_mono: "qinv t lent q ps \<Longrightarrow> t \<le> t' \<Longrightarrow> qinv t' lent q ps"
  by (auto simp: qinv_def intro: order_mono)

lemma qinv_arena:
  assumes "qinv t lent q ps" "owned a (inUse lent' (q\<lparr>pendingFree := pf\<rparr>) ps)"
  shows "qinv t lent' (q\<lparr>arena := a, pendingFree := pf\<rparr>) ps"
  using assms by (simp add: qinv_def links_def index_def pool_def order_def inUse_def)

section \<open>Removal\<close>

lemma removeLocked_simps:
  "entries (removeLocked k p q) = mdel k (entries q)"
  "pendingFree (removeLocked k p q) = pendingFree q @ [dataOf (qheap q p)]"
  "freeEntries (removeLocked k p q) = freeEntries q @ [p]"
  "arena (removeLocked k p q) = arena q" "ackedThrough (removeLocked k p q) = ackedThrough q"
  "qfresh (removeLocked k p q) = qfresh q"
  "r \<noteq> p \<Longrightarrow> body (qheap (removeLocked k p q) r) = body (qheap q r)"
  using samePoolD [OF unlink_keeps(2) [of q p]] body_eqD(8) [OF unlink_keeps(1) [of p q p]]
  by (simp_all add: removeLocked_def Let_def)

lemma removeLocked_links:
  assumes "links q (xs @ p # ys)"
  shows "links (removeLocked k p q) (xs @ ys)"
proof -
  have d: "p \<notin> set (xs @ ys)" using assms by (auto simp: links_def)
  have "links (unlink p q) (xs @ ys)" by (rule unlink_links [OF assms])
  then show ?thesis using d unfolding links_def
    by (simp add: removeLocked_def Let_def)
qed

lemma removeLocked_qinv:
  assumes inv: "qinv t lent q ps" and p: "mget (entries q) k = Some p"
  shows "qinv t lent (removeLocked k p q) (remove1 p ps)"
    and "map (view (removeLocked k p q)) (remove1 p ps) = filter (\<lambda>f. fKey f \<noteq> k) (map (view q) ps)"
    and "set (inUse l (removeLocked k p q) (remove1 p ps)) = set (inUse l q ps)"
proof -
  let ?q = "removeLocked k p q"
  note q = inv [unfolded qinv_def]
  have ix: "index q ps" and lk: "links q ps" using q by simp_all
  have kp: "p \<in> set ps" "k = fKey (view q p)" using p index_find(2) [OF ix] by auto
  obtain xs ys where ps: "ps = xs @ p # ys" using split_list [OF kp(1)] by blast
  have d: "p \<notin> set xs" "p \<notin> set ys" "distinct (xs @ ys)" using lk by (auto simp: ps links_def)
  have r: "remove1 p ps = xs @ ys" using d by (simp add: ps remove1_append)
  have b: "body (qheap ?q r) = body (qheap q r)" if "r \<in> set (xs @ ys)" for r
    using that d by (intro removeLocked_simps) auto
  note bd = body_eqD [OF b]
  have "links ?q (xs @ ys)" using lk unfolding ps by (rule removeLocked_links)
  moreover have "index ?q (xs @ ys)"
  proof -
    have "mget (entries ?q) k' = Some r \<longleftrightarrow>
       r \<in> set (xs @ ys) \<and> k' = retransmitKey (estreamID (qheap ?q r)) (eseq (qheap ?q r))" for k' r
    proof (cases "r \<in> set (xs @ ys)")
      case True
      have ne: "fKey (view q r) \<noteq> k"
        using True d kp p index_mget [OF ix, of k r] by (auto simp: view_key ps)
      then show ?thesis using True index_find(2) [OF ix, of k' r]
        by (auto simp: removeLocked_simps mget_mdel ps view_key bd)
    next
      case False
      then show ?thesis using index_find(2) [OF ix, of k' r] kp
        by (auto simp: removeLocked_simps mget_mdel ps)
    qed
    then show ?thesis using ix by (simp add: index_iff removeLocked_simps(1))
  qed
  moreover have "pool ?q (xs @ ys)" using q by (auto simp: pool_def ps removeLocked_simps)
  moreover have "inUse lent ?q (xs @ ys) = map (\<lambda>p. dataOf (qheap q p)) (xs @ ys) @ (pendingFree q @ [dataOf (qheap q p)]) @ lent"
    by (simp add: inUse_def removeLocked_simps bd)
  then have "mset (inUse lent q ps) = mset (inUse lent ?q (xs @ ys))"
    unfolding \<open>inUse lent ?q (xs @ ys) = _\<close> by (simp add: inUse_def ps)
  then have "owned (arena ?q) (inUse lent ?q (xs @ ys))"
    using q owned_perm by (auto simp: removeLocked_simps)
  moreover have "order t q (xs @ ys)" using q by (auto simp: order_def ps sorted_append)
  then have "order t ?q (xs @ ys)" using order_cong [of "xs @ ys" ?q q t] bd(5) by blast
  ultimately show "qinv t lent ?q (remove1 p ps)" unfolding r qinv_def by blast
  show "set (inUse l ?q (remove1 p ps)) = set (inUse l q ps)"
    unfolding r inUse_def removeLocked_simps using bd(8) by (auto simp: ps image_iff)
  have v: "view ?q r = view q r" if "r \<in> set (xs @ ys)" for r
    using that b by (intro view_body) (auto simp: removeLocked_simps)
  have "distinct (map fKey (map (view q) ps))" by (rule distinct_keys [OF lk ix])
  then have "fKey (view q p) \<notin> (\<lambda>r. fKey (view q r)) ` set (xs @ ys)" by (simp add: ps o_def image_Un)
  then have "\<forall>r \<in> set (xs @ ys). fKey (view q r) \<noteq> k" unfolding kp(2) by (metis imageI)
  then show "map (view ?q) (remove1 p ps) = filter (\<lambda>f. fKey f \<noteq> k) (map (view q) ps)"
    unfolding r using v kp(2) by (simp add: ps filter_id_conv)
qed

section \<open>Acknowledgements\<close>

lemma owned_length:
  assumes "qinv t lent q ps" "p \<in> set ps"
  shows "slen (dataOf (qheap q p)) = length (fData (view q p))"
proof -
  have "dataOf (qheap q p) \<in> set (inUse lent q ps)" using assms(2) by (simp add: inUse_def)
  then show ?thesis using assms(1) by (auto simp: qinv_def owned_def view_def sliceRead_def Let_def)
qed

text \<open>What an acknowledgement of the frames with keys in \<open>K\<close> does to the outstanding frames.\<close>

definition acked :: "u64 set \<Rightarrow> pframe list \<Rightarrow> pframe list" where
  "acked K fs = filter (\<lambda>f. fKey f \<in> K) fs"

definition unacked :: "u64 set \<Rightarrow> pframe list \<Rightarrow> pframe list" where
  "unacked K fs = filter (\<lambda>f. fKey f \<notin> K) fs"

definition sizes :: "pframe list \<Rightarrow> int" where
  "sizes fs = (\<Sum>f\<leftarrow>fs. int (length (fData f)))"

lemma unacked_insert: "unacked (insert k K) fs = unacked K (filter (\<lambda>f. fKey f \<noteq> k) fs)"
  by (simp add: unacked_def conj_commute)

lemma sizes_split: "sizes (acked (insert k K) fs) = sizes (acked {k} fs) + sizes (acked K (filter (\<lambda>f. fKey f \<noteq> k) fs))"
  by (induction fs) (auto simp: sizes_def acked_def)

lemma acked_single:
  assumes "distinct (map fKey fs)" "f \<in> set fs"
  shows "acked {fKey f} fs = [f]"
proof -
  obtain xs ys where "fs = xs @ f # ys" using split_list [OF assms(2)] by blast
  moreover from this have "fKey f \<notin> fKey ` set xs" "fKey f \<notin> fKey ` set ys" using assms(1) by auto
  moreover have "fKey f \<notin> fKey ` set zs \<Longrightarrow> filter (\<lambda>g. fKey g = fKey f) zs = []" for zs
    by (induction zs) auto
  ultimately show ?thesis by (simp add: acked_def)
qed

lemma ackBody_step:
  assumes inv: "qinv t lent q ps" and r: "ackBody now sid sq (fr, rtt, q) = (fr', rtt', q')"
  defines "k \<equiv> retransmitKey sid sq"
  shows "\<exists>ps'. qinv t lent q' ps' \<and> map (view q') ps' = filter (\<lambda>f. fKey f \<noteq> k) (map (view q) ps) \<and>
    fr' = fr + sizes (acked {k} (map (view q) ps)) \<and> arena q' = arena q \<and> ackedThrough q' = ackedThrough q \<and>
    (rtt' = rtt \<or> (\<exists>f \<in> set (map (view q) ps). fKey f = k \<and> fRetries f = 0 \<and> rtt' = time_sub now (fSentAt f)))"
proof (cases "mget (entries q) k")
  case None
  have "index q ps" using inv by (simp add: qinv_def)
  then have "k \<notin> fKey ` set (map (view q) ps)" using None index_find(1) by metis
  then have "filter (\<lambda>f. fKey f \<noteq> k) (map (view q) ps) = map (view q) ps" "acked {k} (map (view q) ps) = []"
    by (auto simp: acked_def filter_empty_conv filter_id_conv)
  then show ?thesis using inv r None by (auto simp: ackBody_def k_def sizes_def)
next
  case (Some p)
  have p: "p \<in> set ps" "k = fKey (view q p)" using Some inv index_find(2) [of q ps k p] by (auto simp: qinv_def)
  have "distinct (map fKey (map (view q) ps))" using inv by (intro distinct_keys) (simp_all add: qinv_def)
  then have "acked {k} (map (view q) ps) = [view q p]" using p acked_single by simp
  then have "int (slen (dataOf (qheap q p))) = sizes (acked {k} (map (view q) ps))"
    using owned_length [OF inv p(1)] by (simp add: sizes_def)
  moreover have "fRetries (view q p) = eretries (qheap q p)" "fSentAt (view q p) = esentAt (qheap q p)"
    by (simp_all add: view_def Let_def)
  ultimately show ?thesis
    using removeLocked_qinv [OF inv Some] r Some p
    by (intro exI [of _ "remove1 p ps"])
       (auto simp: ackBody_def k_def [symmetric] Let_def removeLocked_simps split: if_splits)
qed

lemma ackFold_step:
  assumes "qinv t lent q ps" "fold (ackBody now sid) sqs (fr, rtt, q) = (fr', rtt', q')"
  defines "K \<equiv> retransmitKey sid ` set sqs"
  shows "\<exists>ps'. qinv t lent q' ps' \<and> map (view q') ps' = unacked K (map (view q) ps) \<and>
    fr' = fr + sizes (acked K (map (view q) ps)) \<and> arena q' = arena q \<and> ackedThrough q' = ackedThrough q \<and>
    (rtt' = rtt \<or> (\<exists>f \<in> set (acked K (map (view q) ps)). fRetries f = 0 \<and> rtt' = time_sub now (fSentAt f)))"
  using assms(1,2) unfolding K_def
proof (induction sqs arbitrary: fr rtt q ps)
  case Nil
  then show ?case by (auto simp: unacked_def acked_def sizes_def)
next
  case (Cons sq sqs)
  let ?k = "retransmitKey sid sq" and ?K = "retransmitKey sid ` set sqs"
  obtain fr1 rtt1 q1 where r1: "ackBody now sid sq (fr, rtt, q) = (fr1, rtt1, q1)" by (metis prod_cases3)
  from ackBody_step [OF Cons.prems(1) r1] obtain ps1 where s1: "qinv t lent q1 ps1"
    "map (view q1) ps1 = filter (\<lambda>f. fKey f \<noteq> ?k) (map (view q) ps)"
    "fr1 = fr + sizes (acked {?k} (map (view q) ps))" "arena q1 = arena q" "ackedThrough q1 = ackedThrough q"
    "rtt1 = rtt \<or> (\<exists>f \<in> set (map (view q) ps). fKey f = ?k \<and> fRetries f = 0 \<and> rtt1 = time_sub now (fSentAt f))"
    by blast
  from Cons.IH [OF s1(1), of fr1 rtt1] Cons.prems(2) r1 obtain ps' where s2: "qinv t lent q' ps'"
    "map (view q') ps' = unacked ?K (map (view q1) ps1)"
    "fr' = fr1 + sizes (acked ?K (map (view q1) ps1))" "arena q' = arena q1" "ackedThrough q' = ackedThrough q1"
    "rtt' = rtt1 \<or> (\<exists>f \<in> set (acked ?K (map (view q1) ps1)). fRetries f = 0 \<and> rtt' = time_sub now (fSentAt f))"
    by auto
  have "map (view q') ps' = unacked (insert ?k ?K) (map (view q) ps)" using s1(2) s2(2) unacked_insert by metis
  moreover have "fr' = fr + sizes (acked (insert ?k ?K) (map (view q) ps))"
    unfolding s1(2,3) s2(3) sizes_split [of ?k ?K] by simp
  moreover have "rtt' = rtt \<or>
      (\<exists>f \<in> set (acked (insert ?k ?K) (map (view q) ps)). fRetries f = 0 \<and> rtt' = time_sub now (fSentAt f))"
    using s1(6) s2(6) unfolding s1(2) by (auto simp: acked_def)
  ultimately show ?case using s1 s2 by (intro exI [of _ ps']) simp
qed

lemma ackMany_spec:
  assumes "qok t lent q" "ackMany now sid seqs q = (freed, rtt, q')"
  defines "K \<equiv> retransmitKey sid ` set seqs"
  shows "qok t lent q' \<and> frames q' = unacked K (frames q) \<and> freed = sizes (acked K (frames q)) \<and>
    arena q' = arena q \<and> ackedThrough q' = ackedThrough q \<and>
    (rtt = 0 \<or> (\<exists>f \<in> set (acked K (frames q)). fRetries f = 0 \<and> rtt = time_sub now (fSentAt f)))"
proof -
  have inv: "qinv t lent q (chain q)" using assms(1) by (simp add: qok_def)
  from ackFold_step [OF inv assms(2) [unfolded ackMany_def]] obtain ps' where
    s: "qinv t lent q' ps'" "map (view q') ps' = unacked K (map (view q) (chain q))"
      "freed = 0 + sizes (acked K (map (view q) (chain q)))" "arena q' = arena q" "ackedThrough q' = ackedThrough q"
      "rtt = 0 \<or> (\<exists>f \<in> set (acked K (map (view q) (chain q))). fRetries f = 0 \<and> rtt = time_sub now (fSentAt f))"
    unfolding K_def by blast
  show ?thesis using s qinv_qok [OF s(1)] frames_eq [OF s(1)] by (simp add: frames_def)
qed

lemma qinv_ackedThrough [simp]: "qinv t lent (q\<lparr>ackedThrough := m\<rparr>) ps = qinv t lent q ps"
  by (simp add: qinv_def links_def index_def pool_def order_def inUse_def)

lemma chain_ackedThrough [simp]: "chain (q\<lparr>ackedThrough := m\<rparr>) = chain q"
  by (simp add: chain_def)

lemma qok_ackedThrough [simp]: "qok t lent (q\<lparr>ackedThrough := m\<rparr>) = qok t lent q"
  by (simp add: qok_def)

lemma view_ackedThrough [simp]: "view (q\<lparr>ackedThrough := m\<rparr>) = view q"
  by (simp add: view_def fun_eq_iff)

lemma frames_ackedThrough [simp]: "frames (q\<lparr>ackedThrough := m\<rparr>) = frames q"
  by (simp add: frames_def view_def Let_def)

text \<open>The sequence numbers a cumulative acknowledgement sweeps.\<close>

definition sweep :: "u32 \<Rightarrow> u32 \<Rightarrow> retransmitQueue \<Rightarrow> u32 set" where
  "sweep sid cum q =
     (let from = (case mget (ackedThrough q) sid of None \<Rightarrow> 0 | Some w \<Rightarrow> w)
      in if cum \<le> from \<or> maxCumAdvance < cum - from then {} else {sq. from \<le> sq \<and> sq < cum})"

lemma set_word_upt: "set (map of_nat [unat from..<unat cum]) = {sq :: u32. from \<le> sq \<and> sq < cum}"
proof -
  have "sq \<in> of_nat ` {unat from..<unat cum}" if "from \<le> sq" "sq < cum" for sq :: u32
    using that by (intro image_eqI [of _ _ "unat sq"]) (simp_all add: word_to_nat)
  moreover have "from \<le> of_nat n" "of_nat n < cum" if "unat from \<le> n" "n < unat cum" for n
    using that unat32_less [of cum] by (simp_all add: word_to_nat)
  ultimately show ?thesis by auto
qed

lemma ackCumulative_spec:
  assumes "qok t lent q" "ackCumulative now sid cum q = (freed, rtt, q')"
  defines "K \<equiv> retransmitKey sid ` sweep sid cum q"
  shows "qok t lent q' \<and> frames q' = unacked K (frames q) \<and> freed = sizes (acked K (frames q)) \<and>
    arena q' = arena q \<and>
    ackedThrough q' = (if sweep sid cum q = {} then ackedThrough q else mput sid cum (ackedThrough q)) \<and>
    (rtt = 0 \<or> (\<exists>f \<in> set (acked K (frames q)). fRetries f = 0 \<and> rtt = time_sub now (fSentAt f)))"
proof -
  let ?from = "case mget (ackedThrough q) sid of None \<Rightarrow> 0 | Some w \<Rightarrow> w"
  show ?thesis
  proof (cases "cum \<le> ?from \<or> maxCumAdvance < cum - ?from")
    case True
    then have "sweep sid cum q = {}" by (auto simp: sweep_def Let_def)
    then show ?thesis using True assms(1,2)
      by (auto simp: ackCumulative_def Let_def K_def unacked_def acked_def sizes_def)
  next
    case False
    let ?seqs = "map of_nat [unat ?from..<unat cum]"
    obtain fr r q1 where f: "ackMany now sid ?seqs q = (fr, r, q1)" by (metis prod_cases3)
    have res: "freed = fr" "rtt = r" "q' = q1\<lparr>ackedThrough := mput sid cum (ackedThrough q1)\<rparr>"
      using assms(2) f False by (auto simp: ackCumulative_def ackMany_def Let_def)
    have sw: "sweep sid cum q = set ?seqs"
      unfolding set_word_upt using False by (simp only: sweep_def Let_def if_False)
    have ne: "sweep sid cum q \<noteq> {}" unfolding sw using False by (simp add: word_to_nat)
    from ackMany_spec [OF assms(1) f] show ?thesis
      unfolding res K_def sw using ne [unfolded sw] by simp
  qed
qed

lemma ackOne_ackMany: "ackOne sid sq q = snd (snd (ackMany now sid [sq] q))"
  by (simp add: ackOne_def ackMany_def ackBody_def Let_def split: option.split)

lemma ackOne_spec:
  assumes "qok t lent q"
  shows "qok t lent (ackOne sid sq q) \<and> frames (ackOne sid sq q) = unacked {retransmitKey sid sq} (frames q)"
proof -
  obtain fr r q1 where f: "ackMany 0 sid [sq] q = (fr, r, q1)" by (metis prod_cases3)
  from ackMany_spec [OF assms f] f show ?thesis by (simp add: ackOne_ackMany [of sid sq q 0])
qed

section \<open>Purging a stream\<close>

abbreviation purgeBody :: "u32 \<Rightarrow> u64 \<times> ptr \<Rightarrow> retransmitQueue \<Rightarrow> retransmitQueue" where
  "purgeBody sid \<equiv> (\<lambda>(k, p) q. if estreamID (qheap q p) = sid then removeLocked k p q else q)"

lemma purgeFold:
  assumes "qinv t lent q ps" "\<forall>(k, p) \<in> set L. mget (entries q) k = Some p" "distinct (map fst L)"
  shows "\<exists>ps'. qinv t lent (fold (purgeBody sid) L q) ps' \<and>
    map (view (fold (purgeBody sid) L q)) ps' =
      filter (\<lambda>f. \<not> (fStream f = sid \<and> fKey f \<in> fst ` set L)) (map (view q) ps)"
  using assms
proof (induction L arbitrary: q ps)
  case Nil
  then show ?case by auto
next
  case (Cons kp L)
  obtain k p where kp: "kp = (k, p)" by fastforce
  have p: "mget (entries q) k = Some p" using Cons.prems(2) kp by simp
  have ix: "index q ps" using Cons.prems(1) by (simp add: qinv_def)
  have pk: "p \<in> set ps" "k = fKey (view q p)" "fStream (view q p) = estreamID (qheap q p)"
    using p index_find(2) [OF ix] by (auto simp: view_def Let_def)
  have same: "fStream f = estreamID (qheap q p)" if "fKey f = k" for f
    using that pk(2,3) by (simp add: fKey_def)
  show ?case
  proof (cases "estreamID (qheap q p) = sid")
    case True
    let ?q = "removeLocked k p q"
    have "\<forall>(k', p') \<in> set L. mget (entries ?q) k' = Some p'"
    proof safe
      fix k' p' assume kl: "(k', p') \<in> set L"
      then have "k' \<noteq> k" using Cons.prems(3) kp by (auto simp: image_iff)
      then show "mget (entries ?q) k' = Some p'" using Cons.prems(2) kl by (auto simp: removeLocked_simps mget_mdel)
    qed
    from Cons.IH [OF removeLocked_qinv(1) [OF Cons.prems(1) p] this] Cons.prems(3)
    obtain ps' where s: "qinv t lent (fold (purgeBody sid) L ?q) ps'"
      "map (view (fold (purgeBody sid) L ?q)) ps' =
        filter (\<lambda>f. \<not> (fStream f = sid \<and> fKey f \<in> fst ` set L)) (map (view ?q) (remove1 p ps))" by auto
    have "filter (\<lambda>f. \<not> (fStream f = sid \<and> fKey f \<in> fst ` set L)) (map (view ?q) (remove1 p ps)) =
        filter (\<lambda>f. \<not> (fStream f = sid \<and> fKey f \<in> fst ` set (kp # L))) (map (view q) ps)"
      unfolding removeLocked_qinv(2) [OF Cons.prems(1) p] filter_filter
      using same True by (intro filter_cong) (auto simp: kp)
    then show ?thesis using s True by (auto simp: kp)
  next
    case False
    from Cons.IH [OF Cons.prems(1)] Cons.prems(2,3) obtain ps' where
      s: "qinv t lent (fold (purgeBody sid) L q) ps'"
      "map (view (fold (purgeBody sid) L q)) ps' =
        filter (\<lambda>f. \<not> (fStream f = sid \<and> fKey f \<in> fst ` set L)) (map (view q) ps)" by auto
    have "filter (\<lambda>f. \<not> (fStream f = sid \<and> fKey f \<in> fst ` set L)) (map (view q) ps) =
        filter (\<lambda>f. \<not> (fStream f = sid \<and> fKey f \<in> fst ` set (kp # L))) (map (view q) ps)"
      using same False by (intro filter_cong) (auto simp: kp)
    then show ?thesis using s False by (auto simp: kp)
  qed
qed

lemma purgeStream_spec:
  assumes "qok t lent q"
  shows "qok t lent (purgeStream sid q) \<and> frames (purgeStream sid q) = filter (\<lambda>f. fStream f \<noteq> sid) (frames q)"
proof -
  have inv: "qinv t lent q (chain q)" using assms by (simp add: qok_def)
  have ix: "index q (chain q)" using inv by (simp add: qinv_def)
  then have m: "mok (entries q)" by (simp add: index_def)
  then have L: "\<forall>(k, p) \<in> set (entries q). mget (entries q) k = Some p" "distinct (map fst (entries q))"
    by (auto simp: mget_iff) (simp add: mok_def mkeys_def)
  from purgeFold [OF inv L, of sid] obtain ps' where
    s: "qinv t lent (purgeStream sid q) ps'"
      "map (view (purgeStream sid q)) ps' = filter (\<lambda>f. \<not> (fStream f = sid \<and> fKey f \<in> fst ` set (entries q))) (map (view q) (chain q))"
    unfolding purgeStream_def Let_def by auto
  have "fKey f \<in> fst ` set (entries q)" if "f \<in> set (map (view q) (chain q))" for f
    using that index_find(2) [OF ix, of "fKey f"] by (force dest: mget_SomeD)
  then have "frames (purgeStream sid q) = filter (\<lambda>f. fStream f \<noteq> sid) (map (view q) (chain q))"
    using s frames_eq [OF s(1)] by (auto intro: filter_cong)
  then show ?thesis using qinv_qok [OF s(1)] by (simp add: frames_def)
qed

lemma hasStream_spec:
  assumes "qok t lent q"
  shows "hasStream sid q \<longleftrightarrow> (\<exists>f \<in> set (frames q). fStream f = sid)"
proof -
  have ix: "snd ` set (entries q) = set (chain q)" using assms by (simp add: qok_def qinv_def index_def)
  have "hasStream sid q \<longleftrightarrow> (\<exists>p \<in> snd ` set (entries q). estreamID (qheap q p) = sid)"
    by (force simp: hasStream_def list_ex_iff)
  then show ?thesis by (simp add: ix frames_def view_def Let_def)
qed

end
