(* ===== verification/RetransmitSend.thy ===== *)
theory RetransmitSend
  imports RetransmitOps
begin

text \<open>
  The operations of the retransmission queue that put frames in, mark them for resending and recycle
  buffers: \<open>add\<close>, \<open>requestForResend\<close>, \<open>peekForResend\<close>, \<open>takeForResend\<close>, \<open>releaseResendCopy\<close>, \<open>due\<close> and
  the two drains.
\<close>

section \<open>Marking an entry\<close>

definition setQueued :: "bool \<Rightarrow> ptr \<Rightarrow> retransmitQueue \<Rightarrow> retransmitQueue" where
  "setQueued b p q = hupd p (\<lambda>e. e\<lparr>equeued := b\<rparr>) q"

lemma setQueued_heap:
  "eprev (qheap (setQueued b p q) r) = eprev (qheap q r)" "enext (qheap (setQueued b p q) r) = enext (qheap q r)"
  "estreamID (qheap (setQueued b p q) r) = estreamID (qheap q r)" "eseq (qheap (setQueued b p q) r) = eseq (qheap q r)"
  "dataOf (qheap (setQueued b p q) r) = dataOf (qheap q r)" "esentAt (qheap (setQueued b p q) r) = esentAt (qheap q r)"
  by (simp_all add: setQueued_def dataOf_def)

lemma setQueued_qinv:
  assumes "qinv t lent q ps"
  shows "qinv t lent (setQueued b p q) ps"
proof -
  have "seg (qheap (setQueued b p q)) None ps None = seg (qheap q) None ps None"
    by (rule seg_cong) (simp add: setQueued_heap)
  moreover have "order t (setQueued b p q) ps = order t q ps" by (rule order_cong) (simp add: setQueued_heap)
  moreover have "entries (setQueued b p q) = entries q" "qhead (setQueued b p q) = qhead q"
    "qtail (setQueued b p q) = qtail q" "freeEntries (setQueued b p q) = freeEntries q"
    "arena (setQueued b p q) = arena q" "pendingFree (setQueued b p q) = pendingFree q"
    "qfresh (setQueued b p q) = qfresh q"
    by (simp_all add: setQueued_def)
  ultimately show ?thesis
    using assms by (simp add: qinv_def links_def index_def pool_def inUse_def setQueued_heap)
qed

lemma setQueued_view: "view (setQueued b p q) r = (if r = p then (view q r)\<lparr>fQueued := b\<rparr> else view q r)"
  by (simp add: view_def setQueued_def dataOf_def Let_def)

definition mark :: "u64 set \<Rightarrow> pframe list \<Rightarrow> pframe list" where
  "mark K fs = map (\<lambda>f. if fKey f \<in> K then f\<lparr>fQueued := True\<rparr> else f) fs"

lemma key_inj:
  assumes "qinv t lent q ps" "p \<in> set ps" "r \<in> set ps"
  shows "fKey (view q r) = fKey (view q p) \<longleftrightarrow> r = p"
proof -
  have "index q ps" using assms(1) by (simp add: qinv_def)
  from index_find(2) [OF this, of "fKey (view q p)"] assms(2,3) show ?thesis
    by (metis option.inject)
qed

lemma setQueued_mark:
  assumes "qinv t lent q ps" "p \<in> set ps"
  shows "map (view (setQueued True p q)) ps = mark {fKey (view q p)} (map (view q) ps)"
  using key_inj [OF assms] by (simp add: mark_def setQueued_view)

lemma mget_frame:
  assumes "qok t lent q" "mget (entries q) (retransmitKey sid sq) = Some p"
  shows "p \<in> set (chain q) \<and> view q p \<in> set (frames q) \<and> fKey (view q p) = retransmitKey sid sq \<and>
    fStream (view q p) = sid \<and> fSeq (view q p) = sq"
proof -
  have "index q (chain q)" using assms(1) by (simp add: qok_def qinv_def)
  from index_find(2) [OF this, of "retransmitKey sid sq" p] assms(2) show ?thesis
    by (auto simp: frames_def fKey_def)
qed

lemma mget_no_frame:
  assumes "qok t lent q"
  shows "mget (entries q) k = None \<longleftrightarrow> k \<notin> fKey ` set (frames q)"
  using assms index_find(1) [of q "chain q" k] by (simp add: qok_def qinv_def frames_def)

text \<open>The outstanding frame with a key, as a search in the list.\<close>

definition lookup :: "u64 \<Rightarrow> pframe list \<Rightarrow> pframe option" where
  "lookup k fs = find (\<lambda>f. fKey f = k) fs"

lemma lookup_mget:
  assumes "qok t lent q"
  shows "lookup k (frames q) = map_option (view q) (mget (entries q) k)"
proof (cases "mget (entries q) k")
  case None
  then show ?thesis using mget_no_frame [OF assms, of k] by (force simp: lookup_def find_None_iff)
next
  case (Some p)
  have inv: "qinv t lent q (chain q)" using assms by (simp add: qok_def)
  have p: "p \<in> set (chain q)" "k = fKey (view q p)"
    using Some inv index_find(2) [of q "chain q" k p] by (auto simp: qinv_def)
  have "find (\<lambda>f. fKey f = k) (map (view q) xs) = Some (view q p)"
    if "p \<in> set xs" "set xs \<subseteq> set (chain q)" for xs
    using that key_inj [OF inv p(1)] p(2) by (induction xs) auto
  from this [OF p(1)] show ?thesis using Some by (simp add: lookup_def frames_def)
qed

lemma requestForResend_spec:
  assumes "qok t lent q" "requestForResend now sid sq minAge q = (r, q')"
  shows "qok t lent q' \<and> arena q' = arena q \<and> pendingFree q' = pendingFree q \<and>
    (case lookup (retransmitKey sid sq) (frames q) of
       None \<Rightarrow> r = None \<and> frames q' = frames q
     | Some f \<Rightarrow>
         if fQueued f \<or> 0 < minAge \<and> time_sub now (fSentAt f) < minAge then r = None \<and> frames q' = frames q
         else r = Some \<lparr>reqStream = sid, reqSeq = sq\<rparr> \<and> frames q' = mark {retransmitKey sid sq} (frames q))"
proof (cases "mget (entries q) (retransmitKey sid sq)")
  case None
  then show ?thesis using assms lookup_mget [OF assms(1), of "retransmitKey sid sq"]
    by (auto simp: requestForResend_def)
next
  case (Some p)
  have inv: "qinv t lent q (chain q)" using assms(1) by (simp add: qok_def)
  have p: "p \<in> set (chain q)" "fKey (view q p) = retransmitKey sid sq" using mget_frame [OF assms(1) Some] by auto
  have fs: "fQueued (view q p) = equeued (qheap q p)" "fSentAt (view q p) = esentAt (qheap q p)"
    by (simp_all add: view_def Let_def)
  have l: "lookup (retransmitKey sid sq) (frames q) = Some (view q p)" using lookup_mget [OF assms(1)] Some by simp
  show ?thesis
  proof (cases "equeued (qheap q p) \<or> 0 < minAge \<and> time_sub now (esentAt (qheap q p)) < minAge")
    case True
    then show ?thesis using assms Some l fs by (auto simp: requestForResend_def)
  next
    case False
    then have r: "r = Some \<lparr>reqStream = sid, reqSeq = sq\<rparr>" "q' = setQueued True p q"
      using assms(2) Some by (auto simp: requestForResend_def setQueued_def)
    have i: "qinv t lent q' (chain q)" unfolding r by (rule setQueued_qinv [OF inv])
    have "frames q' = mark {retransmitKey sid sq} (frames q)"
      using frames_eq [OF i] setQueued_mark [OF inv p(1)] p(2) by (simp add: r frames_def)
    then show ?thesis using l fs False r(1) qinv_qok [OF i] by (auto simp: r(2) setQueued_def)
  qed
qed

lemma peekForResend_spec:
  assumes "qok t lent q"
  shows "peekForResend req q = (case lookup (retransmitKey (reqStream req) (reqSeq req)) (frames q) of
     None \<Rightarrow> None
   | Some f \<Rightarrow> if fQueued f then Some (fType f, length (fData f)) else None)"
proof (cases "mget (entries q) (retransmitKey (reqStream req) (reqSeq req))")
  case None
  then show ?thesis by (simp add: peekForResend_def lookup_mget [OF assms])
next
  case (Some p)
  have "slen (dataOf (qheap q p)) = length (fData (view q p))"
    using mget_frame [OF assms Some] owned_length assms by (auto simp: qok_def)
  moreover have "fQueued (view q p) = equeued (qheap q p)" "fType (view q p) = eftype (qheap q p)"
    by (simp_all add: view_def Let_def)
  ultimately show ?thesis using Some by (simp add: peekForResend_def lookup_mget [OF assms])
qed

section \<open>The due scan\<close>

text \<open>A frame is overdue when it has been outstanding for at least the timeout; overdue frames that
  are not queued yet get a request.\<close>

definition overdue :: "time \<Rightarrow> duration \<Rightarrow> pframe \<Rightarrow> bool" where
  "overdue now rto f \<longleftrightarrow> rto \<le> time_sub now (fSentAt f)"

definition request :: "pframe \<Rightarrow> retransmitRequest" where
  "request f = \<lparr>reqStream = fStream f, reqSeq = fSeq f\<rparr>"

lemma dueWalk_spec:
  assumes "qinv t lent q (xs @ ys)" "length ys < k"
  shows "\<exists>q'. dueWalk k now rto (firstp ys None) reqs q =
      Some (reqs @ map request (filter (\<lambda>f. \<not> fQueued f) (takeWhile (overdue now rto) (map (view q) ys))), q') \<and>
    qinv t lent q' (xs @ ys) \<and> arena q' = arena q \<and> pendingFree q' = pendingFree q \<and>
    map (view q') (xs @ ys) = map (view q) xs @
      map (\<lambda>f. f\<lparr>fQueued := True\<rparr>) (takeWhile (overdue now rto) (map (view q) ys)) @
      dropWhile (overdue now rto) (map (view q) ys)"
  using assms
proof (induction ys arbitrary: k xs q reqs)
  case Nil
  then show ?case by (cases k) auto
next
  case (Cons p ys)
  obtain k' where k: "k = Suc k'" "length ys < k'" using Cons.prems(2) by (cases k) auto
  have v: "fSentAt (view q p) = esentAt (qheap q p)" "fQueued (view q p) = equeued (qheap q p)"
    "request (view q p) = \<lparr>reqStream = estreamID (qheap q p), reqSeq = eseq (qheap q p)\<rparr>"
    by (simp_all add: view_def request_def Let_def)
  show ?case
  proof (cases "overdue now rto (view q p)")
    case False
    then show ?thesis using Cons.prems by (auto simp: k overdue_def v)
  next
    case True
    let ?q = "if equeued (qheap q p) then q else setQueued True p q"
    let ?reqs = "if equeued (qheap q p) then reqs else reqs @ [request (view q p)]"
    have inv: "qinv t lent ?q ((xs @ [p]) @ ys)" using Cons.prems(1) setQueued_qinv by auto
    have d: "p \<notin> set xs" "p \<notin> set ys" using Cons.prems(1) by (auto simp: qinv_def links_def)
    then have vw: "map (view ?q) ys = map (view q) ys" "map (view ?q) xs = map (view q) xs"
      by (auto simp: setQueued_view)
    have vp: "view ?q p = (view q p)\<lparr>fQueued := True\<rparr>"
      using v(2) by (auto simp: setQueued_view)
    have nx: "enext (qheap q p) = firstp ys None" using Cons.prems(1) by (simp add: qinv_def links_def)
    have "dueWalk k now rto (firstp (p # ys) None) reqs q = dueWalk k' now rto (firstp ys None) ?reqs ?q"
      using True by (simp add: k overdue_def v nx setQueued_def not_less)
    moreover from Cons.IH [OF inv k(2), of ?reqs] obtain q' where
      "dueWalk k' now rto (firstp ys None) ?reqs ?q =
        Some (?reqs @ map request (filter (\<lambda>f. \<not> fQueued f) (takeWhile (overdue now rto) (map (view ?q) ys))), q')"
      "qinv t lent q' ((xs @ [p]) @ ys)" "arena q' = arena ?q" "pendingFree q' = pendingFree ?q"
      "map (view q') ((xs @ [p]) @ ys) = map (view ?q) (xs @ [p]) @
        map (\<lambda>f. f\<lparr>fQueued := True\<rparr>) (takeWhile (overdue now rto) (map (view ?q) ys)) @
        dropWhile (overdue now rto) (map (view ?q) ys)" by blast
    ultimately show ?thesis using True v(2)
      unfolding vw(1) map_append [of "view ?q"] vw(2) list.map vp
      by (intro exI [of _ q']) (auto simp: setQueued_def)
  qed
qed

lemma takeWhile_sorted:
  assumes "sorted (map g fs)" and anti: "\<And>a b. g a \<le> g b \<Longrightarrow> P b \<Longrightarrow> P a"
  shows "takeWhile P fs = filter P fs \<and> dropWhile P fs = filter (\<lambda>f. \<not> P f) fs"
  using assms(1)
proof (induction fs)
  case (Cons f fs)
  show ?case
  proof (cases "P f")
    case False
    then have "\<not> P b" if "b \<in> set fs" for b using that Cons.prems anti [of f b] by auto
    then show ?thesis using False by (auto simp: filter_empty_conv filter_id_conv)
  qed (use Cons in auto)
qed simp

lemma frames_sorted: "qok t lent q \<Longrightarrow> sorted (map fSentAt (frames q))"
  by (simp add: qok_def qinv_def order_def frames_def view_def Let_def o_def)

lemma due_spec:
  assumes "qok t lent q"
  shows "\<exists>q'. due now rto q = Some (map request (filter (\<lambda>f. overdue now rto f \<and> \<not> fQueued f) (frames q)), q') \<and>
    qok t lent q' \<and> arena q' = arena q \<and> pendingFree q' = pendingFree q \<and>
    frames q' = map (\<lambda>f. if overdue now rto f then f\<lparr>fQueued := True\<rparr> else f) (frames q)"
proof -
  have inv: "qinv t lent q ([] @ chain q)" using assms by (simp add: qok_def)
  have len: "length (chain q) < Suc (qfresh q)"
    using assms length_below [of "chain q" "qfresh q"] by (auto simp: qok_def qinv_def links_def pool_def)
  have hd: "qhead q = firstp (chain q) None" using assms by (simp add: qok_def qinv_def links_def)
  have tw: "takeWhile (overdue now rto) (frames q) = filter (overdue now rto) (frames q)"
    "dropWhile (overdue now rto) (frames q) = filter (\<lambda>f. \<not> overdue now rto f) (frames q)"
    using takeWhile_sorted [OF frames_sorted [OF assms], of "overdue now rto"]
    by (auto simp: overdue_def dest: time_sub_antimono [of _ _ now] order_trans)
  from dueWalk_spec [OF inv len, of now rto "[]"] obtain q' where
    r: "due now rto q = Some (map request (filter (\<lambda>f. \<not> fQueued f) (takeWhile (overdue now rto) (frames q))), q')"
      "qinv t lent q' (chain q)" "arena q' = arena q" "pendingFree q' = pendingFree q"
      "map (view q') (chain q) = map (\<lambda>f. f\<lparr>fQueued := True\<rparr>) (takeWhile (overdue now rto) (frames q)) @
         dropWhile (overdue now rto) (frames q)"
    by (auto simp: due_def hd frames_def)
  have "map (\<lambda>f. if overdue now rto f then f\<lparr>fQueued := True\<rparr> else f) (takeWhile (overdue now rto) (frames q)) =
      map (\<lambda>f. f\<lparr>fQueued := True\<rparr>) (takeWhile (overdue now rto) (frames q))"
    by (auto dest: set_takeWhileD)
  moreover have "map (\<lambda>f. if overdue now rto f then f\<lparr>fQueued := True\<rparr> else f) (dropWhile (overdue now rto) (frames q)) =
      dropWhile (overdue now rto) (frames q)"
    unfolding tw(2) by (auto intro: map_idI)
  ultimately have "frames q' = map (\<lambda>f. if overdue now rto f then f\<lparr>fQueued := True\<rparr> else f)
      (takeWhile (overdue now rto) (frames q) @ dropWhile (overdue now rto) (frames q))"
    using frames_eq [OF r(2)] r(5) by (simp only: map_append)
  then show ?thesis
    unfolding takeWhile_dropWhile_id using r(1,3,4) qinv_qok [OF r(2)] by (simp add: tw(1) conj_commute)
qed

section \<open>Recording a frame\<close>

lemma getEntry_fresh:
  assumes "pool q ps" "getEntry q = (p, q')"
  shows "pool q' (p # ps)" "r \<in> set ps \<Longrightarrow> qheap q' r = qheap q r"
    "entries q' = entries q" "qhead q' = qhead q" "qtail q' = qtail q" "arena q' = arena q"
    "pendingFree q' = pendingFree q" "ackedThrough q' = ackedThrough q"
proof -
  show "pool q' (p # ps)"
  proof (cases "freeEntries q" rule: rev_cases)
    case Nil
    then show ?thesis using assms by (auto simp: getEntry_def pool_def dest: less_SucI)
  next
    case (snoc fs f)
    then show ?thesis using assms by (auto simp: getEntry_def pool_def)
  qed
  show "qheap q' r = qheap q r" if "r \<in> set ps"
    using assms that by (auto simp: getEntry_def pool_def split: if_splits)
qed (use assms(2) in \<open>auto simp: getEntry_def split: if_splits\<close>)

definition newFrame :: "time \<Rightarrow> u8 \<Rightarrow> u32 \<Rightarrow> u32 \<Rightarrow> bytes \<Rightarrow> pframe" where
  "newFrame now ft sid sq payload =
     \<lparr>fType = ft, fStream = sid, fSeq = sq, fData = payload, fSentAt = now, fRetries = 0, fQueued = False\<rparr>"

text \<open>Appending an entry whose body has been written: the chain grows by it.\<close>

lemma append_qinv:
  assumes lk: "links q ps" and ix: "mok (entries q)"
    "\<And>k r. mget (entries q) k = Some r \<longleftrightarrow> r \<in> set (ps @ [p]) \<and> k = retransmitKey (estreamID (qheap q r)) (eseq (qheap q r))"
    and pl: "pool q (p # ps)" and ow: "owned (arena q) (dataOf (qheap q p) # inUse lent q ps)"
    and od: "order t q ps" "t \<le> now" "esentAt (qheap q p) = now"
  shows "qinv now lent (pushTail p q) (ps @ [p])"
proof -
  let ?q = "pushTail p q"
  note sp = samePoolD [OF pushTail_keeps(2) [of q p]]
  note bd = body_eqD [OF pushTail_keeps(1) [of p q]]
  have "links ?q (ps @ [p])" using lk pl by (intro pushTail_links) (auto simp: pool_def)
  moreover have "index ?q (ps @ [p])" using ix by (simp add: index_iff sp bd)
  moreover have "pool ?q (ps @ [p])" using pl by (auto simp: pool_def sp)
  moreover have "mset (dataOf (qheap q p) # inUse lent q ps) = mset (inUse lent ?q (ps @ [p]))"
    by (simp add: inUse_def sp bd)
  then have "owned (arena ?q) (inUse lent ?q (ps @ [p]))" using owned_perm [OF ow] by (simp add: sp)
  moreover have "order now q (ps @ [p])" using od by (force simp: order_def sorted_append)
  then have "order now ?q (ps @ [p])" using order_cong [of "ps @ [p]" ?q q now] bd(5) by blast
  ultimately show ?thesis by (simp add: qinv_def)
qed

lemma queueAdd_spec:
  assumes ok: "qok t lent q" and now: "t \<le> now" and fresh: "retransmitKey sid sq \<notin> fKey ` set (frames q)"
    and r: "queueAdd now ft sid sq payload q = (sl, q')"
  shows "qok now lent q' \<and> frames q' = frames q @ [newFrame now ft sid sq payload] \<and>
    sliceRead sl (arena q') = payload \<and> pendingFree q' = pendingFree q \<and> ackedThrough q' = ackedThrough q \<and>
    untouched (arena q) (arena q') (inUse lent q (chain q)) \<and>
    set (inUse [] q' (chain q')) = insert sl (set (inUse [] q (chain q)))"
proof -
  let ?ps = "chain q" and ?k = "retransmitKey sid sq"
  have inv: "qinv t lent q ?ps" using ok by (simp add: qok_def)
  note i = inv [unfolded qinv_def]
  have ix: "mget (entries q) k = Some r \<longleftrightarrow>
      r \<in> set ?ps \<and> k = retransmitKey (estreamID (qheap q r)) (eseq (qheap q r))" for k r
    using i by (intro index_mget) simp
  have none: "mget (entries q) ?k = None" using fresh mget_no_frame [OF ok] by blast
  obtain sl' a1 where g: "arenaGet (length payload) (arena q) = (sl', a1)" by fastforce
  let ?q1 = "q\<lparr>arena := sliceWrite sl' payload a1\<rparr>"
  obtain p q2 where e: "getEntry ?q1 = (p, q2)" by fastforce
  let ?q3 = "hupd p (\<lambda>e. e\<lparr>eftype := ft, estreamID := sid, eseq := sq, edata := Some sl', esentAt := now,
                          eretries := 0, equeued := False\<rparr>) q2"
  let ?q4 = "?q3\<lparr>entries := mput ?k p (entries ?q3)\<rparr>"
  have res: "sl = sl'" "q' = pushTail p ?q4" using r g e by (auto simp: queueAdd_def Let_def)
  have a: "owned a1 (sl' # inUse lent q ?ps)" "untouched (arena q) a1 (inUse lent q ?ps)" "slen sl' = length payload"
    using arenaGet_owned [OF _ g, of "inUse lent q ?ps"] i by auto
  note w = sliceWrite_owned [OF a(1), of payload]
  have pl: "pool ?q1 ?ps" using i by (simp add: pool_def)
  note ge = getEntry_fresh [OF pl e]
  have p: "p \<notin> set ?ps" using ge(1) by (simp add: pool_def)
  have h: "qheap ?q4 r = qheap q r" if "r \<in> set ?ps" for r using that p ge(2) by auto
  have hp: "dataOf (qheap ?q4 p) = sl'" "estreamID (qheap ?q4 p) = sid" "eseq (qheap ?q4 p) = sq" "esentAt (qheap ?q4 p) = now"
    by (simp_all add: dataOf_def)
  have use: "inUse lent ?q4 ?ps = inUse lent q ?ps"
    using h ge by (simp add: inUse_def)
  have inv': "qinv now lent q' (?ps @ [p])" unfolding res(2)
  proof (rule append_qinv [where t = t])
    have "seg (qheap ?q4) None ?ps None = seg (qheap q) None ?ps None" using h by (intro seg_cong) simp
    then show "links ?q4 ?ps" using i ge by (simp add: links_def)
    show "mok (entries ?q4)" using i ge by (simp add: index_def)
    show "mget (entries ?q4) k = Some r \<longleftrightarrow>
       r \<in> set (?ps @ [p]) \<and> k = retransmitKey (estreamID (qheap ?q4 r)) (eseq (qheap ?q4 r))" for k r
    proof (cases "r = p")
      case True
      then show ?thesis using hp p ix [of k p] ge(3) by (auto simp: mget_mput)
    next
      case False
      have "r \<in> set ?ps \<Longrightarrow> retransmitKey (estreamID (qheap q r)) (eseq (qheap q r)) \<noteq> ?k"
        using none ix [of ?k r] by auto
      then have "r \<in> set ?ps \<and> k = retransmitKey (estreamID (qheap q r)) (eseq (qheap q r)) \<longleftrightarrow>
          mget (mput ?k p (entries q)) k = Some r"
        using False ix [of k r] none by (auto simp: mget_mput)
      then show ?thesis using False ge(3) h [of r] by auto
    qed
    show "pool ?q4 (p # ?ps)" using ge(1) by (simp add: pool_def)
    show "owned (arena ?q4) (dataOf (qheap ?q4 p) # inUse lent ?q4 ?ps)" unfolding hp use using w(1) ge by simp
    have "order t ?q4 ?ps = order t q ?ps" using h by (intro order_cong) simp
    then show "order t ?q4 ?ps" using i by simp
  qed (use now hp in simp_all)
  have ar: "arena q' = sliceWrite sl' payload a1"
    using samePoolD(3) [OF pushTail_keeps(2) [of ?q4 p]] ge res by simp
  moreover have un: "untouched (arena q) (arena q') (inUse lent q ?ps)" unfolding ar
    by (rule untouched_trans [OF a(2) w(2)])
  moreover have "view q' r = view q r" if "r \<in> set ?ps" for r
  proof -
    have "body (qheap q' r) = body (qheap q r)" unfolding res using h [OF that] by simp
    moreover have "dataOf (qheap q r) \<in> set (inUse lent q ?ps)" using that by (simp add: inUse_def)
    ultimately show ?thesis using untouched_read [OF un] by (intro view_body) auto
  qed
  moreover have "view q' p = newFrame now ft sid sq payload"
  proof -
    have "body (qheap q' p) = body (qheap ?q4 p)" unfolding res by simp
    from body_eqD [OF this] show ?thesis
      using w(3) a(3) ar by (simp add: view_def newFrame_def Let_def dataOf_def)
  qed
  ultimately have "frames q' = frames q @ [newFrame now ft sid sq payload]" "qok now lent q'"
    using frames_eq [OF inv'] qinv_qok [OF inv'] by (simp_all add: frames_def)
  moreover have "set (inUse [] q' (chain q')) = insert sl (set (inUse [] q ?ps))"
  proof -
    note dt = body_eqD(8) [OF pushTail_keeps(1) [of p ?q4]]
    have "dataOf (qheap q' p) = sl" "\<And>r. r \<in> set ?ps \<Longrightarrow> dataOf (qheap q' r) = dataOf (qheap q r)"
      unfolding res(2) dt using h hp(1) res(1) by simp_all
    moreover have "pendingFree q' = pendingFree q"
      using ge samePoolD(4) [OF pushTail_keeps(2) [of ?q4 p]] by (simp add: res(2))
    ultimately show ?thesis by (auto simp: qinv_chain [OF inv'] inUse_def image_iff)
  qed
  moreover have "pendingFree q' = pendingFree q" "ackedThrough q' = ackedThrough q"
    using ge samePoolD(4,5) [OF pushTail_keeps(2) [of ?q4 p]] by (simp_all add: res(2))
  ultimately show ?thesis using un w(3) [OF a(3) [symmetric]] by (simp add: res(1) ar)
qed

section \<open>Resending\<close>

text \<open>Moving an entry to the tail, with its timestamp and retry count advanced.\<close>

definition stamp :: "time \<Rightarrow> retransmitEntry \<Rightarrow> retransmitEntry" where
  "stamp now e = e\<lparr>equeued := False, esentAt := now, eretries := eretries e + 1\<rparr>"

definition requeue :: "time \<Rightarrow> ptr \<Rightarrow> retransmitQueue \<Rightarrow> retransmitQueue" where
  "requeue now p q = pushTail p (unlink p (hupd p (stamp now) q))"

definition resent :: "time \<Rightarrow> pframe \<Rightarrow> pframe" where
  "resent now f = f\<lparr>fQueued := False, fSentAt := now, fRetries := fRetries f + 1\<rparr>"

lemma requeue_pool: "samePool q (requeue now p q)"
proof -
  have "samePool q (hupd p (stamp now) q)" by (simp add: samePool_def)
  then show ?thesis unfolding requeue_def
    by (meson samePool_trans unlink_keeps(2) pushTail_keeps(2))
qed

lemma requeue_body:
  "body (qheap (requeue now p q) r) = body (if r = p then stamp now (qheap q p) else qheap q r)"
  by (simp add: requeue_def)

lemma requeue_qinv:
  assumes inv: "qinv t lent q ps" and p: "p \<in> set ps" and now: "t \<le> now"
  shows "qinv now lent (requeue now p q) (remove1 p ps @ [p])"
    and "map (view (requeue now p q)) (remove1 p ps @ [p]) =
      filter (\<lambda>f. fKey f \<noteq> fKey (view q p)) (map (view q) ps) @ [resent now (view q p)]"
proof -
  let ?q1 = "hupd p (stamp now) q"
  let ?q2 = "unlink p ?q1"
  note i = inv [unfolded qinv_def]
  obtain xs ys where ps: "ps = xs @ p # ys" using split_list [OF p] by blast
  have d: "p \<notin> set xs" "p \<notin> set ys" "distinct (xs @ ys)" using i by (auto simp: ps links_def)
  have r: "remove1 p ps = xs @ ys" using d by (simp add: ps remove1_append)
  have b: "body (qheap ?q2 s) = body (if s = p then stamp now (qheap q p) else qheap q s)" for s by simp
  note bd = body_eqD [OF b]
  have sp: "samePool q ?q2" using samePool_trans [OF _ unlink_keeps(2), of q ?q1 p] by (simp add: samePool_def)
  note sp = samePoolD [OF sp]
  have k: "estreamID (qheap ?q2 s) = estreamID (qheap q s)" "eseq (qheap ?q2 s) = eseq (qheap q s)"
    "dataOf (qheap ?q2 s) = dataOf (qheap q s)" for s
    by (simp_all add: bd stamp_def dataOf_def)
  show "qinv now lent (requeue now p q) (remove1 p ps @ [p])" unfolding r requeue_def
  proof (rule append_qinv [where t = t])
    have "seg (qheap ?q1) None ps None = seg (qheap q) None ps None" by (rule seg_cong) (simp add: stamp_def)
    then have "links ?q1 ps" using i by (simp add: links_def)
    then show "links ?q2 (xs @ ys)" unfolding ps by (rule unlink_links)
    show "mok (entries ?q2)" using i by (simp add: sp index_def)
    show "mget (entries ?q2) kk = Some s \<longleftrightarrow>
        s \<in> set ((xs @ ys) @ [p]) \<and> kk = retransmitKey (estreamID (qheap ?q2 s)) (eseq (qheap ?q2 s))" for kk s
      using i index_mget [of q ps kk s] by (auto simp: k sp ps)
    show "pool ?q2 (p # xs @ ys)" using i by (auto simp: pool_def sp ps)
    have "mset (inUse lent q ps) = mset (dataOf (qheap ?q2 p) # inUse lent ?q2 (xs @ ys))"
      by (simp add: inUse_def ps k sp)
    then show "owned (arena ?q2) (dataOf (qheap ?q2 p) # inUse lent ?q2 (xs @ ys))"
      using i owned_perm by (auto simp: sp)
    have "order t ?q2 (xs @ ys) = order t q (xs @ ys)" using d by (intro order_cong) (auto simp: bd)
    then show "order t ?q2 (xs @ ys)" using i by (auto simp: order_def ps sorted_append)
    show "esentAt (qheap ?q2 p) = now" by (simp add: bd stamp_def)
  qed (rule now)
  let ?q3 = "requeue now p q"
  have v: "view ?q3 s = view q s" if "s \<noteq> p" for s
    using that samePoolD(3) [OF requeue_pool] by (intro view_body) (auto simp: requeue_body)
  have vp: "view ?q3 p = resent now (view q p)"
    using body_eqD [OF requeue_body [of now p q p]] samePoolD(3) [OF requeue_pool [of q now p]]
    by (simp add: view_def resent_def stamp_def dataOf_def Let_def)
  have kp: "fKey (view q s) = fKey (view q p) \<longleftrightarrow> s = p" if "s \<in> set ps" for s
    using key_inj [OF inv p that] .
  have "p \<notin> set zs \<Longrightarrow> filter (\<lambda>s. s \<noteq> p) zs = zs" for zs by (induction zs) auto
  then have "filter (\<lambda>s. s \<noteq> p) ps = xs @ ys" using d by (simp add: ps)
  moreover have "filter (\<lambda>f. fKey f \<noteq> fKey (view q p)) (map (view q) ps) = map (view q) (filter (\<lambda>s. s \<noteq> p) ps)"
    unfolding filter_map o_def using kp by (intro arg_cong [where f = "map (view q)"] filter_cong) auto
  moreover have "map (view ?q3) (xs @ ys) = map (view q) (xs @ ys)"
    by (rule map_cong [OF refl v]) (use d in auto)
  ultimately show "map (view ?q3) (remove1 p ps @ [p]) =
      filter (\<lambda>f. fKey f \<noteq> fKey (view q p)) (map (view q) ps) @ [resent now (view q p)]"
    unfolding r by (simp add: vp)
qed

lemma takeForResend_none:
  assumes "qok t lent q"
  shows "fst (takeForResend now req q) = None \<longleftrightarrow>
      (case lookup (retransmitKey (reqStream req) (reqSeq req)) (frames q) of None \<Rightarrow> True | Some f \<Rightarrow> \<not> fQueued f)"
    and "fst (takeForResend now req q) = None \<Longrightarrow> snd (takeForResend now req q) = q"
proof -
  have "fQueued (view q p) = equeued (qheap q p)" for p by (simp add: view_def Let_def)
  then show "fst (takeForResend now req q) = None \<longleftrightarrow>
      (case lookup (retransmitKey (reqStream req) (reqSeq req)) (frames q) of None \<Rightarrow> True | Some f \<Rightarrow> \<not> fQueued f)"
    by (simp add: takeForResend_def lookup_mget [OF assms] Let_def split: option.split prod.split)
qed (auto simp: takeForResend_def Let_def split: option.splits if_splits prod.splits)

lemma takeForResend_spec:
  assumes ok: "qok t lent q" and now: "t \<le> now" and r: "takeForResend now req q = (Some e, q')"
  shows "\<exists>f sl. lookup (retransmitKey (reqStream req) (reqSeq req)) (frames q) = Some f \<and> fQueued f \<and>
    edata e = Some sl \<and> sliceRead sl (arena q') = fData f \<and>
    eftype e = fType f \<and> estreamID e = reqStream req \<and> eseq e = reqSeq req \<and>
    qok now (sl # lent) q' \<and> pendingFree q' = pendingFree q \<and>
    frames q' = filter (\<lambda>g. fKey g \<noteq> fKey f) (frames q) @ [resent now f] \<and>
    untouched (arena q) (arena q') (inUse lent q (chain q)) \<and>
    set (inUse [] q' (chain q')) = set (inUse [] q (chain q))"
proof -
  let ?k = "retransmitKey (reqStream req) (reqSeq req)" and ?ps = "chain q"
  have inv: "qinv t lent q ?ps" using ok by (simp add: qok_def)
  from r obtain p where g: "mget (entries q) ?k = Some p" and qd: "equeued (qheap q p)"
    by (auto simp: takeForResend_def Let_def split: option.splits if_splits)
  let ?q2 = "requeue now p q" and ?f = "view q p"
  have l: "lookup ?k (frames q) = Some ?f" using lookup_mget [OF ok] g by simp
  have p: "p \<in> set ?ps" "fKey ?f = ?k" "fStream ?f = reqStream req" "fSeq ?f = reqSeq req"
    using mget_frame [OF ok g] by auto
  have b: "body (qheap ?q2 p) = body (stamp now (qheap q p))" by (simp add: requeue_body)
  note bd = body_eqD [OF b]
  have dat: "dataOf (qheap ?q2 p) = dataOf (qheap q p)" by (simp add: bd stamp_def dataOf_def)
  note sp = samePoolD [OF requeue_pool [of q now p]]
  let ?src = "dataOf (qheap q p)"
  obtain sl a1 where a: "arenaGet (slen ?src) (arena q) = (sl, a1)" by fastforce
  let ?a2 = "sliceWrite sl (sliceRead ?src a1) a1"
  have res: "e = (qheap ?q2 p)\<lparr>eprev := None, enext := None, equeued := False, edata := Some sl\<rparr>"
    "q' = ?q2\<lparr>arena := ?a2\<rparr>"
    using r g qd a dat sp(3) by (auto simp: takeForResend_def requeue_def stamp_def [abs_def] Let_def)
  let ?ps' = "remove1 p ?ps @ [p]"
  note rq = requeue_qinv [OF inv p(1) now]
  have ow: "owned (arena q) (inUse lent ?q2 ?ps')" using rq(1) sp by (simp add: qinv_def)
  from arenaGet_owned [OF ow a] have o1: "owned a1 (sl # inUse lent ?q2 ?ps')"
    "untouched (arena q) a1 (inUse lent ?q2 ?ps')" "slen sl = slen ?src" by auto
  note w = sliceWrite_owned [OF o1(1), of "sliceRead ?src a1"]
  have un: "untouched (arena q) ?a2 (inUse lent ?q2 ?ps')" by (rule untouched_trans [OF o1(2) w(2)])
  have "owned ?a2 (inUse (sl # lent) ?q2 ?ps')"
    by (rule owned_perm [OF w(1)]) (simp add: inUse_def)
  then have inv': "qinv now (sl # lent) q' ?ps'"
    using qinv_arena [OF rq(1), of ?a2 "sl # lent" "pendingFree ?q2"] by (simp add: res(2))
  have src: "?src \<in> set (inUse lent ?q2 ?ps')" using dat by (auto simp: inUse_def intro: image_eqI [of _ _ p])
  have v: "view q' s = view ?q2 s" if "s \<in> set ?ps'" for s
  proof (rule view_body)
    have "dataOf (qheap ?q2 s) \<in> set (inUse lent ?q2 ?ps')" using that by (auto simp: inUse_def)
    from untouched_read [OF un this] show "sliceRead (dataOf (qheap ?q2 s)) (arena q') = sliceRead (dataOf (qheap ?q2 s)) (arena ?q2)"
      by (simp add: res(2) sp)
  qed (simp add: res(2))
  have "frames q' = map (view ?q2) ?ps'" using frames_eq [OF inv'] v by (auto cong: map_cong)
  then have fr: "frames q' = filter (\<lambda>g. fKey g \<noteq> fKey ?f) (frames q) @ [resent now ?f]"
    using rq(2) by (simp add: frames_def)
  have len: "length (sliceRead ?src a1) = slen sl"
    using o1 src by (auto simp: owned_def sliceRead_def)
  have "sliceRead sl (arena q') = fData ?f"
    using w(3) [OF len] untouched_read [OF o1(2) src] by (simp add: res(2) view_def Let_def)
  moreover have "eftype e = fType ?f" "estreamID e = reqStream req" "eseq e = reqSeq req"
    using p(3,4) by (simp_all add: res(1) bd stamp_def view_def Let_def)
  moreover have us: "set (inUse l ?q2 ?ps') = set (inUse l q ?ps)" for l
  proof -
    have "dataOf (qheap ?q2 s) = dataOf (qheap q s)" for s
      by (cases "s = p") (auto simp: dat intro: body_eqD(8) simp: requeue_body)
    moreover have "set ?ps' = set ?ps" using p(1) inv by (auto simp: qinv_def links_def set_remove1_eq)
    ultimately show ?thesis unfolding inUse_def set_append set_map sp by simp
  qed
  then have "untouched (arena q) (arena q') (inUse lent q ?ps)" using un by (simp add: untouched_def res(2))
  moreover have "set (inUse [] q' (chain q')) = set (inUse [] q ?ps)"
    unfolding qinv_chain [OF inv'] us [of "[]", symmetric] by (simp add: inUse_def res(2))
  ultimately show ?thesis
    using l qd fr qinv_qok [OF inv'] by (auto simp: res sp view_def Let_def)
qed

section \<open>Recycling buffers\<close>

lemma frames_arena:
  assumes "amem a = amem (arena q)"
  shows "frames (q\<lparr>arena := a, pendingFree := pf\<rparr>) = frames q"
proof -
  have "view (q\<lparr>arena := a, pendingFree := pf\<rparr>) = view q"
    using assms by (simp add: view_def sliceRead_def fun_eq_iff)
  then show ?thesis by (simp add: frames_def chain_def)
qed

lemma recycle_spec:
  assumes ok: "qok t lent q" and perm: "mset (pendingFree q @ lent) = mset (xs @ pf @ lent')"
  shows "qok t lent' (q\<lparr>arena := fold arenaPut xs (arena q), pendingFree := pf\<rparr>) \<and>
    frames (q\<lparr>arena := fold arenaPut xs (arena q), pendingFree := pf\<rparr>) = frames q \<and>
    amem (fold arenaPut xs (arena q)) = amem (arena q)"
proof -
  have inv: "qinv t lent q (chain q)" using ok by (simp add: qok_def)
  let ?use = "inUse lent' (q\<lparr>pendingFree := pf\<rparr>) (chain q)"
  have "mset (inUse lent q (chain q)) = mset (xs @ ?use)"
    using perm by (simp add: inUse_def)
  then have "owned (arena q) (xs @ ?use)" using inv owned_perm by (auto simp: qinv_def)
  note put = foldPut_owned [OF this]
  from put have "qinv t lent' (q\<lparr>arena := fold arenaPut xs (arena q), pendingFree := pf\<rparr>) (chain q)"
    by (intro qinv_arena [OF inv]) simp
  from qinv_qok [OF this] put frames_arena show ?thesis by simp
qed

lemma drainPendingFree_spec:
  "qok t lent q \<Longrightarrow> qok t lent (drainPendingFree q) \<and> frames (drainPendingFree q) = frames q \<and>
     amem (arena (drainPendingFree q)) = amem (arena q)"
  using recycle_spec [of t lent q "pendingFree q" "[]" lent] by (simp add: drainPendingFree_def)

lemma drainPendingFreeFirst_spec:
  assumes "qok t lent q"
  shows "qok t lent (drainPendingFreeFirst n q) \<and> frames (drainPendingFreeFirst n q) = frames q \<and>
     amem (arena (drainPendingFreeFirst n q)) = amem (arena q)"
proof -
  have "mset (pendingFree q @ lent) = mset (take m (pendingFree q) @ drop m (pendingFree q) @ lent)" for m
    by (simp add: append_assoc [symmetric])
  from recycle_spec [OF assms this] show ?thesis by (simp add: drainPendingFreeFirst_def Let_def)
qed

lemma releaseResendCopy_spec:
  assumes "qok t lent q" "sl \<in> set lent"
  shows "qok t (remove1 sl lent) (releaseResendCopy sl q) \<and> frames (releaseResendCopy sl q) = frames q \<and>
     amem (arena (releaseResendCopy sl q)) = amem (arena q)"
proof -
  have "mset (pendingFree q @ lent) = mset ([sl] @ pendingFree q @ remove1 sl lent)"
    using assms(2) by simp
  from recycle_spec [OF assms(1) this] show ?thesis by (simp add: releaseResendCopy_def)
qed

end
