(* ===== verification/RetransmitProps.thy ===== *)
theory RetransmitProps
  imports RetransmitSend
begin

text \<open>
  The retransmission queue against its specification: a list of outstanding frames in send order. The
  events are the calls a connection makes; the state carries, besides the queue, the latest clock
  reading and the resend copies on loan to the worker.
\<close>

section \<open>Events\<close>

datatype qevent =
    EvAdd time u8 u32 u32 bytes
  | EvAckMany time u32 "u32 list"
  | EvAckCumulative time u32 u32
  | EvAckOne u32 u32
  | EvPurge u32
  | EvRequest time u32 u32 duration
  | EvTake time retransmitRequest
  | EvRelease sliceHdr
  | EvDue time duration
  | EvDrain
  | EvDrainFirst nat

record qsys =
  clock :: time
  lent :: "sliceHdr list"
  queue :: retransmitQueue

definition qstep :: "qevent \<Rightarrow> qsys \<Rightarrow> qsys" where
  "qstep ev s =
     (case ev of
        EvAdd now ft sid sq pl \<Rightarrow> s\<lparr>clock := now, queue := snd (queueAdd now ft sid sq pl (queue s))\<rparr>
      | EvAckMany now sid seqs \<Rightarrow> s\<lparr>queue := snd (snd (ackMany now sid seqs (queue s)))\<rparr>
      | EvAckCumulative now sid cum \<Rightarrow> s\<lparr>queue := snd (snd (ackCumulative now sid cum (queue s)))\<rparr>
      | EvAckOne sid sq \<Rightarrow> s\<lparr>queue := ackOne sid sq (queue s)\<rparr>
      | EvPurge sid \<Rightarrow> s\<lparr>queue := purgeStream sid (queue s)\<rparr>
      | EvRequest now sid sq minAge \<Rightarrow> s\<lparr>queue := snd (requestForResend now sid sq minAge (queue s))\<rparr>
      | EvTake now req \<Rightarrow>
          (case takeForResend now req (queue s) of
             (None, q) \<Rightarrow> s\<lparr>queue := q\<rparr>
           | (Some e, q) \<Rightarrow> s\<lparr>clock := now, lent := dataOf e # lent s, queue := q\<rparr>)
      | EvRelease sl \<Rightarrow> s\<lparr>lent := remove1 sl (lent s), queue := releaseResendCopy sl (queue s)\<rparr>
      | EvDue now rto \<Rightarrow> (case due now rto (queue s) of None \<Rightarrow> s | Some (reqs, q) \<Rightarrow> s\<lparr>queue := q\<rparr>)
      | EvDrain \<Rightarrow> s\<lparr>queue := drainPendingFree (queue s)\<rparr>
      | EvDrainFirst n \<Rightarrow> s\<lparr>queue := drainPendingFreeFirst n (queue s)\<rparr>)"

text \<open>
  What the callers guarantee: the monotonic clock; a (stream, sequence) pair is recorded once while
  outstanding (\<open>writeSeq\<close> counts up, stream IDs are not reused); only a copy on loan is released.
\<close>

definition qenabled :: "qevent \<Rightarrow> qsys \<Rightarrow> bool" where
  "qenabled ev s =
     (case ev of
        EvAdd now ft sid sq pl \<Rightarrow> clock s \<le> now \<and> retransmitKey sid sq \<notin> fKey ` set (frames (queue s))
      | EvTake now req \<Rightarrow> clock s \<le> now
      | EvRelease sl \<Rightarrow> sl \<in> set (lent s)
      | _ \<Rightarrow> True)"

section \<open>The specification\<close>

record pspec =
  outstanding :: "pframe list"
  through :: "u32 \<Rightarrow> u32"

definition sstep :: "qevent \<Rightarrow> pspec \<Rightarrow> pspec" where
  "sstep ev a =
     (case ev of
        EvAdd now ft sid sq pl \<Rightarrow> a\<lparr>outstanding := outstanding a @ [newFrame now ft sid sq pl]\<rparr>
      | EvAckMany now sid seqs \<Rightarrow> a\<lparr>outstanding := unacked (retransmitKey sid ` set seqs) (outstanding a)\<rparr>
      | EvAckCumulative now sid cum \<Rightarrow>
          if cum \<le> through a sid \<or> 2 ^ 20 < cum - through a sid then a
          else a\<lparr>outstanding := unacked (retransmitKey sid ` {sq. through a sid \<le> sq \<and> sq < cum}) (outstanding a),
                 through := (through a)(sid := cum)\<rparr>
      | EvAckOne sid sq \<Rightarrow> a\<lparr>outstanding := unacked {retransmitKey sid sq} (outstanding a)\<rparr>
      | EvPurge sid \<Rightarrow> a\<lparr>outstanding := filter (\<lambda>f. fStream f \<noteq> sid) (outstanding a), through := (through a)(sid := 0)\<rparr>
      | EvRequest now sid sq minAge \<Rightarrow>
          (case lookup (retransmitKey sid sq) (outstanding a) of
             None \<Rightarrow> a
           | Some f \<Rightarrow>
               if fQueued f \<or> 0 < minAge \<and> time_sub now (fSentAt f) < minAge then a
               else a\<lparr>outstanding := mark {retransmitKey sid sq} (outstanding a)\<rparr>)
      | EvTake now req \<Rightarrow>
          (case lookup (retransmitKey (reqStream req) (reqSeq req)) (outstanding a) of
             None \<Rightarrow> a
           | Some f \<Rightarrow>
               if \<not> fQueued f then a
               else a\<lparr>outstanding := filter (\<lambda>g. fKey g \<noteq> fKey f) (outstanding a) @ [resent now f]\<rparr>)
      | EvDue now rto \<Rightarrow>
          a\<lparr>outstanding := map (\<lambda>f. if overdue now rto f then f\<lparr>fQueued := True\<rparr> else f) (outstanding a)\<rparr>
      | _ \<Rightarrow> a)"

definition absq :: "qsys \<Rightarrow> pspec" where
  "absq s = \<lparr>outstanding = frames (queue s),
     through = (\<lambda>sid. case mget (ackedThrough (queue s)) sid of None \<Rightarrow> 0 | Some w \<Rightarrow> w)\<rparr>"

definition sysok :: "qsys \<Rightarrow> bool" where
  "sysok s \<longleftrightarrow> qok (clock s) (lent s) (queue s)"

section \<open>Refinement\<close>

lemma dueWalk_ackedThrough:
  "dueWalk k now rto cur reqs q = Some (r, q') \<Longrightarrow> ackedThrough q' = ackedThrough q"
  by (induction k now rto cur reqs q arbitrary: r q' rule: dueWalk.induct)
     (auto split: option.splits if_splits)

lemma keep_ackedThrough:
  "ackedThrough (snd (requestForResend now sid sq minAge q)) = ackedThrough q"
  "ackedThrough (snd (takeForResend now req q)) = ackedThrough q"
  "due now rto q = Some (r, q') \<Longrightarrow> ackedThrough q' = ackedThrough q"
  "ackedThrough (drainPendingFree q) = ackedThrough q" "ackedThrough (drainPendingFreeFirst n q) = ackedThrough q"
  "ackedThrough (releaseResendCopy sl q) = ackedThrough q"
proof -
  show "ackedThrough (snd (requestForResend now sid sq minAge q)) = ackedThrough q"
    by (simp add: requestForResend_def split: option.split)
  have "ackedThrough (pushTail p q1) = ackedThrough q1" "ackedThrough (unlink p q1) = ackedThrough q1" for p q1
    using samePoolD(5) pushTail_keeps(2) unlink_keeps(2) by blast+
  then show "ackedThrough (snd (takeForResend now req q)) = ackedThrough q"
    by (simp add: takeForResend_def Let_def split: option.split prod.split)
  show "due now rto q = Some (r, q') \<Longrightarrow> ackedThrough q' = ackedThrough q"
    unfolding due_def by (rule dueWalk_ackedThrough)
qed (simp_all add: drainPendingFree_def drainPendingFreeFirst_def releaseResendCopy_def Let_def)

lemma purge_ackedThrough: "ackedThrough (purgeStream sid q) = mdel sid (ackedThrough q)"
proof -
  have "ackedThrough (fold (purgeBody sid) L q) = ackedThrough q" for L
    by (induction L arbitrary: q) (auto simp: removeLocked_simps)
  then show ?thesis by (simp add: purgeStream_def Let_def)
qed

definition thr :: "retransmitQueue \<Rightarrow> u32 \<Rightarrow> u32" where
  "thr q = (\<lambda>sid. case mget (ackedThrough q) sid of None \<Rightarrow> 0 | Some w \<Rightarrow> w)"

lemma thr_cong: "ackedThrough q' = ackedThrough q \<Longrightarrow> thr q' = thr q"
  by (simp add: thr_def)

text \<open>One event at a time; each case is the specification lemma of the operation.\<close>

lemma qstep_sim:
  assumes ok: "sysok s" and en: "qenabled ev s"
  shows "sysok (qstep ev s) \<and> absq (qstep ev s) = sstep ev (absq s)"
proof -
  let ?q = "queue s"
  have q: "qok (clock s) (lent s) ?q" using ok by (simp add: sysok_def)
  have absq: "absq s' = \<lparr>outstanding = frames (queue s'), through = thr (queue s')\<rparr>" for s'
    by (simp add: absq_def thr_def)
  show ?thesis
  proof (cases ev)
    case (EvAdd now ft sid sq pl)
    obtain sl q' where r: "queueAdd now ft sid sq pl ?q = (sl, q')" by fastforce
    have e: "clock s \<le> now" "retransmitKey sid sq \<notin> fKey ` set (frames ?q)" using en EvAdd by (auto simp: qenabled_def)
    from queueAdd_spec [OF q e r] show ?thesis
      using EvAdd r thr_cong [of q' ?q] by (simp add: qstep_def sstep_def sysok_def absq)
  next
    case (EvAckMany now sid seqs)
    obtain fr rtt q' where r: "ackMany now sid seqs ?q = (fr, rtt, q')" by (metis prod_cases3)
    from ackMany_spec [OF q r] show ?thesis
      using EvAckMany r thr_cong [of q' ?q] by (simp add: qstep_def sstep_def sysok_def absq)
  next
    case (EvAckCumulative now sid cum)
    obtain fr rtt q' where r: "ackCumulative now sid cum ?q = (fr, rtt, q')" by (metis prod_cases3)
    have sw: "sweep sid cum ?q = (if cum \<le> thr ?q sid \<or> 2 ^ 20 < cum - thr ?q sid then {}
        else {sq. thr ?q sid \<le> sq \<and> sq < cum})"
      by (simp add: sweep_def thr_def maxCumAdvance_def Let_def)
    have ne: "sweep sid cum ?q = {} \<longleftrightarrow> cum \<le> thr ?q sid \<or> 2 ^ 20 < cum - thr ?q sid"
      unfolding sw using order_refl by (auto simp: not_le)
    note c = ackCumulative_spec [OF q r]
    have k: "qok (clock s) (lent s) q'" using c by simp
    show ?thesis
    proof (cases "cum \<le> thr ?q sid \<or> 2 ^ 20 < cum - thr ?q sid")
      case True
      then have e: "sweep sid cum ?q = {}" using ne by simp
      have "frames q' = frames ?q" "thr q' = thr ?q" using c unfolding e by (simp_all add: unacked_def thr_def)
      then show ?thesis using True k by (simp add: EvAckCumulative r qstep_def sstep_def sysok_def absq)
    next
      case False
      then have e: "sweep sid cum ?q = {sq. thr ?q sid \<le> sq \<and> sq < cum}" "sweep sid cum ?q \<noteq> {}"
        using sw ne by simp_all
      have f: "frames q' = unacked (retransmitKey sid ` {sq. thr ?q sid \<le> sq \<and> sq < cum}) (frames ?q)"
        using c unfolding e(1) by simp
      have "ackedThrough q' = mput sid cum (ackedThrough ?q)" using c e(2) by simp
      then have "thr q' = (thr ?q)(sid := cum)" by (auto simp: thr_def mget_mput)
      then show ?thesis using False f k by (simp add: EvAckCumulative r qstep_def sstep_def sysok_def absq)
    qed
  next
    case (EvAckOne sid sq)
    have "ackedThrough (ackOne sid sq ?q) = ackedThrough ?q"
      by (simp add: ackOne_def Let_def removeLocked_simps split: option.split)
    then have "thr (ackOne sid sq ?q) = thr ?q" by (rule thr_cong)
    then show ?thesis using ackOne_spec [OF q] EvAckOne by (simp add: qstep_def sstep_def sysok_def absq)
  next
    case (EvPurge sid)
    have "thr (purgeStream sid ?q) = (thr ?q)(sid := 0)" by (auto simp: thr_def purge_ackedThrough mget_mdel)
    then show ?thesis using purgeStream_spec [OF q] EvPurge by (simp add: qstep_def sstep_def sysok_def absq)
  next
    case (EvRequest now sid sq minAge)
    obtain x q' where r: "requestForResend now sid sq minAge ?q = (x, q')" by fastforce
    have "thr q' = thr ?q" using keep_ackedThrough(1) [of now sid sq minAge ?q] r by (intro thr_cong) simp
    then show ?thesis using requestForResend_spec [OF q r] EvRequest r
      by (auto simp: qstep_def sstep_def sysok_def absq split: option.splits)
  next
    case (EvTake now req)
    obtain x q' where r: "takeForResend now req ?q = (x, q')" by fastforce
    have th: "thr q' = thr ?q" using keep_ackedThrough(2) [of now req ?q] r by (intro thr_cong) simp
    have e: "clock s \<le> now" using en EvTake by (simp add: qenabled_def)
    show ?thesis
    proof (cases x)
      case None
      then show ?thesis using takeForResend_none [OF q, of now req] r EvTake q
        by (auto simp: qstep_def sstep_def sysok_def absq split: option.splits)
    next
      case (Some en)
      from takeForResend_spec [OF q e r [unfolded Some]] obtain f sl where
        "lookup (retransmitKey (reqStream req) (reqSeq req)) (frames ?q) = Some f" "fQueued f" "dataOf en = sl"
        "qok now (sl # lent s) q'" "frames q' = filter (\<lambda>g. fKey g \<noteq> fKey f) (frames ?q) @ [resent now f]"
        by (auto simp: dataOf_def)
      then show ?thesis using r Some EvTake th by (simp add: qstep_def sstep_def sysok_def absq)
    qed
  next
    case (EvDue now rto)
    from due_spec [OF q, of now rto] obtain q' where
      "due now rto ?q = Some (map request (filter (\<lambda>f. overdue now rto f \<and> \<not> fQueued f) (frames ?q)), q')"
      "qok (clock s) (lent s) q'"
      "frames q' = map (\<lambda>f. if overdue now rto f then f\<lparr>fQueued := True\<rparr> else f) (frames ?q)" by blast
    moreover from this(1) have "thr q' = thr ?q" by (intro thr_cong keep_ackedThrough(3))
    ultimately show ?thesis using EvDue
      by (simp add: qstep_def sstep_def sysok_def absq)
  qed (use q en drainPendingFree_spec [OF q] drainPendingFreeFirst_spec [OF q] releaseResendCopy_spec [OF q]
      thr_cong [OF keep_ackedThrough(4)] thr_cong [OF keep_ackedThrough(5)] thr_cong [OF keep_ackedThrough(6)] in \<open>simp_all add: qstep_def sstep_def qenabled_def sysok_def absq\<close>)
qed

interpretation rq: simulation absq sysok qenabled qstep sstep
  by unfold_locales (simp_all add: qstep_sim)

section \<open>Buffers in use\<close>

text \<open>The buffers of outstanding entries and of removed ones that are not recycled yet.\<close>

definition held :: "retransmitQueue \<Rightarrow> sliceHdr set" where
  "held q = set (inUse [] q (chain q))"

lemma held_eq: "qinv t l q ps \<Longrightarrow> held q = set (inUse [] q ps)"
  by (simp add: held_def qinv_chain)

lemma held_inUse: "held q \<subseteq> set (inUse l q (chain q))"
  by (auto simp: held_def inUse_def)

lemma removeLocked_held:
  assumes "qok t l q" "mget (entries q) k = Some p"
  shows "qok t l (removeLocked k p q) \<and> held (removeLocked k p q) = held q"
proof -
  have inv: "qinv t l q (chain q)" using assms(1) by (simp add: qok_def)
  note r = removeLocked_qinv [OF inv assms(2)]
  show ?thesis using qinv_qok [OF r(1)] held_eq [OF r(1)] r(3) [of "[]"] by (simp add: held_def)
qed

lemma held_ackedThrough [simp]: "held (q\<lparr>ackedThrough := m\<rparr>) = held q"
  by (simp add: held_def inUse_def)

lemma ackMany_held:
  assumes "qok t l q"
  shows "held (snd (snd (fold (ackBody now sid) seqs (fr, rtt, q)))) = held q"
  using assms
proof (induction seqs arbitrary: fr rtt q)
  case (Cons sq seqs)
  obtain fr1 rtt1 q1 where r: "ackBody now sid sq (fr, rtt, q) = (fr1, rtt1, q1)" by (metis prod_cases3)
  have "qok t l q1 \<and> held q1 = held q"
    using r Cons.prems removeLocked_held [OF Cons.prems]
    by (auto simp: ackBody_def Let_def split: option.splits)
  then show ?case using Cons.IH [of q1 fr1 rtt1] r by simp
qed simp

lemma purge_held:
  assumes "qok t l q"
  shows "held (purgeStream sid q) = held q"
proof -
  have "qok t l (fold (purgeBody sid) L q) \<and> held (fold (purgeBody sid) L q) = held q"
    if "\<forall>(k, p) \<in> set L. mget (entries q) k = Some p" "distinct (map fst L)" "qok t l q" for L q
    using that
  proof (induction L arbitrary: q)
    case (Cons kp L)
    obtain k p where kp: "kp = (k, p)" by fastforce
    have g: "mget (entries q) k = Some p" using Cons.prems(1) kp by simp
    have "mget (entries (removeLocked k p q)) k' = Some p'" if "(k', p') \<in> set L" for k' p'
    proof -
      have "k' \<noteq> k" using that Cons.prems(2) kp by force
      then show ?thesis using that Cons.prems(1) by (auto simp: removeLocked_simps mget_mdel)
    qed
    then show ?case using Cons.IH [of "removeLocked k p q"] Cons.IH [of q] Cons.prems removeLocked_held [OF Cons.prems(3) g]
      by (auto simp: kp)
  qed simp
  moreover have "mok (entries q)" using assms by (simp add: qok_def qinv_def index_def)
  then have "\<forall>(k, p) \<in> set (entries q). mget (entries q) k = Some p" "distinct (map fst (entries q))"
    by (auto simp: mget_iff) (simp add: mok_def mkeys_def)
  ultimately show ?thesis using assms by (simp add: purgeStream_def Let_def)
qed

lemma walk_cong: "(\<And>p. enext (h' p) = enext (h p)) \<Longrightarrow> walk k h' c = walk k h c"
  by (induction k h c rule: walk.induct) (auto simp: walk.simps)

lemma held_cong:
  assumes "\<And>p. enext (qheap q' p) = enext (qheap q p)" "\<And>p. dataOf (qheap q' p) = dataOf (qheap q p)"
    "qhead q' = qhead q" "qfresh q' = qfresh q" "pendingFree q' = pendingFree q"
  shows "held q' = held q"
  using assms walk_cong [of "qheap q'" "qheap q" "qfresh q" "qhead q"] by (simp add: held_def chain_def inUse_def)

lemma held_setQueued [simp]: "held (setQueued b p q) = held q"
  by (rule held_cong) (simp_all only: setQueued_heap, simp_all add: setQueued_def)

lemma dueWalk_held: "dueWalk k now rto cur reqs q = Some (r, q') \<Longrightarrow> held q' = held q"
proof (induction k arbitrary: cur reqs q)
  case (Suc k)
  have "held (hupd p (\<lambda>e. e\<lparr>equeued := True\<rparr>) q) = held q" for p
    using held_setQueued [of True p q] by (simp add: setQueued_def)
  with Suc show ?case by (auto split: option.splits if_splits)
qed simp

text \<open>No event but a drain takes a buffer out of use, and no event changes the contents of one in use.\<close>

lemma qstep_held:
  assumes ok: "sysok s" and en: "qenabled ev s"
  shows "(\<forall>b \<in> held (queue s). amem (arena (queue (qstep ev s))) (sbuf b) = amem (arena (queue s)) (sbuf b)) \<and>
    (ev \<noteq> EvDrain \<and> (\<forall>n. ev \<noteq> EvDrainFirst n) \<longrightarrow> held (queue s) \<subseteq> held (queue (qstep ev s)))"
proof -
  let ?q = "queue s"
  have q: "qok (clock s) (lent s) ?q" using ok by (simp add: sysok_def)
  note sub = held_inUse [of ?q "lent s"]
  show ?thesis
  proof (cases ev)
    case (EvAdd now ft sid sq pl)
    obtain sl q' where r: "queueAdd now ft sid sq pl ?q = (sl, q')" by fastforce
    have e: "clock s \<le> now" "retransmitKey sid sq \<notin> fKey ` set (frames ?q)" using en EvAdd by (auto simp: qenabled_def)
    from queueAdd_spec [OF q e r] show ?thesis
      using EvAdd r sub by (auto simp: qstep_def untouched_def held_def)
  next
    case (EvAckMany now sid seqs)
    obtain fr rtt q' where r: "ackMany now sid seqs ?q = (fr, rtt, q')" by (metis prod_cases3)
    from ackMany_spec [OF q r] ackMany_held [OF q, of now sid seqs 0 0] show ?thesis
      using EvAckMany r by (simp add: qstep_def ackMany_def)
  next
    case (EvAckCumulative now sid cum)
    obtain fr rtt q' where r: "ackCumulative now sid cum ?q = (fr, rtt, q')" by (metis prod_cases3)
    have "held q' = held ?q"
      using r ackMany_held [OF q, of now sid _ 0 0]
      by (auto simp: ackCumulative_def Let_def split: if_splits prod.splits) (metis snd_conv)+
    then show ?thesis using ackCumulative_spec [OF q r] EvAckCumulative r by (simp add: qstep_def)
  next
    case (EvAckOne sid sq)
    obtain fr rtt q' where r: "ackMany 0 sid [sq] ?q = (fr, rtt, q')" by (metis prod_cases3)
    from ackMany_spec [OF q r] ackMany_held [OF q, of 0 sid "[sq]" 0 0] show ?thesis
      using EvAckOne r by (simp add: qstep_def ackOne_ackMany [of _ _ _ 0] ackMany_def)
  next
    case (EvPurge sid)
    have "arena (fold (purgeBody sid) L q1) = arena q1" for L q1
      by (induction L arbitrary: q1) (auto simp: removeLocked_simps)
    then have "arena (purgeStream sid ?q) = arena ?q" by (simp add: purgeStream_def Let_def)
    then show ?thesis using purge_held [OF q] EvPurge by (simp add: qstep_def)
  next
    case (EvRequest now sid sq minAge)
    obtain x q' where r: "requestForResend now sid sq minAge ?q = (x, q')" by fastforce
    have "held q' = held ?q" using r
      by (auto simp: requestForResend_def setQueued_def [symmetric] split: option.splits if_splits)
    then show ?thesis using requestForResend_spec [OF q r] EvRequest r by (simp add: qstep_def)
  next
    case (EvTake now req)
    obtain x q' where r: "takeForResend now req ?q = (x, q')" by fastforce
    have e: "clock s \<le> now" using en EvTake by (simp add: qenabled_def)
    show ?thesis
    proof (cases x)
      case None
      then show ?thesis using takeForResend_none(2) [OF q, of now req] r EvTake by (auto simp: qstep_def)
    next
      case (Some en)
      from takeForResend_spec [OF q e r [unfolded Some]] have
        "untouched (arena ?q) (arena q') (inUse (lent s) ?q (chain ?q))" "held q' = held ?q"
        by (auto simp: held_def)
      then show ?thesis using r Some EvTake sub by (auto simp: qstep_def untouched_def)
    qed
  next
    case (EvDue now rto)
    from due_spec [OF q, of now rto] obtain reqs q' where r: "due now rto ?q = Some (reqs, q')" "arena q' = arena ?q"
      by blast
    have "held q' = held ?q" using r(1) unfolding due_def by (rule dueWalk_held)
    then show ?thesis using EvDue r by (simp add: qstep_def)
  next
    case (EvRelease sl)
    have "sl \<in> set (lent s)" using en EvRelease by (simp add: qenabled_def)
    moreover have "held (releaseResendCopy sl ?q) = held ?q" by (rule held_cong) (simp_all add: releaseResendCopy_def)
    ultimately show ?thesis using releaseResendCopy_spec [OF q] EvRelease by (simp add: qstep_def)
  qed (use drainPendingFree_spec [OF q] drainPendingFreeFirst_spec [OF q] in \<open>simp_all add: qstep_def\<close>)
qed

section \<open>Theorems\<close>

definition newSys :: "nat \<Rightarrow> time \<Rightarrow> qsys" where
  "newSys maxp t = \<lparr>clock = t, lent = [], queue = newRetransmitQueue maxp\<rparr>"

definition newSpec :: pspec where
  "newSpec = \<lparr>outstanding = [], through = (\<lambda>_. 0)\<rparr>"

lemma newSys_ok: "sysok (newSys n t)" "absq (newSys n t) = newSpec"
proof -
  note inv = qinv_new [of t n]
  show "sysok (newSys n t)" using qinv_qok [OF inv] by (simp add: sysok_def newSys_def)
  show "absq (newSys n t) = newSpec"
    using frames_eq [OF inv] by (simp add: absq_def newSys_def newSpec_def newRetransmitQueue_def)
qed

lemma allowed_append:
  "allowed en st (es @ es') c \<longleftrightarrow> allowed en st es c \<and> allowed en st es' (fold st es c)"
  by (induction es arbitrary: c) auto

definition qrun :: "nat \<Rightarrow> time \<Rightarrow> qevent list \<Rightarrow> qsys" where
  "qrun n t evs = fold qstep evs (newSys n t)"

definition qvalid :: "nat \<Rightarrow> time \<Rightarrow> qevent list \<Rightarrow> bool" where
  "qvalid n t evs = allowed qenabled qstep evs (newSys n t)"

lemma qvalid_ok: "qvalid n t evs \<Longrightarrow> qok (clock (qrun n t evs)) (lent (qrun n t evs)) (queue (qrun n t evs))"
  using rq.run_inv [OF newSys_ok(1)] by (simp add: qvalid_def qrun_def sysok_def)

text \<open>A small run for the witnesses.\<close>

definition demoReq :: retransmitRequest where
  "demoReq = \<lparr>reqStream = 7, reqSeq = 3\<rparr>"

definition demoEvents :: "qevent list" where
  "demoEvents = [EvAdd 1 0 7 3 [5, 6], EvDue 100 10, EvTake 200 demoReq]"

lemma demo_valid: "qvalid 4 0 demoEvents"
proof -
  have "clock (qstep (EvDue now rto) s) = clock s" for now rto s by (simp add: qstep_def split: option.split)
  moreover have "frames (newRetransmitQueue 4) = []" using frames_eq [OF qinv_new] by simp
  ultimately show ?thesis
    by (simp add: qvalid_def demoEvents_def qenabled_def newSys_def) (simp add: qstep_def)
qed

text \<open>C17 (refinement). The retransmission queue implements a list of outstanding frames. For every
  sequence of calls a connection can make, the linked list, the index map and the recycled buffers
  together show exactly the list that the specification computes: frames in send order with their
  payloads intact, acknowledged and purged ones gone, resent ones moved to the end.\<close>

theorem retransmit_refines:
  assumes "qvalid n t evs"
  shows "frames (queue (qrun n t evs)) = outstanding (fold sstep evs newSpec)"
proof -
  have "absq (qrun n t evs) = fold sstep evs newSpec"
    using rq.run_abs [OF newSys_ok(1)] assms newSys_ok(2) [of n t] by (simp add: qvalid_def qrun_def)
  moreover have "outstanding (absq (qrun n t evs)) = frames (queue (qrun n t evs))" by (simp add: absq_def)
  ultimately show ?thesis by metis
qed

theorem retransmit_refines_witness:
  "frames (queue (qrun 4 0 demoEvents)) =
    [\<lparr>fType = 0, fStream = 7, fSeq = 3, fData = [5, 6], fSentAt = 200, fRetries = 1, fQueued = False\<rparr>]"
  using retransmit_refines [OF demo_valid]
  by (simp add: demoEvents_def demoReq_def sstep_def newSpec_def newFrame_def overdue_def lookup_def fKey_def
      resent_def time_sub_def max_duration_def min_duration_def)

text \<open>The calls that may take a given frame out of the queue.\<close>

definition releases :: "u32 \<Rightarrow> u32 \<Rightarrow> qevent \<Rightarrow> bool" where
  "releases sid sq ev =
     (case ev of
        EvAckMany now sid' seqs \<Rightarrow> sid' = sid \<and> sq \<in> set seqs
      | EvAckCumulative now sid' cum \<Rightarrow> sid' = sid \<and> sq < cum
      | EvAckOne sid' sq' \<Rightarrow> sid' = sid \<and> sq' = sq
      | EvPurge sid' \<Rightarrow> sid' = sid
      | _ \<Rightarrow> False)"

definition carries :: "u8 \<Rightarrow> u32 \<Rightarrow> u32 \<Rightarrow> bytes \<Rightarrow> pframe \<Rightarrow> bool" where
  "carries ft sid sq pl f \<longleftrightarrow> fType f = ft \<and> fStream f = sid \<and> fSeq f = sq \<and> fData f = pl"

lemma carries_upd [simp]:
  "carries ft sid sq pl (f\<lparr>fQueued := b\<rparr>) = carries ft sid sq pl f"
  "carries ft sid sq pl (resent now f) = carries ft sid sq pl f"
  "carries ft sid sq pl (newFrame now ft sid sq pl)"
  by (simp_all add: carries_def resent_def newFrame_def)

lemma lookup_simps [simp]:
  "lookup k [] = None" "lookup k (f # fs) = (if fKey f = k then Some f else lookup k fs)"
  by (simp_all add: lookup_def)

lemma lookup_append: "lookup k (fs @ gs) = (case lookup k fs of None \<Rightarrow> lookup k gs | Some f \<Rightarrow> Some f)"
  by (induction fs) auto

lemma lookup_filter: "(\<And>f. fKey f = k \<Longrightarrow> P f) \<Longrightarrow> lookup k (filter P fs) = lookup k fs"
  by (induction fs) auto

lemma lookup_filter_None: "(\<And>f. fKey f = k \<Longrightarrow> \<not> P f) \<Longrightarrow> lookup k (filter P fs) = None"
  by (induction fs) auto

lemma lookup_map: "(\<And>f. fKey (h f) = fKey f) \<Longrightarrow> lookup k (map h fs) = map_option h (lookup k fs)"
  by (induction fs) auto

lemma lookup_key: "lookup k fs = Some f \<Longrightarrow> f \<in> set fs \<and> fKey f = k"
  by (induction fs) (auto split: if_splits)

lemma fKey_upd [simp]: "fKey (f\<lparr>fQueued := b\<rparr>) = fKey f" "fKey (resent now f) = fKey f"
  by (simp_all add: fKey_def resent_def)

definition carried :: "u8 \<Rightarrow> u32 \<Rightarrow> u32 \<Rightarrow> bytes \<Rightarrow> pspec \<Rightarrow> bool" where
  "carried ft sid sq pl a \<longleftrightarrow> (\<exists>f. lookup (retransmitKey sid sq) (outstanding a) = Some f \<and> carries ft sid sq pl f)"

lemma sstep_kept:
  assumes "\<not> releases sid sq ev" "carried ft sid sq pl a"
  shows "carried ft sid sq pl (sstep ev a)"
proof -
  let ?k = "retransmitKey sid sq"
  from assms(2) obtain f where f: "lookup ?k (outstanding a) = Some f" "carries ft sid sq pl f"
    by (auto simp: carried_def)
  have un: "lookup ?k (unacked K fs) = lookup ?k fs" if "?k \<notin> K" for K fs
    unfolding unacked_def using that by (intro lookup_filter) auto
  have mk: "lookup ?k (map (\<lambda>f. if Q f then f\<lparr>fQueued := True\<rparr> else f) fs) =
      map_option (\<lambda>f. if Q f then f\<lparr>fQueued := True\<rparr> else f) (lookup ?k fs)" for Q fs
    by (rule lookup_map) simp
  show ?thesis
  proof (cases ev)
    case (EvTake now req)
    show ?thesis
    proof (cases "lookup (retransmitKey (reqStream req) (reqSeq req)) (outstanding a)")
      case (Some g)
      let ?fs = "filter (\<lambda>h. fKey h \<noteq> fKey g) (outstanding a) @ [resent now g]"
      have "lookup ?k ?fs = (if fKey g = ?k then Some (resent now g) else Some f)"
        using f by (auto simp: lookup_append lookup_filter lookup_filter_None)
      moreover have "g = f" if "fKey g = ?k" using that lookup_key [OF Some] Some f by simp
      ultimately show ?thesis using EvTake Some f by (auto simp: sstep_def carried_def)
    qed (use EvTake assms in \<open>simp add: sstep_def\<close>)
  next
    case (EvRequest now sid' sq' minAge)
    then show ?thesis using f mk [of _ "outstanding a"]
      by (auto simp: sstep_def carried_def mark_def split: option.split)
  next
    case (EvDue now rto)
    then show ?thesis using f mk [of _ "outstanding a"] by (auto simp: sstep_def carried_def)
  next
    case (EvPurge sid')
    then have "lookup ?k (filter (\<lambda>f. fStream f \<noteq> sid') (outstanding a)) = Some f"
      using assms(1) f by (subst lookup_filter) (auto simp: releases_def fKey_def)
    then show ?thesis using EvPurge f by (auto simp: sstep_def carried_def)
  qed (use assms f in \<open>auto simp: sstep_def carried_def releases_def lookup_append un image_iff\<close>)
qed

text \<open>C18 (safety). Nothing is forgotten: a frame recorded by \<open>add\<close> stays outstanding, with its type and its payload
  unchanged, through any sequence of calls in which it is not acknowledged and its stream not purged,
  however often it or its neighbours are resent and buffers recycled. So it is resent until the peer
  has it.\<close>

theorem frame_kept_until_acked:
  assumes "qvalid n t (evs @ EvAdd now ft sid sq pl # evs')" and "\<forall>ev \<in> set evs'. \<not> releases sid sq ev"
  shows "\<exists>f. lookup (retransmitKey sid sq) (frames (queue (qrun n t (evs @ EvAdd now ft sid sq pl # evs')))) = Some f \<and>
    fType f = ft \<and> fData f = pl"
proof -
  let ?s = "qrun n t evs" and ?ad = "EvAdd now ft sid sq pl"
  have v: "qvalid n t evs" and en: "qenabled ?ad ?s" and al: "allowed qenabled qstep evs' (qstep ?ad ?s)"
    using assms(1) by (auto simp: qvalid_def qrun_def allowed_append)
  have ok: "sysok ?s" using qvalid_ok [OF v] by (simp add: sysok_def)
  have "retransmitKey sid sq \<notin> fKey ` set (outstanding (absq ?s))" using en by (simp add: qenabled_def absq_def)
  then have "lookup (retransmitKey sid sq) (outstanding (absq ?s)) = None"
    using lookup_key by (metis imageI not_Some_eq)
  moreover have "fKey (newFrame now ft sid sq pl) = retransmitKey sid sq" by (simp add: fKey_def newFrame_def)
  ultimately have "carried ft sid sq pl (absq (qstep ?ad ?s))"
    by (simp add: rq.step_abs [OF ok en] carried_def sstep_def lookup_append)
  from rq.run_kept [where P = "carried ft sid sq pl", OF rq.step_inv [OF ok en] al this] assms(2)
  have "carried ft sid sq pl (absq (fold qstep evs' (qstep ?ad ?s)))" by (auto intro: sstep_kept)
  then show ?thesis by (auto simp: carried_def carries_def absq_def qrun_def)
qed

theorem frame_kept_until_acked_witness:
  "\<exists>f. lookup (retransmitKey 7 3) (frames (queue (qrun 4 0 ([] @ EvAdd 1 0 7 3 [5, 6] # [EvDue 100 10, EvTake 200 demoReq])))) = Some f \<and>
    fType f = 0 \<and> fData f = [5, 6]"
  by (rule frame_kept_until_acked) (use demo_valid in \<open>simp_all add: demoEvents_def releases_def\<close>)



text \<open>C19 (safety). Zero-copy sends are safe: the buffer that \<open>add\<close> hands out shows the frame's payload, and it
  goes on showing it through any sequence of calls up to the next recycling of freed buffers, also
  after the frame has been acknowledged or its stream purged. So a batch that refers to the buffer
  sends the right bytes, provided it reaches the kernel before the drain.\<close>

theorem zero_copy_stable:
  assumes "qvalid n t (evs @ EvAdd now ft sid sq pl # evs')"
    and "\<forall>ev \<in> set evs'. ev \<noteq> EvDrain \<and> (\<forall>m. ev \<noteq> EvDrainFirst m)"
  shows "sliceRead (fst (queueAdd now ft sid sq pl (queue (qrun n t evs))))
      (arena (queue (qrun n t (evs @ EvAdd now ft sid sq pl # evs')))) = pl"
proof -
  let ?s = "qrun n t evs" and ?ad = "EvAdd now ft sid sq pl"
  have v: "qvalid n t evs" and en: "qenabled ?ad ?s" and al: "allowed qenabled qstep evs' (qstep ?ad ?s)"
    using assms(1) by (auto simp: qvalid_def qrun_def allowed_append)
  have ok: "sysok ?s" using qvalid_ok [OF v] by (simp add: sysok_def)
  obtain sl q' where r: "queueAdd now ft sid sq pl (queue ?s) = (sl, q')" by fastforce
  have e: "clock ?s \<le> now" "retransmitKey sid sq \<notin> fKey ` set (frames (queue ?s))"
    using en by (auto simp: qenabled_def)
  note a = queueAdd_spec [OF ok [unfolded sysok_def] e r]
  have st: "queue (qstep ?ad ?s) = q'" using r by (simp add: qstep_def)
  have h: "sl \<in> held q'" "sliceRead sl (arena q') = pl" using a by (auto simp: held_def)
  have "sl \<in> held (queue (fold qstep es c)) \<and>
      amem (arena (queue (fold qstep es c))) (sbuf sl) = amem (arena (queue c)) (sbuf sl)"
    if "sysok c" "allowed qenabled qstep es c" "sl \<in> held (queue c)"
      "\<forall>ev \<in> set es. ev \<noteq> EvDrain \<and> (\<forall>m. ev \<noteq> EvDrainFirst m)" for es c
    using that
  proof (induction es arbitrary: c)
    case (Cons ev es)
    have e1: "qenabled ev c" "allowed qenabled qstep es (qstep ev c)" using Cons.prems(2) by simp_all
    have "sl \<in> held (queue (qstep ev c))" "amem (arena (queue (qstep ev c))) (sbuf sl) = amem (arena (queue c)) (sbuf sl)"
      using qstep_held [OF Cons.prems(1) e1(1)] Cons.prems(3,4) by auto
    then show ?case using Cons.IH [OF rq.step_inv [OF Cons.prems(1) e1(1)] e1(2)] Cons.prems(4) by simp
  qed simp
  from this [OF rq.step_inv [OF ok en] al _ assms(2)] h st
  show ?thesis by (simp add: r [unfolded qrun_def] qrun_def sliceRead_def)
qed

theorem zero_copy_stable_witness:
  "sliceRead (fst (queueAdd 1 0 7 3 [5, 6] (queue (qrun 4 0 []))))
      (arena (queue (qrun 4 0 ([] @ EvAdd 1 0 7 3 [5, 6] # [EvDue 100 10, EvTake 200 demoReq])))) = [5, 6]"
  by (rule zero_copy_stable) (use demo_valid in \<open>simp_all add: demoEvents_def\<close>)

text \<open>C21 (functional). Acknowledgements remove exactly the frames they name. A selective ACK removes the
  listed sequence numbers, a cumulative ACK those from the last watermark up to the new one, unless
  that is not ahead of it or more than 2^20 frames ahead. The freed byte count is the payload size of
  the removed frames, and a round-trip sample comes from a removed frame that was never resent
  (Karn's algorithm).\<close>

theorem acks_exact:
  assumes "qvalid n t evs" and "K = (if selective then set seqs else sweep sid cum (queue (qrun n t evs)))"
    and "(freed, rtt, q') = (if selective then ackMany now sid seqs (queue (qrun n t evs))
                              else ackCumulative now sid cum (queue (qrun n t evs)))"
  shows "frames q' = filter (\<lambda>f. \<not> (fStream f = sid \<and> fSeq f \<in> K)) (frames (queue (qrun n t evs))) \<and>
    freed = (\<Sum>f \<leftarrow> filter (\<lambda>f. fStream f = sid \<and> fSeq f \<in> K) (frames (queue (qrun n t evs))). int (length (fData f))) \<and>
    (rtt = 0 \<or> (\<exists>f \<in> set (frames (queue (qrun n t evs))). fStream f = sid \<and> fSeq f \<in> K \<and> fRetries f = 0 \<and>
       rtt = time_sub now (fSentAt f)))"
proof -
  let ?q = "queue (qrun n t evs)"
  note ok = qvalid_ok [OF assms(1)]
  have key: "fKey f \<in> retransmitKey sid ` K \<longleftrightarrow> fStream f = sid \<and> fSeq f \<in> K" for f
    by (auto simp: fKey_def)
  have "frames q' = unacked (retransmitKey sid ` K) (frames ?q) \<and> freed = sizes (acked (retransmitKey sid ` K) (frames ?q)) \<and>
    (rtt = 0 \<or> (\<exists>f \<in> set (acked (retransmitKey sid ` K) (frames ?q)). fRetries f = 0 \<and> rtt = time_sub now (fSentAt f)))"
  proof (cases selective)
    case True
    then show ?thesis using ackMany_spec [OF ok, of now sid seqs freed rtt q'] assms(2,3) by simp
  next
    case False
    then show ?thesis using ackCumulative_spec [OF ok, of now sid cum freed rtt q'] assms(2,3) by simp
  qed
  then show ?thesis by (auto simp: unacked_def acked_def sizes_def key)
qed

lemma demo_frames:
  "frames (queue (qrun 4 0 demoEvents)) =
    [\<lparr>fType = 0, fStream = 7, fSeq = 3, fData = [5, 6], fSentAt = 200, fRetries = 1, fQueued = False\<rparr>]"
  "qvalid 4 0 [EvAdd 1 0 7 3 [5, 6], EvDue 100 10]"
  "frames (queue (qrun 4 0 [EvAdd 1 0 7 3 [5, 6], EvDue 100 10])) =
    [\<lparr>fType = 0, fStream = 7, fSeq = 3, fData = [5, 6], fSentAt = 1, fRetries = 0, fQueued = True\<rparr>]"
proof -
  show v: "qvalid 4 0 [EvAdd 1 0 7 3 [5, 6], EvDue 100 10]"
    using demo_valid by (simp add: qvalid_def demoEvents_def)
  have "frames (queue (qrun 4 0 evs)) = outstanding (fold sstep evs newSpec)" if "qvalid 4 0 evs" for evs
    using rq.run_abs [OF newSys_ok(1) [of 4 0] that [unfolded qvalid_def]] newSys_ok(2) [of 4 0]
    by (metis absq_def pspec.select_convs(1) qrun_def)
  from this [OF demo_valid] this [OF v] show
    "frames (queue (qrun 4 0 demoEvents)) =
    [\<lparr>fType = 0, fStream = 7, fSeq = 3, fData = [5, 6], fSentAt = 200, fRetries = 1, fQueued = False\<rparr>]"
    "frames (queue (qrun 4 0 [EvAdd 1 0 7 3 [5, 6], EvDue 100 10])) =
    [\<lparr>fType = 0, fStream = 7, fSeq = 3, fData = [5, 6], fSentAt = 1, fRetries = 0, fQueued = True\<rparr>]"
    by (simp_all add: demoEvents_def demoReq_def sstep_def newSpec_def newFrame_def overdue_def fKey_def
      resent_def time_sub_def max_duration_def min_duration_def)
qed

theorem acks_exact_witness:
  "let r = ackMany 900 7 [2, 3] (queue (qrun 4 0 demoEvents)) in
   frames (snd (snd r)) = [] \<and> fst r = 2 \<and> fst (snd r) = 0"
proof -
  obtain fr rtt q' where r: "ackMany 900 7 [2, 3] (queue (qrun 4 0 demoEvents)) = (fr, rtt, q')" by (metis prod_cases3)
  from acks_exact [OF demo_valid, of "{2, 3}" True "[2, 3]" 7 0 fr rtt q' 900] show ?thesis
    by (simp add: r demo_frames)
qed

text \<open>C22 (safety). A resend is faithful and happens once per request: \<open>takeForResend\<close> answers only a request whose
  frame is still outstanding and queued, hands the worker a private copy with the frame's type, stream,
  sequence number and payload, and takes the same request no second time.\<close>

theorem resend_faithful:
  assumes "qvalid n t evs" and "clock (qrun n t evs) \<le> now"
    and "takeForResend now req (queue (qrun n t evs)) = (Some e, q')"
  shows "(\<exists>f \<in> set (frames (queue (qrun n t evs))). fStream f = reqStream req \<and> fSeq f = reqSeq req \<and> fQueued f \<and>
      eftype e = fType f \<and> estreamID e = fStream f \<and> eseq e = fSeq f \<and> sliceRead (dataOf e) (arena q') = fData f) \<and>
    dataOf e \<notin> held q' \<and> fst (takeForResend now' req q') = None"
proof -
  let ?s = "qrun n t evs" and ?k = "retransmitKey (reqStream req) (reqSeq req)"
  from takeForResend_spec [OF qvalid_ok [OF assms(1)] assms(2,3)] obtain f sl where
    f: "lookup ?k (frames (queue ?s)) = Some f" "fQueued f" "edata e = Some sl" "sliceRead sl (arena q') = fData f"
      "eftype e = fType f" "estreamID e = reqStream req" "eseq e = reqSeq req" "qok now (sl # lent ?s) q'"
      "frames q' = filter (\<lambda>g. fKey g \<noteq> fKey f) (frames (queue ?s)) @ [resent now f]" by blast
  have k: "f \<in> set (frames (queue ?s))" "fStream f = reqStream req" "fSeq f = reqSeq req"
    using lookup_key [OF f(1)] by (simp_all add: fKey_def)
  have "fKey f = ?k" using lookup_key [OF f(1)] by simp
  then have "lookup ?k (frames q') = Some (resent now f)"
    unfolding f(9) by (simp add: lookup_append lookup_filter_None)
  then have "fst (takeForResend now' req q') = None"
    unfolding takeForResend_none(1) [OF f(8)] by (simp add: resent_def)
  moreover have "owned (arena q') (inUse (sl # lent ?s) q' (chain q'))" using f(8) by (simp add: qok_def qinv_def)
  then have "sl \<notin> held q'" by (auto simp: held_def inUse_def owned_def image_iff)
  ultimately show ?thesis using f k by (auto simp: dataOf_def)
qed

theorem resend_faithful_witness:
  "\<exists>e q'. takeForResend 200 demoReq (queue (qrun 4 0 [EvAdd 1 0 7 3 [5, 6], EvDue 100 10])) = (Some e, q') \<and>
     sliceRead (dataOf e) (arena q') = [5, 6] \<and> fst (takeForResend 300 demoReq q') = None"
proof -
  let ?s = "qrun 4 0 [EvAdd 1 0 7 3 [5, 6], EvDue 100 10]"
  note v = demo_frames(2)
  have c: "clock ?s \<le> 200" using demo_valid by (simp add: qvalid_def demoEvents_def qenabled_def qrun_def)
  have "fst (takeForResend 200 demoReq (queue ?s)) \<noteq> None"
    unfolding takeForResend_none(1) [OF qvalid_ok [OF v]] by (simp add: demo_frames demoReq_def fKey_def)
  then obtain e q' where r: "takeForResend 200 demoReq (queue ?s) = (Some e, q')"
    by (cases "takeForResend 200 demoReq (queue ?s)") auto
  from resend_faithful [OF v c r, of 300] r show ?thesis by (auto simp: demo_frames)
qed

end
