(* ===== verification/Send.thy ===== *)
theory Send
  imports Recv
begin

text \<open>
  The send side of a stream (\<open>stream.go\<close>): \<open>Write\<close> with its flow control and back-pressure, the FEC lanes,
  window updates and acknowledgement credit, FIN, cancellation and teardown.

  Every definition runs under \<open>writeMu\<close>. \<open>Write\<close> releases the lock only in \<open>writeCond.Wait\<close>; the model
  returns at that point with \<open>WWaits rest n\<close>, the rest of the slice and the bytes written so far, and a
  woken writer goes on with \<open>Write\<close> on them, since the loop condition is evaluated from the start.
  \<open>sendEnv\<close> holds what the methods read from outside: the configuration, the clock, the connection's
  in-flight cap, and the results of the calls \<open>sendDataFrame\<close>, \<open>flushSend\<close> and \<open>sendReliableFrame\<close>.
\<close>

record sendEnv =
  scfg :: config
  snow :: time
  sconnCap :: int
  sdata :: "u32 \<Rightarrow> err option"
  sflush :: "err option"
  sreliable :: "err option"

datatype writeOut = WWaits bytes nat | WReturns nat "err option"

definition wcall :: "connCall \<Rightarrow> writeSide \<Rightarrow> writeSide" where
  "wcall c w = w\<lparr>wcalls := wcalls w @ [c]\<rparr>"

section \<open>FEC lanes\<close>

definition emitLaneLocked :: "u8 \<Rightarrow> fecLane \<Rightarrow> writeSide \<Rightarrow> fecLane \<times> writeSide" where
  "emitLaneLocked ft la w =
     (if lCount la = 0 then (la, w)
      else (la\<lparr>lXor := replicate (lMaxLen la) 0 @ drop (lMaxLen la) (lXor la), lMaxLen := 0, lLenXor := 0,
               lCount := 0\<rparr>,
            wcall (CallFecFrame ft (wid w) (lBase la) (lCount la) (unat (lLenXor la)) (take (lMaxLen la) (lXor la))) w))"

definition foldLaneLocked :: "config \<Rightarrow> u32 \<Rightarrow> bytes \<Rightarrow> u8 \<Rightarrow> fecLane \<Rightarrow> writeSide \<Rightarrow> fecLane \<times> writeSide" where
  "foldLaneLocked c sq chunk ft la w =
     (let la1 = (if lXor la = [] then la\<lparr>lXor := replicate (nat (dataCap c)) 0\<rparr> else la);
          la2 = (if lCount la1 = 0 then la1\<lparr>lBase := sq\<rparr> else la1);
          la3 = la2\<lparr>lXor := xorInto (lXor la2) chunk,
                    lMaxLen := (if lMaxLen la2 < length chunk then length chunk else lMaxLen la2),
                    lLenXor := lLenXor la2 XOR of_nat (length chunk),
                    lCount := Suc (lCount la2)\<rparr>
      in if fecGroup c \<le> int (lCount la3) then emitLaneLocked ft la3 w else (la3, w))"

definition fecFoldLocked :: "config \<Rightarrow> u32 \<Rightarrow> bytes \<Rightarrow> writeSide \<Rightarrow> writeSide" where
  "fecFoldLocked c sq chunk w =
     (if fecGroup c \<le> 0 then w
      else
        let g = nat (fecGroup c);
            w1 = (if fecLanes w = [] then w\<lparr>fecLanes := replicate g zeroLane\<rparr> else w);
            i = unat (sq mod of_nat g);
            (la, w2) = foldLaneLocked c sq chunk frameFEC (fecLanes w1 ! i) w1;
            w3 = w2\<lparr>fecLanes := (fecLanes w2)[i := la]\<rparr>
        in if fec2D c
           then let (rl, w4) = foldLaneLocked c sq chunk frameFECRow (fecRowLane w3) w3
                in w4\<lparr>fecRowLane := rl\<rparr>
           else w3)"

section \<open>Flow control\<close>

definition setMaxSendOffset :: "int \<Rightarrow> writeSide \<Rightarrow> writeSide" where
  "setMaxSendOffset offset w =
     (if maxSendOffset w < offset then wcall CallWriteBroadcast (w\<lparr>maxSendOffset := offset\<rparr>) else w)"

definition bytesInFlightLocked :: "writeSide \<Rightarrow> int" where
  "bytesInFlightLocked w = sentOffset w - ackedBytes w"

definition streamInFlightCap :: "sendEnv \<Rightarrow> int" where
  "streamInFlightCap e = (if maxBufSize (scfg e) < sconnCap e then maxBufSize (scfg e) else sconnCap e)"

definition creditAcked :: "int \<Rightarrow> writeSide \<Rightarrow> writeSide" where
  "creditAcked n w = (if n \<le> 0 then w else wcall CallWriteBroadcast (w\<lparr>ackedBytes := ackedBytes w + n\<rparr>))"

section \<open>Write\<close>

text \<open>The condition of the inner loop: no credit, or too much in flight.\<close>

definition writeBlocked :: "sendEnv \<Rightarrow> nat \<Rightarrow> writeSide \<Rightarrow> bool" where
  "writeBlocked e chunkLen w \<longleftrightarrow> writeErr w = None \<and> \<not> writeFIN w \<and>
     (maxSendOffset w - sentOffset w < int chunkLen \<or>
      streamInFlightCap e < bytesInFlightLocked w + int chunkLen)"

text \<open>
  One chunk goes out: the offset and the sequence number advance before the call. The loop takes at
  least one byte per round as long as \<open>dataCap\<close> is positive, which every configuration guarantees.
\<close>

definition takeChunk :: "bytes \<Rightarrow> writeSide \<Rightarrow> writeSide" where
  "takeChunk chunk w =
     wcall (CallDataFrame (wid w) (writeSeq w) chunk)
       (w\<lparr>sentOffset := sentOffset w + int (length chunk), writeSeq := writeSeq w + 1\<rparr>)"

partial_function (option) Write ::
  "sendEnv \<Rightarrow> bytes \<Rightarrow> nat \<Rightarrow> writeSide \<Rightarrow> (writeOut \<times> writeSide) option" where
  "Write e p n w =
     (if p = [] then Some (WReturns n (sflush e), wcall CallFlushSend w)
      else
        let chunkLen = min (length p) (nat (dataCap (scfg e))) in
        if writeBlocked e chunkLen w
        then (if writeDeadline w \<noteq> 0 \<and> writeDeadline w \<le> snow e
              then Some (WReturns n (Some errDeadlineExceeded), wcall CallFlushSend w)
              else Some (WWaits p n, wcall CallFlushSend w))
        else if writeErr w \<noteq> None then Some (WReturns n (writeErr w), wcall CallFlushSend w)
        else if writeFIN w then Some (WReturns n (Some ErrStreamFIN), wcall CallFlushSend w)
        else
          let chunk = take chunkLen p; sq = writeSeq w; w1 = takeChunk chunk w in
          (case sdata e sq of
             Some er \<Rightarrow> Some (WReturns n (Some er), wcall CallFlushSend w1)
           | None \<Rightarrow> Write e (drop chunkLen p) (n + length chunk) (fecFoldLocked (scfg e) sq chunk w1)))"

section \<open>Closing and cancelling\<close>

text \<open>The loop over the lanes in \<open>CloseWrite\<close>.\<close>

fun emitLanes :: "fecLane list \<Rightarrow> writeSide \<Rightarrow> fecLane list \<times> writeSide" where
  "emitLanes [] w = ([], w)"
| "emitLanes (la # las) w =
     (let (la', w1) = emitLaneLocked frameFEC la w; (las', w2) = emitLanes las w1 in (la' # las', w2))"

definition CloseWrite :: "sendEnv \<Rightarrow> writeSide \<Rightarrow> err option \<times> writeSide" where
  "CloseWrite e w =
     (if writeFIN w \<or> writeErr w \<noteq> None then (None, w)
      else
        let w1 = w\<lparr>writeFIN := True\<rparr>;
            (las, w2) = emitLanes (fecLanes w1) w1;
            (rl, w3) = emitLaneLocked frameFECRow (fecRowLane w2) (w2\<lparr>fecLanes := las\<rparr>);
            w4 = wcall CallWriteBroadcast (w3\<lparr>fecRowLane := rl\<rparr>)
        in (sreliable e, wcall (CallReliableFrame frameStreamFIN (wid w4) (writeSeq w) []) w4))"

definition CloseStream :: "sendEnv \<Rightarrow> writeSide \<Rightarrow> err option \<times> writeSide" where
  "CloseStream e w = CloseWrite e w"

definition abortWriteLocked :: "u64 \<Rightarrow> bool \<Rightarrow> writeSide \<Rightarrow> writeSide" where
  "abortWriteLocked code sendReset w =
     (if writeFIN w \<or> writeErr w \<noteq> None then w
      else
        let w1 = wcall CallWriteBroadcast
                   (w\<lparr>writeErr := Some ErrStreamReset, writeFIN := True, fecLanes := [], fecRowLane := zeroLane\<rparr>);
            w2 = wcall (CallPurgeStream (wid w)) w1
        in if sendReset then wcall (CallReliableFrame frameStreamReset (wid w) (writeSeq w) (resetPayload code)) w2
           else w2)"

definition CancelWrite :: "u64 \<Rightarrow> writeSide \<Rightarrow> writeSide" where
  "CancelWrite code w = abortWriteLocked code True w"

definition onStopSending :: "u64 \<Rightarrow> writeSide \<Rightarrow> writeSide" where
  "onStopSending code w = abortWriteLocked code True w"

text \<open>The write half of \<open>deliverClose\<close> and \<open>deliverError\<close>.\<close>

definition stickyWrite :: "err \<Rightarrow> writeSide \<Rightarrow> writeSide" where
  "stickyWrite er w =
     wcall CallWriteBroadcast
       (w\<lparr>writeErr := (if writeErr w = None then Some er else writeErr w), writeFIN := True\<rparr>)"

definition SetWriteDeadline :: "time \<Rightarrow> writeSide \<Rightarrow> writeSide" where
  "SetWriteDeadline t w = wcall CallWriteBroadcast (w\<lparr>writeDeadline := t\<rparr>)"

section \<open>Operations on both halves\<close>

definition deliverClose :: "Stream \<Rightarrow> Stream" where
  "deliverClose s = s\<lparr>rd := stickyRead ErrStreamClosed (rd s), wr := stickyWrite ErrStreamClosed (wr s)\<rparr>"

definition deliverError :: "err \<Rightarrow> Stream \<Rightarrow> Stream" where
  "deliverError er s = s\<lparr>rd := stickyRead er (rd s), wr := stickyWrite er (wr s)\<rparr>"

definition SetDeadline :: "time \<Rightarrow> Stream \<Rightarrow> Stream" where
  "SetDeadline t s = s\<lparr>rd := SetReadDeadline t (rd s), wr := SetWriteDeadline t (wr s)\<rparr>"

definition finished :: "Stream \<Rightarrow> bool" where
  "finished s =
     (if readErr (rd s) = None then False else writeFIN (wr s) \<or> writeErr (wr s) \<noteq> None)"

end
