(* ===== verification/SendFec.thy ===== *)
theory SendFec
  imports Send RecvFec
begin

text \<open>
  The FEC lanes of the send side: a lane holds the XOR of the members of its open group, and every
  parity frame it emits is a genuine parity of the chunks sent, in the sense in which the receive side
  needs it (theory \<open>Fec\<close>).
\<close>

section \<open>Members of a growing list of chunks\<close>

lemma msum_append:
  assumes "\<forall>i \<in> I. b + i * st < length cs"
  shows "msum_byte (cs @ xs) st b I j = msum_byte cs st b I j" "msum_len (cs @ xs) st b I = msum_len cs st b I"
  using assms unfolding msum_byte_def msum_len_def member_def
  by (auto simp: nth_append intro: xorsum.cong)

lemma genuine_append:
  assumes "genuine g cs st b g xl xd"
  shows "genuine g (cs @ xs) st b g xl xd"
proof -
  have m: "\<forall>i \<in> {..<g}. b + i * st < length cs" using genuine_member [OF assms] by simp
  then have "\<forall>i<g. member (cs @ xs) st b i = member cs st b i" by (simp add: member_def nth_append)
  then show ?thesis using assms msum_append [OF m] by (simp add: genuine_def)
qed

section \<open>Lanes\<close>

definition lane_ok :: "nat \<Rightarrow> nat \<Rightarrow> bytes list \<Rightarrow> nat \<Rightarrow> nat \<Rightarrow> fecLane \<Rightarrow> bool" where
  "lane_ok D g cs st r la \<longleftrightarrow> (let n = length cs; b = unat (lBase la); k = lCount la in
     k < g \<and> (lXor la = [] \<and> k = 0 \<or> length (lXor la) = D) \<and> lMaxLen la \<le> length (lXor la) \<and>
     (\<forall>j. byte_at (lXor la) j = msum_byte cs st b {..<k} j) \<and> lLenXor la = msum_len cs st b {..<k} \<and>
     (\<forall>i<k. length (member cs st b i) \<le> lMaxLen la) \<and> (k = 0 \<longrightarrow> lMaxLen la = 0) \<and>
     (0 < k \<longrightarrow> b mod st = r \<and> n \<le> b + k * st \<and> b + k * st < n + st))"

lemma lane_ok_zero: "0 < g \<Longrightarrow> lane_ok D g cs st r zeroLane"
  by (simp add: lane_ok_def zeroLane_def byte_at_def)

lemma lane_member:
  assumes "lane_ok D g cs st r la" "i < lCount la"
  shows "unat (lBase la) + i * st < length cs"
proof -
  have "Suc i * st \<le> lCount la * st" using assms(2) by (intro mult_le_mono1) simp
  then show ?thesis using assms by (auto simp: lane_ok_def Let_def)
qed

text \<open>A chunk of another residue class leaves the lane alone.\<close>

lemma lane_ok_other:
  assumes ok: "lane_ok D g cs st r la" and other: "length cs mod st \<noteq> r"
  shows "lane_ok D g (cs @ [chunk]) st r la"
proof -
  let ?b = "unat (lBase la)" and ?k = "lCount la"
  have m: "\<forall>i \<in> {..<?k}. ?b + i * st < length cs" using lane_member [OF ok] by simp
  then have mem: "\<forall>i<?k. member (cs @ [chunk]) st ?b i = member cs st ?b i" by (simp add: member_def nth_append)
  have pos: "Suc (length cs) \<le> ?b + ?k * st" if "0 < ?k"
  proof -
    have "length cs \<noteq> ?b + ?k * st" using ok other that by (auto simp: lane_ok_def Let_def)
    then show ?thesis using ok that by (simp add: lane_ok_def Let_def)
  qed
  show ?thesis using ok mem msum_append [OF m, of "[chunk]"] pos
    unfolding lane_ok_def Let_def by auto
qed

text \<open>The next member of a lane with an open group is the next chunk of its residue class.\<close>

lemma lane_next:
  assumes ok: "lane_ok D g cs st r la" and st: "0 < st" and mine: "length cs mod st = r" and k: "0 < lCount la"
  shows "unat (lBase la) + lCount la * st = length cs"
proof -
  let ?x = "unat (lBase la) + lCount la * st" and ?n = "length cs"
  have x: "?x mod st = r" "?n \<le> ?x" "?x < ?n + st" using ok k by (auto simp: lane_ok_def Let_def)
  then have "st dvd ?x - ?n" using mine mod_eq_dvd_iff_nat [of ?n ?x st] by simp
  then show ?thesis using x by (auto dest: dvd_imp_le)
qed

text \<open>The lane after a member has been folded in, before a full group is emitted.\<close>

definition folded :: "nat \<Rightarrow> u32 \<Rightarrow> bytes \<Rightarrow> fecLane \<Rightarrow> fecLane" where
  "folded D sq chunk la =
     \<lparr>lXor = xorInto (if lXor la = [] then replicate D 0 else lXor la) chunk,
      lMaxLen = max (lMaxLen la) (length chunk), lLenXor = lLenXor la XOR of_nat (length chunk),
      lCount = Suc (lCount la), lBase = (if lCount la = 0 then sq else lBase la)\<rparr>"

lemma foldLane_folded:
  "foldLaneLocked c sq chunk ft la w =
     (let la' = folded (nat (dataCap c)) sq chunk la in
      if fecGroup c \<le> int (lCount la') then emitLaneLocked ft la' w else (la', w))"
proof -
  let ?la1 = "if lXor la = [] then la\<lparr>lXor := replicate (nat (dataCap c)) 0\<rparr> else la"
  let ?la2 = "if lCount ?la1 = 0 then ?la1\<lparr>lBase := sq\<rparr> else ?la1"
  have "?la2\<lparr>lXor := xorInto (lXor ?la2) chunk,
             lMaxLen := (if lMaxLen ?la2 < length chunk then length chunk else lMaxLen ?la2),
             lLenXor := lLenXor ?la2 XOR of_nat (length chunk), lCount := Suc (lCount ?la2)\<rparr>
        = folded (nat (dataCap c)) sq chunk la"
    by (cases la) (auto simp: folded_def max_def)
  then show ?thesis unfolding foldLaneLocked_def Let_def by simp
qed

lemma folded_facts:
  assumes ok: "lane_ok D g cs st r la" and st: "0 < st" and mine: "length cs mod st = r"
    and len: "length cs < 2 ^ 32" "length chunk \<le> D" and sq: "sq = of_nat (length cs)"
  defines "la' \<equiv> folded D sq chunk la" and "cs' \<equiv> cs @ [chunk]"
  shows "length (lXor la') = D \<and> lMaxLen la' \<le> D \<and>
    (\<forall>j. byte_at (lXor la') j = msum_byte cs' st (unat (lBase la')) {..<lCount la'} j) \<and>
    lLenXor la' = msum_len cs' st (unat (lBase la')) {..<lCount la'} \<and>
    (\<forall>i<lCount la'. length (member cs' st (unat (lBase la')) i) \<le> lMaxLen la') \<and>
    unat (lBase la') mod st = r \<and> unat (lBase la') + lCount la * st = length cs \<and> lCount la' = Suc (lCount la)"
proof -
  let ?k = "lCount la" and ?b = "unat (lBase la')"
  note o = ok [unfolded lane_ok_def Let_def]
  have b: "?b = (if ?k = 0 then length cs else unat (lBase la))"
    using len(1) by (simp add: la'_def folded_def sq)
  have nx: "?b + ?k * st = length cs" using lane_next [OF ok st mine] b by auto
  have m: "\<forall>i \<in> {..<?k}. ?b + i * st < length cs" using lane_member [OF ok] b by auto
  have last: "member cs' st ?b ?k = chunk" using nx by (simp add: member_def cs'_def)
  have old: "member cs' st ?b i = member cs st ?b i" if "i < ?k" for i
    using that m by (simp add: member_def cs'_def nth_append)
  have bs: "byte_at (lXor la) j = msum_byte cs st ?b {..<?k} j" "lLenXor la = msum_len cs st ?b {..<?k}" for j
    using o b by (cases "?k = 0"; simp)+
  have buf: "length (if lXor la = [] then replicate D 0 else lXor la) = D" using o by auto
  have pad: "byte_at (if lXor la = [] then replicate D 0 else lXor la) j = byte_at (lXor la) j" for j
    by (simp add: byte_at_def)
  have "{..<Suc ?k} = insert ?k {..<?k}" by auto
  then have sums: "msum_byte cs' st ?b {..<Suc ?k} j = msum_byte cs st ?b {..<?k} j XOR byte_at chunk j"
    "msum_len cs' st ?b {..<Suc ?k} = msum_len cs st ?b {..<?k} XOR of_nat (length chunk)" for j
    using msum_append [OF m, of "[chunk]"] last by (simp_all add: msum_insert cs'_def)
  have xor: "byte_at (lXor la') j = byte_at (lXor la) j XOR byte_at chunk j" for j
    unfolding la'_def folded_def fecLane.simps pad [of j, symmetric]
    by (rule byte_at_xorInto) (simp only: buf len(2))
  have "lLenXor la' = lLenXor la XOR of_nat (length chunk)" "lCount la' = Suc ?k" by (simp_all add: la'_def folded_def)
  then have "\<forall>j. byte_at (lXor la') j = msum_byte cs' st ?b {..<Suc ?k} j"
    "lLenXor la' = msum_len cs' st ?b {..<Suc ?k}" "lCount la' = Suc ?k"
    unfolding sums xor bs by simp_all
  moreover have "length (lXor la') = D" "lMaxLen la' \<le> D"
    using buf len(2) o by (auto simp: la'_def folded_def)
  moreover have "length (member cs' st ?b i) \<le> lMaxLen la'" if "i < Suc ?k" for i
  proof (cases "i = ?k")
    case True
    then show ?thesis using last by (simp add: la'_def folded_def)
  next
    case False
    then have "i < ?k" using that by simp
    then have "length (member cs st ?b i) \<le> lMaxLen la" using o b by auto
    then show ?thesis using old [OF \<open>i < ?k\<close>] by (simp add: la'_def folded_def)
  qed
  moreover have "?b mod st = r" using b mine o by (cases "?k = 0") auto
  ultimately show ?thesis using nx by simp
qed

lemma emitLane_reset:
  assumes "\<forall>j. byte_at (lXor la) j = msum_byte cs st b {..<k} j"
    "\<forall>i<k. length (member cs st b i) \<le> lMaxLen la" "lMaxLen la \<le> length (lXor la)"
  shows "byte_at (replicate (lMaxLen la) 0 @ drop (lMaxLen la) (lXor la)) j = 0"
proof (cases "j < lMaxLen la")
  case False
  have "byte_at (member cs st b i) j = 0" if "i < k" for i
    using assms(2) that False by (auto simp: byte_at_def)
  then have "msum_byte cs st b {..<k} j = 0"
    unfolding msum_byte_def by (intro xorsum.neutral) simp
  then have "byte_at (lXor la) j = 0" using assms(1) by simp
  then show ?thesis using False assms(3) by (auto simp: byte_at_def nth_append split: if_splits)
qed (simp add: byte_at_def nth_append)

text \<open>A chunk folded into its lane: the lane stays correct, and what it emits is a genuine parity of a
  full group.\<close>

lemma foldLane_step:
  assumes ok: "lane_ok D g cs st r la" and st: "0 < st" and mine: "length cs mod st = r"
    and len: "length cs < 2 ^ 32" "length chunk \<le> D" and sq: "sq = of_nat (length cs)"
    and c: "D = nat (dataCap c)" "int g = fecGroup c" "D < 2 ^ 32"
    and f: "foldLaneLocked c sq chunk ft la w = (la', w')"
  shows "lane_ok D g (cs @ [chunk]) st r la' \<and>
    (w' = w \<or> (\<exists>b xl xd. w' = wcall (CallFecFrame ft (wid w) b g xl xd) w \<and>
       genuine g (cs @ [chunk]) st (unat b) g xl xd))"
proof -
  let ?f = "folded D sq chunk la" and ?cs = "cs @ [chunk]"
  let ?b = "unat (lBase ?f)"
  note ff = folded_facts [OF ok st mine len sq]
  have k: "lCount la < g" using ok by (simp add: lane_ok_def Let_def)
  have nx: "?b + lCount la * st = length cs" using ff by blast
  show ?thesis
  proof (cases "g \<le> Suc (lCount la)")
    case False
    then have r: "la' = ?f" "w' = w" using f ff c by (auto simp: foldLane_folded Let_def)
    have "lane_ok D g ?cs st r ?f"
      unfolding lane_ok_def Let_def using ff False nx st by (auto simp: add.commute)
    then show ?thesis using r by simp
  next
    case True
    then have kg: "lCount ?f = g" using k ff by simp
    have r: "la' = ?f\<lparr>lXor := replicate (lMaxLen ?f) 0 @ drop (lMaxLen ?f) (lXor ?f), lMaxLen := 0, lLenXor := 0, lCount := 0\<rparr>"
      "w' = wcall (CallFecFrame ft (wid w) (lBase ?f) g (unat (lLenXor ?f)) (take (lMaxLen ?f) (lXor ?f))) w"
      using f c kg k by (auto simp: foldLane_folded emitLaneLocked_def Let_def)
    have "byte_at (replicate (lMaxLen ?f) 0 @ drop (lMaxLen ?f) (lXor ?f)) j = 0" for j
      by (rule emitLane_reset [of _ ?cs st ?b "lCount ?f"]) (use ff in auto)
    then have "lane_ok D g ?cs st r la'"
      unfolding lane_ok_def Let_def r(1) using ff k by auto
    moreover have "genuine g ?cs st ?b g (unat (lLenXor ?f)) (take (lMaxLen ?f) (lXor ?f))"
    proof -
      have "take (lMaxLen ?f) (lXor ?f) ! j = msum_byte ?cs st ?b {..<g} j" if "j < lMaxLen ?f" for j
        using ff that kg by (auto simp: byte_at_def split: if_splits dest!: spec [of _ j])
      moreover have "g - 1 = lCount la" using kg ff by simp
      then have "?b + (g - 1) * st < length ?cs" using nx by simp
      ultimately show ?thesis using ff kg k unfolding genuine_def by auto
    qed
    ultimately show ?thesis using r(2) by blast
  qed
qed

text \<open>What closing the stream emits is a genuine parity of the short group at its end.\<close>

lemma emitLane_genuine:
  assumes ok: "lane_ok D g cs st r la" and k: "lCount la \<noteq> 0"
  shows "genuine g cs st (unat (lBase la)) (lCount la) (unat (lLenXor la)) (take (lMaxLen la) (lXor la))"
proof -
  note o = ok [unfolded lane_ok_def Let_def]
  have "unat (lBase la) + (lCount la - 1) * st < length cs" using k by (intro lane_member [OF ok]) simp
  moreover have "take (lMaxLen la) (lXor la) ! j = msum_byte cs st (unat (lBase la)) {..<lCount la} j"
    if "j < lMaxLen la" for j
  proof -
    have "byte_at (lXor la) j = msum_byte cs st (unat (lBase la)) {..<lCount la} j" using o by blast
    then show ?thesis using that o by (auto simp: byte_at_def)
  qed
  ultimately show ?thesis using o k unfolding genuine_def by auto
qed

end
