(* ===== verification/SendRun.thy ===== *)
theory SendRun
  imports SendFec
begin

text \<open>
  \<open>Write\<close> as a sequence of rounds, one DATA frame each, and the invariant of the send side: the DATA frames
  sent carry consecutive sequence numbers and never exceed the granted window, and the FEC lanes and
  the parities they emitted match the chunks sent.
\<close>

section \<open>Frames sent\<close>

text \<open>The DATA and parity frames a stream has handed to its connection.\<close>

definition dataFrames :: "connCall list \<Rightarrow> (u32 \<times> bytes) list" where
  "dataFrames cs = concat (map (\<lambda>c. case c of CallDataFrame i q d \<Rightarrow> [(q, d)] | _ \<Rightarrow> []) cs)"

definition parityFrames :: "connCall list \<Rightarrow> (bool \<times> u32 \<times> nat \<times> nat \<times> bytes) list" where
  "parityFrames cs =
     concat (map (\<lambda>c. case c of CallFecFrame ft i b k xl xd \<Rightarrow> [(ft = frameFECRow, b, k, xl, xd)] | _ \<Rightarrow> []) cs)"

definition sent :: "writeSide \<Rightarrow> bytes list" where
  "sent w = map snd (dataFrames (wcalls w))"

lemma frames_append [simp]:
  "dataFrames [] = []" "parityFrames [] = []"
  "dataFrames (xs @ ys) = dataFrames xs @ dataFrames ys" "parityFrames (xs @ ys) = parityFrames xs @ parityFrames ys"
  by (simp_all add: dataFrames_def parityFrames_def)

section \<open>Rounds\<close>

definition wround :: "config \<Rightarrow> bytes \<Rightarrow> writeSide \<Rightarrow> writeSide" where
  "wround c chunk w = fecFoldLocked c (writeSeq w) chunk (takeChunk chunk w)"

definition rounds :: "config \<Rightarrow> bytes list \<Rightarrow> writeSide \<Rightarrow> writeSide" where
  "rounds c cs w = fold (wround c) cs w"

lemma rounds_simps [simp]: "rounds c [] w = w" "rounds c (d # cs) w = rounds c cs (wround c d w)"
  "rounds c (cs @ ds) w = rounds c ds (rounds c cs w)"
  by (simp_all add: rounds_def)

text \<open>The fields the lanes do not touch.\<close>

text \<open>The lanes call nothing but \<open>sendFecFrame\<close>.\<close>

definition fecOnly :: "connCall list \<Rightarrow> bool" where
  "fecOnly xs \<longleftrightarrow> (\<forall>x \<in> set xs. \<exists>ft i b k xl xd. x = CallFecFrame ft i b k xl xd)"

lemma fecOnly_simps [simp]: "fecOnly []" "fecOnly (xs @ ys) \<longleftrightarrow> fecOnly xs \<and> fecOnly ys"
  "fecOnly [CallFecFrame ft i b k xl xd]" "fecOnly xs \<Longrightarrow> CallReliableFrame ft' i' q d \<notin> set xs"
  by (auto simp: fecOnly_def)

lemma fecOnly_data: "fecOnly xs \<Longrightarrow> dataFrames xs = []"
  by (force simp: fecOnly_def dataFrames_def)

lemma lane_calls_keep:
  "emitLaneLocked ft la w = (la', w') \<Longrightarrow> \<exists>xs. w' = w\<lparr>wcalls := wcalls w @ xs\<rparr> \<and> fecOnly xs"
  "foldLaneLocked c sq chunk ft la w = (la', w') \<Longrightarrow> \<exists>xs. w' = w\<lparr>wcalls := wcalls w @ xs\<rparr> \<and> fecOnly xs"
proof -
  show e: "\<exists>xs. w' = w\<lparr>wcalls := wcalls w @ xs\<rparr> \<and> fecOnly xs"
    if "emitLaneLocked ft la w = (la', w')" for ft la w la' w'
  proof (cases "lCount la = 0")
    case True
    then show ?thesis using that by (intro exI [of _ "[]"]) (auto simp: emitLaneLocked_def)
  next
    case False
    then show ?thesis using that by (auto simp: emitLaneLocked_def wcall_def)
  qed
  assume "foldLaneLocked c sq chunk ft la w = (la', w')"
  then consider "w' = w" | la0 where "emitLaneLocked ft la0 w = (la', w')"
    by (auto simp: foldLane_folded Let_def split: if_splits)
  then show "\<exists>xs. w' = w\<lparr>wcalls := wcalls w @ xs\<rparr> \<and> fecOnly xs"
    by cases (auto intro: e exI [of _ "[]"])
qed

lemma fecFold_keep:
  "\<exists>xs las rl. fecFoldLocked c sq chunk w = w\<lparr>wcalls := wcalls w @ xs, fecLanes := las, fecRowLane := rl\<rparr> \<and>
     fecOnly xs"
proof (cases "fecGroup c \<le> 0")
  case True
  then show ?thesis by (auto simp: fecFoldLocked_def intro!: exI [of _ "[]"] exI [of _ "fecLanes w"] exI [of _ "fecRowLane w"])
next
  case False
  let ?w1 = "if fecLanes w = [] then w\<lparr>fecLanes := replicate (nat (fecGroup c)) zeroLane\<rparr> else w"
  let ?i = "unat (sq mod of_nat (nat (fecGroup c)))"
  obtain la w2 where f1: "foldLaneLocked c sq chunk frameFEC (fecLanes ?w1 ! ?i) ?w1 = (la, w2)" by fastforce
  obtain rl w4 where f2: "foldLaneLocked c sq chunk frameFECRow (fecRowLane (w2\<lparr>fecLanes := (fecLanes w2)[?i := la]\<rparr>))
      (w2\<lparr>fecLanes := (fecLanes w2)[?i := la]\<rparr>) = (rl, w4)" by fastforce
  from lane_calls_keep(2) [OF f1] lane_calls_keep(2) [OF f2] obtain xs ys where
    w2: "w2 = ?w1\<lparr>wcalls := wcalls ?w1 @ xs\<rparr>" and d: "fecOnly xs" "fecOnly ys"
    and w4: "w4 = w2\<lparr>fecLanes := (fecLanes w2)[?i := la], wcalls := wcalls w2 @ ys\<rparr>" by auto
  have f: "fecFoldLocked c sq chunk w =
      (if fec2D c then w4\<lparr>fecRowLane := rl\<rparr> else w2\<lparr>fecLanes := (fecLanes w2)[?i := la]\<rparr>)"
    using False f1 f2 by (simp add: fecFoldLocked_def Let_def split: prod.split)
  have w2': "w2\<lparr>fecLanes := las\<rparr> = w\<lparr>wcalls := wcalls w @ xs, fecLanes := las, fecRowLane := fecRowLane w\<rparr>" for las
    unfolding w2 by (cases w) simp
  have w4': "w4\<lparr>fecRowLane := rl\<rparr> = w\<lparr>wcalls := wcalls w @ (xs @ ys), fecLanes := (fecLanes w2)[?i := la], fecRowLane := rl\<rparr>"
    unfolding w4 unfolding w2 by (cases w) simp
  show ?thesis
  proof (cases "fec2D c")
    case True
    then have "fecFoldLocked c sq chunk w =
        w\<lparr>wcalls := wcalls w @ (xs @ ys), fecLanes := (fecLanes w2)[?i := la], fecRowLane := rl\<rparr>"
      using f w4' by simp
    moreover have "fecOnly (xs @ ys)" using d by simp
    ultimately show ?thesis by blast
  next
    case False
    then have "fecFoldLocked c sq chunk w =
        w\<lparr>wcalls := wcalls w @ xs, fecLanes := (fecLanes w2)[?i := la], fecRowLane := fecRowLane w\<rparr>"
      using f w2' by simp
    then show ?thesis using d(1) by blast
  qed
qed

lemma wround_fields [simp]:
  "writeErr (wround c d w) = writeErr w" "writeFIN (wround c d w) = writeFIN w"
  "maxSendOffset (wround c d w) = maxSendOffset w" "ackedBytes (wround c d w) = ackedBytes w"
  "writeDeadline (wround c d w) = writeDeadline w" "wid (wround c d w) = wid w"
  "sentOffset (wround c d w) = sentOffset w + int (length d)" "writeSeq (wround c d w) = writeSeq w + 1"
proof -
  obtain xs las rl where "wround c d w = (takeChunk d w)\<lparr>wcalls := wcalls (takeChunk d w) @ xs, fecLanes := las, fecRowLane := rl\<rparr>"
    using fecFold_keep [of c "writeSeq w" d "takeChunk d w"] unfolding wround_def by blast
  then show "writeErr (wround c d w) = writeErr w" "writeFIN (wround c d w) = writeFIN w"
    "maxSendOffset (wround c d w) = maxSendOffset w" "ackedBytes (wround c d w) = ackedBytes w"
    "writeDeadline (wround c d w) = writeDeadline w" "wid (wround c d w) = wid w"
    "sentOffset (wround c d w) = sentOffset w + int (length d)" "writeSeq (wround c d w) = writeSeq w + 1"
    by (simp_all add: takeChunk_def wcall_def)
qed

lemma wround_data: "dataFrames (wcalls (wround c d w)) = dataFrames (wcalls w) @ [(writeSeq w, d)]"
proof -
  obtain xs las rl where "wround c d w = (takeChunk d w)\<lparr>wcalls := wcalls (takeChunk d w) @ xs, fecLanes := las, fecRowLane := rl\<rparr>"
    "dataFrames xs = []"
    using fecFold_keep [of c "writeSeq w" d "takeChunk d w"] fecOnly_data unfolding wround_def by blast
  moreover have "dataFrames (CallDataFrame i q x # ys) = (q, x) # dataFrames ys" for i q x ys
    by (simp add: dataFrames_def)
  ultimately show ?thesis by (simp add: takeChunk_def wcall_def)
qed

lemma wround_reliable:
  "CallReliableFrame ft i q x \<in> set (wcalls (wround c d w)) \<longleftrightarrow> CallReliableFrame ft i q x \<in> set (wcalls w)"
proof -
  obtain xs las rl where "wround c d w = (takeChunk d w)\<lparr>wcalls := wcalls (takeChunk d w) @ xs, fecLanes := las, fecRowLane := rl\<rparr>"
    "fecOnly xs"
    using fecFold_keep [of c "writeSeq w" d "takeChunk d w"] unfolding wround_def by blast
  then show ?thesis by (auto simp: takeChunk_def wcall_def)
qed

lemma rounds_reliable:
  "CallReliableFrame ft i q x \<in> set (wcalls (rounds c cs w)) \<longleftrightarrow> CallReliableFrame ft i q x \<in> set (wcalls w)"
  by (induction cs arbitrary: w) (simp_all add: wround_reliable)

lemma wround_sent: "sent (wround c d w) = sent w @ [d]"
  by (simp add: sent_def wround_data)

lemma rounds_fields [simp]:
  "writeErr (rounds c cs w) = writeErr w" "writeFIN (rounds c cs w) = writeFIN w"
  "maxSendOffset (rounds c cs w) = maxSendOffset w" "ackedBytes (rounds c cs w) = ackedBytes w"
  "writeDeadline (rounds c cs w) = writeDeadline w"
  by (induction cs arbitrary: w) simp_all

lemma rounds_sent:
  "sentOffset (rounds c cs w) = sentOffset w + int (length (concat cs))"
  "writeSeq (rounds c cs w) = writeSeq w + of_nat (length cs)"
  by (induction cs arbitrary: w) simp_all

section \<open>Every branch of Write\<close>

text \<open>The chunk that a slice yields next, and a run of chunks each of which was sent unblocked.\<close>

definition nextChunk :: "config \<Rightarrow> bytes \<Rightarrow> bytes" where
  "nextChunk c p = take (min (length p) (nat (dataCap c))) p"

fun clear_run :: "sendEnv \<Rightarrow> bytes list \<Rightarrow> writeSide \<Rightarrow> bool" where
  "clear_run e [] w = True"
| "clear_run e (d # cs) w \<longleftrightarrow> d \<noteq> [] \<and> int (length d) \<le> dataCap (scfg e) \<and> writeErr w = None \<and> \<not> writeFIN w \<and>
     \<not> writeBlocked e (length d) w \<and> sdata e (writeSeq w) = None \<and> clear_run e cs (wround (scfg e) d w)"

text \<open>How a call of \<open>Write\<close> can end, given what is left of the slice.\<close>

definition writeEnd :: "sendEnv \<Rightarrow> bytes \<Rightarrow> nat \<Rightarrow> writeSide \<Rightarrow> writeOut \<Rightarrow> writeSide \<Rightarrow> bool" where
  "writeEnd e rest m w out w' \<longleftrightarrow>
     (if rest = [] then out = WReturns m (sflush e) \<and> w' = wcall CallFlushSend w
      else if writeErr w \<noteq> None then out = WReturns m (writeErr w) \<and> w' = wcall CallFlushSend w
      else if writeFIN w then out = WReturns m (Some ErrStreamFIN) \<and> w' = wcall CallFlushSend w
      else if writeBlocked e (length (nextChunk (scfg e) rest)) w
      then w' = wcall CallFlushSend w \<and>
           (if writeDeadline w \<noteq> 0 \<and> writeDeadline w \<le> snow e then out = WReturns m (Some errDeadlineExceeded)
            else out = WWaits rest m)
      else \<exists>er. sdata e (writeSeq w) = Some er \<and> out = WReturns m (Some er) \<and>
           w' = wcall CallFlushSend (takeChunk (nextChunk (scfg e) rest) w))"

lemma take_nextChunk: "take (length (nextChunk c p)) p = nextChunk c p"
  by (simp add: nextChunk_def)

lemma Write_stops:
  assumes "\<not> (p \<noteq> [] \<and> \<not> writeBlocked e (length (nextChunk (scfg e) p)) w \<and> writeErr w = None \<and> \<not> writeFIN w \<and>
    sdata e (writeSeq w) = None)"
  shows "\<exists>out w'. Write e p n w = Some (out, w') \<and> writeEnd e p n w out w'"
proof -
  let ?b = "writeBlocked e (length (nextChunk (scfg e) p)) w"
  have len: "min (length p) (nat (dataCap (scfg e))) = length (nextChunk (scfg e) p)" by (simp add: nextChunk_def)
  note u = Write.simps [of e p n w, unfolded len take_nextChunk Let_def]
  consider "p = []" | "p \<noteq> []" ?b | "p \<noteq> []" "\<not> ?b" "writeErr w \<noteq> None"
    | "p \<noteq> []" "\<not> ?b" "writeErr w = None" "writeFIN w"
    | er where "p \<noteq> []" "\<not> ?b" "writeErr w = None" "\<not> writeFIN w" "sdata e (writeSeq w) = Some er"
    using assms by (cases "sdata e (writeSeq w)") auto
  then show ?thesis
  proof cases
    case 1
    then show ?thesis using Write.simps [of e "[]" n w] by (simp add: writeEnd_def)
  next
    case 2
    then have "writeErr w = None" "\<not> writeFIN w" by (simp_all add: writeBlocked_def)
    then show ?thesis using 2 by (simp add: u writeEnd_def)
  qed (simp_all add: u writeEnd_def)
qed

lemma Write_ends:
  assumes "0 < dataCap (scfg e)"
  shows "\<exists>out w' cs rest. Write e p n w = Some (out, w') \<and> p = concat cs @ rest \<and> clear_run e cs w \<and>
    writeEnd e rest (n + length (concat cs)) (rounds (scfg e) cs w) out w'"
proof (induction "length p" arbitrary: p n w rule: less_induct)
  case less
  let ?c = "scfg e" and ?d = "nextChunk (scfg e) p"
  have len: "min (length p) (nat (dataCap ?c)) = length ?d" by (simp add: nextChunk_def)
  show ?case
  proof (cases "p \<noteq> [] \<and> \<not> writeBlocked e (length ?d) w \<and> writeErr w = None \<and> \<not> writeFIN w \<and> sdata e (writeSeq w) = None")
    case False
    from Write_stops [OF this, of n] obtain out w' where "Write e p n w = Some (out, w')" "writeEnd e p n w out w'"
      by blast
    then show ?thesis by (intro exI [of _ out] exI [of _ w'] exI [of _ "[]"] exI [of _ p]) simp
  next
    case True
    have d: "?d \<noteq> []" "int (length ?d) \<le> dataCap ?c" "p = ?d @ drop (length ?d) p"
      using True assms by (auto simp: nextChunk_def min_def)
    then have "length (drop (length ?d) p) < length p" using True by simp
    from less.hyps [OF this, of "n + length ?d" "wround ?c ?d w"] obtain out w' cs rest where
      r: "Write e (drop (length ?d) p) (n + length ?d) (wround ?c ?d w) = Some (out, w')"
        "drop (length ?d) p = concat cs @ rest" "clear_run e cs (wround ?c ?d w)"
        "writeEnd e rest (n + length ?d + length (concat cs)) (rounds ?c cs (wround ?c ?d w)) out w'" by blast
    have "Write e p n w = Some (out, w')"
      unfolding Write.simps [of e p n w] len using True r(1) by (simp add: Let_def nextChunk_def wround_def)
    moreover have "clear_run e (?d # cs) w" using r(3) d True by simp
    moreover have "p = concat (?d # cs) @ rest" using d(3) r(2) by simp
    ultimately show ?thesis using r(4)
      by (intro exI [of _ out] exI [of _ w'] exI [of _ "?d # cs"] exI [of _ rest]) (simp add: add.assoc)
  qed
qed

section \<open>The invariant\<close>

definition dinv :: "config \<Rightarrow> writeSide \<Rightarrow> bool" where
  "dinv c w \<longleftrightarrow> map fst (dataFrames (wcalls w)) = map of_nat [0..<length (sent w)] \<and>
     writeSeq w = of_nat (length (sent w)) \<and> sentOffset w = int (length (concat (sent w))) \<and>
     (\<forall>d \<in> set (sent w). d \<noteq> [] \<and> int (length d) \<le> dataCap c) \<and> sentOffset w \<le> maxSendOffset w"

definition lanes :: "config \<Rightarrow> writeSide \<Rightarrow> fecLane list" where
  "lanes c w = (if fecLanes w = [] then replicate (nat (fecGroup c)) zeroLane else fecLanes w)"

definition lanes_ok :: "config \<Rightarrow> writeSide \<Rightarrow> bool" where
  "lanes_ok c w \<longleftrightarrow> (let g = nat (fecGroup c); D = nat (dataCap c) in
     length (lanes c w) = g \<and> (\<forall>r<g. lane_ok D g (sent w) g r (lanes c w ! r)) \<and>
     (if fec2D c then lane_ok D g (sent w) 1 0 (fecRowLane w) else lCount (fecRowLane w) = 0))"

definition pars_ok :: "config \<Rightarrow> writeSide \<Rightarrow> bool" where
  "pars_ok c w \<longleftrightarrow> (\<forall>(row, b, k, xl, xd) \<in> set (parityFrames (wcalls w)).
     genuine (nat (fecGroup c)) (sent w) (stride_of c row) (unat b) k xl xd \<and> (k = nat (fecGroup c) \<or> writeFIN w))"

definition finv :: "config \<Rightarrow> writeSide \<Rightarrow> bool" where
  "finv c w \<longleftrightarrow> (if fecGroup c = 0 then fecLanes w = [] \<and> lCount (fecRowLane w) = 0 \<and> parityFrames (wcalls w) = []
     else pars_ok c w \<and> (\<not> writeFIN w \<longrightarrow> lanes_ok c w))"

text \<open>Calls that are neither DATA nor parity frames, and the fields the invariant does not look at.\<close>

definition plain :: "connCall \<Rightarrow> bool" where
  "plain c \<longleftrightarrow> dataFrames [c] = [] \<and> parityFrames [c] = []"

lemma plain_calls [simp]:
  "plain CallFlushSend" "plain CallWriteBroadcast" "plain (CallPurgeStream i)" "plain (CallReliableFrame ft i q d)"
  by (simp_all add: plain_def dataFrames_def parityFrames_def)

lemma sent_plain [simp]: "plain c \<Longrightarrow> sent (wcall c w) = sent w"
  by (simp add: sent_def wcall_def plain_def)

lemma inv_plain [simp]:
  "plain cl \<Longrightarrow> dinv c (wcall cl w) = dinv c w" "plain cl \<Longrightarrow> finv c (wcall cl w) = finv c w"
proof -
  assume p: "plain cl"
  have [simp]: "dataFrames (wcalls (wcall cl w)) = dataFrames (wcalls w)"
    "parityFrames (wcalls (wcall cl w)) = parityFrames (wcalls w)"
    using p by (simp_all add: wcall_def plain_def)
  have [simp]: "writeSeq (wcall cl w) = writeSeq w" "sentOffset (wcall cl w) = sentOffset w"
    "maxSendOffset (wcall cl w) = maxSendOffset w" "writeFIN (wcall cl w) = writeFIN w"
    "fecLanes (wcall cl w) = fecLanes w" "fecRowLane (wcall cl w) = fecRowLane w"
    by (simp_all add: wcall_def)
  show "dinv c (wcall cl w) = dinv c w" using p by (simp add: dinv_def)
  show "finv c (wcall cl w) = finv c w" using p by (simp add: finv_def pars_ok_def lanes_ok_def lanes_def)
qed

section \<open>Preservation\<close>

lemma wround_dinv:
  assumes "dinv c w" "d \<noteq> []" "int (length d) \<le> dataCap c" "int (length d) \<le> maxSendOffset w - sentOffset w"
  shows "dinv c (wround c d w)"
  using assms by (auto simp: dinv_def wround_data wround_sent)

lemma clear_run_dinv:
  "clear_run e cs w \<Longrightarrow> dinv (scfg e) w \<Longrightarrow> dinv (scfg e) (rounds (scfg e) cs w)"
proof (induction cs arbitrary: w)
  case (Cons d cs)
  then have "dinv (scfg e) (wround (scfg e) d w)"
    by (intro wround_dinv) (auto simp: writeBlocked_def)
  then show ?case using Cons by simp
qed simp

lemma rounds_sent_list: "sent (rounds c cs w) = sent w @ cs"
  by (induction cs arbitrary: w) (simp_all add: wround_sent)

text \<open>One round folds the chunk into its column lane and, in the two-dimensional code, into the row lane.\<close>

lemma parity_one: "parityFrames [CallFecFrame ft i b k xl xd] = [(ft = frameFECRow, b, k, xl, xd)]"
  by (simp add: parityFrames_def)

lemma wround_finv:
  assumes cfg: "config_ok c" "maxPayload c < 2 ^ 16" "0 < fecGroup c" and inv: "dinv c w" "pars_ok c w" "lanes_ok c w"
    and fin: "\<not> writeFIN w" and d: "int (length d) \<le> dataCap c" and len: "length (sent w) < 2 ^ 32"
  shows "pars_ok c (wround c d w) \<and> lanes_ok c (wround c d w)"
proof -
  let ?g = "nat (fecGroup c)" and ?D = "nat (dataCap c)" and ?cs = "sent w" and ?cs' = "sent w @ [d]"
  let ?w1 = "takeChunk d w" and ?sq = "writeSeq w"
  let ?wA = "?w1\<lparr>fecLanes := lanes c w\<rparr>"
  have g: "2 \<le> ?g" "?g \<le> 32" "int ?g = fecGroup c" using cfg by (auto simp: config_ok_def)
  have D: "?D < 2 ^ 32" using cfg(2) config_ok_dataCap [OF cfg(1)] by (simp add: nat_less_iff)
  have dl: "length d \<le> ?D" using d by simp
  have sq: "?sq = of_nat (length ?cs)" using inv by (simp add: dinv_def)
  define i where "i = unat (?sq mod of_nat ?g)"
  have ug: "unat (of_nat ?g :: u32) = ?g" using g(2) by (intro unat_of_nat32) simp
  have i: "i = length ?cs mod ?g" unfolding i_def sq unat_mod ug using len by simp
  then have i: "i = length ?cs mod ?g" "i < ?g" using g(1) by simp_all
  note lo = inv(3) [unfolded lanes_ok_def Let_def]
  obtain la w2 where f1: "foldLaneLocked c ?sq d frameFEC (lanes c w ! i) ?wA = (la, w2)" by fastforce
  have "lane_ok ?D ?g ?cs ?g i (lanes c w ! i)" using lo i by auto
  from foldLane_step [OF this _ i(1) [symmetric] len dl sq refl g(3) D f1] g
  have la: "lane_ok ?D ?g ?cs' ?g i la" and w2: "w2 = ?wA \<or> (\<exists>b xl xd. w2 = wcall (CallFecFrame frameFEC (wid ?wA) b ?g xl xd) ?wA \<and>
      genuine ?g ?cs' ?g (unat b) ?g xl xd)" by auto
  define w3 where "w3 = w2\<lparr>fecLanes := (lanes c w)[i := la]\<rparr>"
  have fl2: "fecLanes w2 = lanes c w" using w2 by (auto simp: wcall_def)
  have row3: "fecRowLane w3 = fecRowLane w" "wid w3 = wid w" "writeFIN w3 = writeFIN w"
    using w2 by (auto simp: w3_def wcall_def takeChunk_def)
  obtain rl w4 where f2: "foldLaneLocked c ?sq d frameFECRow (fecRowLane w) w3 = (rl, w4)" by fastforce
  have ne: "fecLanes ?wA \<noteq> []" using lo g by auto
  have wA: "(if fecLanes ?w1 = [] then ?w1\<lparr>fecLanes := replicate ?g zeroLane\<rparr> else ?w1) = ?wA"
    by (cases w) (simp add: lanes_def takeChunk_def wcall_def)
  have res: "wround c d w = (if fec2D c then w4\<lparr>fecRowLane := rl\<rparr> else w3)"
    using f1 f2 cfg(3) wA row3 fl2 unfolding wround_def fecFoldLocked_def Let_def i_def [symmetric]
    by (simp add: w3_def)
  have rl: "fec2D c \<Longrightarrow> lane_ok ?D ?g ?cs' 1 0 rl \<and> (w4 = w3 \<or> (\<exists>b xl xd. w4 = wcall (CallFecFrame frameFECRow (wid w3) b ?g xl xd) w3 \<and>
      genuine ?g ?cs' 1 (unat b) ?g xl xd))"
  proof -
    assume "fec2D c"
    then have "lane_ok ?D ?g ?cs 1 0 (fecRowLane w)" using lo by simp
    from foldLane_step [OF this _ _ len dl sq refl g(3) D f2] show ?thesis by simp
  qed
  have "lanes_ok c (wround c d w)"
  proof -
    have fl: "fecLanes (wround c d w) = (lanes c w)[i := la]"
      using res rl by (cases "fec2D c") (auto simp: w3_def wcall_def)
    then have l: "lanes c (wround c d w) = (lanes c w)[i := la]" using lo g by (auto simp: lanes_def)
    have "lane_ok ?D ?g ?cs' ?g r ((lanes c w)[i := la] ! r)" if "r < ?g" for r
    proof (cases "r = i")
      case True
      then show ?thesis using la that lo by simp
    next
      case False
      have "lane_ok ?D ?g ?cs ?g r (lanes c w ! r)" using lo that by simp
      from lane_ok_other [OF this, of d] show ?thesis using False i by simp
    qed
    moreover have "fecRowLane (wround c d w) = (if fec2D c then rl else fecRowLane w)"
      using res row3 by simp
    ultimately show ?thesis using rl lo unfolding lanes_ok_def Let_def l wround_sent by auto
  qed
  moreover have "pars_ok c (wround c d w)"
  proof -
    have old: "genuine ?g ?cs' (stride_of c row) (unat b) k xl xd \<and> k = ?g"
      if "(row, b, k, xl, xd) \<in> set (parityFrames (wcalls w))" for row b k xl xd
    proof -
      have "genuine ?g ?cs (stride_of c row) (unat b) k xl xd" "k = ?g"
        using inv(2) that fin by (auto simp: pars_ok_def)
      then show ?thesis using genuine_append by blast
    qed
    have cA: "parityFrames (wcalls ?wA) = parityFrames (wcalls w)"
      by (simp add: takeChunk_def wcall_def) (simp add: parityFrames_def)
    have c3: "parityFrames (wcalls w3) = parityFrames (wcalls w) \<or> (\<exists>b xl xd. parityFrames (wcalls w3) = parityFrames (wcalls w) @ [(False, b, ?g, xl, xd)] \<and>
        genuine ?g ?cs' ?g (unat b) ?g xl xd)"
      using w2 cA by (auto simp: w3_def wcall_def parity_one frame_type_defs)
    have c4: "fec2D c \<Longrightarrow> parityFrames (wcalls w4) = parityFrames (wcalls w3) \<or> (\<exists>b xl xd. parityFrames (wcalls w4) = parityFrames (wcalls w3) @ [(True, b, ?g, xl, xd)] \<and>
        genuine ?g ?cs' 1 (unat b) ?g xl xd)"
      using rl by (auto simp: wcall_def parity_one)
    define Q where "Q = (\<lambda>(row, b :: u32, k, xl, xd). genuine ?g ?cs' (stride_of c row) (unat b) k xl xd \<and> k = ?g)"
    have new: "genuine ?g ?cs' ?g (unat b) ?g xl xd \<Longrightarrow> Q (False, b, ?g, xl, xd)"
      "genuine ?g ?cs' 1 (unat b) ?g xl xd \<Longrightarrow> Q (True, b, ?g, xl, xd)" for b xl xd
      by (simp_all add: Q_def stride_of_def)
    have "Q x" if "x \<in> set (parityFrames (wcalls w))" for x
    proof -
      obtain row b k xl xd where x: "x = (row, b, k, xl, xd)" by (cases x)
      show ?thesis unfolding Q_def x prod.case by (rule old [OF that [unfolded x]])
    qed
    then have s3: "\<forall>x \<in> set (parityFrames (wcalls w3)). Q x" using c3 new(1) by auto
    then have "fec2D c \<Longrightarrow> \<forall>x \<in> set (parityFrames (wcalls w4)). Q x" using c4 new(2) by auto
    then have "\<forall>x \<in> set (parityFrames (wcalls (wround c d w))). Q x" using s3 res by (cases "fec2D c") auto
    then show ?thesis unfolding pars_ok_def wround_sent Q_def by auto
  qed
  ultimately show ?thesis by blast
qed

end
