(* ===== verification/SendProps.thy ===== *)
theory SendProps
  imports SendRun
begin

text \<open>
  Every operation of the send side keeps its invariant, and what follows from it for flow control, for
  \<open>Write\<close> and for the parities a stream emits.
\<close>

section \<open>Preservation by the remaining operations\<close>

definition sinv :: "config \<Rightarrow> writeSide \<Rightarrow> bool" where
  "sinv c w \<longleftrightarrow> dinv c w \<and> finv c w"

definition cfg_ok :: "config \<Rightarrow> bool" where
  "cfg_ok c \<longleftrightarrow> config_ok c \<and> maxPayload c < 2 ^ 16"

lemma fecGroup_nonneg: "cfg_ok c \<Longrightarrow> fecGroup c = 0 \<or> 0 < fecGroup c"
  by (auto simp: cfg_ok_def config_ok_def)

lemma sinv_new: "cfg_ok c \<Longrightarrow> sinv c (newWriteSide i c (streamBufSize c))"
  using initialWindow_bounds(1) [of c]
  by (auto simp: sinv_def dinv_def finv_def pars_ok_def lanes_ok_def lanes_def sent_def newWriteSide_def
      lane_ok_zero zeroLane_def cfg_ok_def config_ok_def Let_def lane_ok_def byte_at_def)

lemma wround_finv_all:
  assumes "cfg_ok c" "dinv c w" "finv c w" "\<not> writeFIN w" "int (length d) \<le> dataCap c" "length (sent w) < 2 ^ 32"
  shows "finv c (wround c d w)"
proof (cases "fecGroup c = 0")
  case True
  have "parityFrames (xs @ [CallDataFrame i q d]) = parityFrames xs" for xs i q by (simp add: parityFrames_def)
  then show ?thesis using True assms(3)
    by (simp add: finv_def wround_def fecFoldLocked_def takeChunk_def wcall_def)
next
  case False
  then have "pars_ok c (wround c d w) \<and> lanes_ok c (wround c d w)"
    using assms fecGroup_nonneg [OF assms(1)] by (intro wround_finv) (auto simp: finv_def cfg_ok_def)
  then show ?thesis using False by (simp add: finv_def)
qed

lemma clear_run_sinv:
  assumes "cfg_ok (scfg e)" "clear_run e cs w" "sinv (scfg e) w" "length (sent w) + length cs \<le> 2 ^ 32"
  shows "sinv (scfg e) (rounds (scfg e) cs w)"
  using assms
proof (induction cs arbitrary: w)
  case (Cons d cs)
  have "dinv (scfg e) (wround (scfg e) d w)"
    using Cons.prems by (intro wround_dinv) (auto simp: sinv_def writeBlocked_def)
  moreover have "finv (scfg e) (wround (scfg e) d w)"
    using Cons.prems by (intro wround_finv_all) (auto simp: sinv_def)
  ultimately show ?case using Cons by (simp add: sinv_def wround_sent)
qed simp

text \<open>Operations that change neither the frames sent nor the lanes.\<close>

lemma sinv_upd [simp]:
  "sinv c (w\<lparr>ackedBytes := x\<rparr>) = sinv c w" "sinv c (w\<lparr>writeDeadline := z\<rparr>) = sinv c w"
  "sinv c (w\<lparr>writeErr := er\<rparr>) = sinv c w"
  by (simp_all add: sinv_def dinv_def finv_def pars_ok_def lanes_ok_def lanes_def sent_def)

lemma sinv_plain [simp]: "plain cl \<Longrightarrow> sinv c (wcall cl w) = sinv c w"
  by (simp add: sinv_def)

lemma finv_max [simp]: "finv c (w\<lparr>maxSendOffset := x\<rparr>) = finv c w"
  by (simp add: finv_def pars_ok_def lanes_ok_def lanes_def sent_def)

lemma finv_closed:
  assumes "finv c w" "writeFIN w'" "sent w' = sent w" "parityFrames (wcalls w') = parityFrames (wcalls w)"
    "fecGroup c = 0 \<Longrightarrow> fecLanes w' = [] \<and> lCount (fecRowLane w') = 0"
  shows "finv c w'"
  using assms by (auto simp: finv_def pars_ok_def split: if_splits)

lemma sinv_setMax: "sinv c w \<Longrightarrow> sinv c (setMaxSendOffset x w)"
proof -
  assume "sinv c w"
  then have "sinv c (w\<lparr>maxSendOffset := x\<rparr>)" if "maxSendOffset w < x"
    using that by (auto simp: sinv_def dinv_def sent_def)
  then show ?thesis using \<open>sinv c w\<close> by (simp add: setMaxSendOffset_def)
qed

lemma sinv_simple:
  "sinv c w \<Longrightarrow> sinv c (creditAcked n w)" "sinv c w \<Longrightarrow> sinv c (SetWriteDeadline z w)"
  by (simp_all add: creditAcked_def SetWriteDeadline_def)

lemma sinvD:
  assumes "sinv c w"
  shows "dinv c w" "finv c w" "fecGroup c = 0 \<Longrightarrow> fecLanes w = [] \<and> lCount (fecRowLane w) = 0"
  using assms by (simp_all add: sinv_def, simp add: finv_def)

lemma sinv_sticky: "sinv c w \<Longrightarrow> sinv c (stickyWrite er w)"
proof -
  assume s: "sinv c w"
  let ?w = "w\<lparr>writeErr := (if writeErr w = None then Some er else writeErr w), writeFIN := True\<rparr>"
  have "finv c ?w" by (rule finv_closed [OF sinvD(2) [OF s]]) (use sinvD(3) [OF s] in \<open>simp_all add: sent_def\<close>)
  moreover have "dinv c ?w" using s by (simp add: sinv_def dinv_def sent_def)
  ultimately show ?thesis by (simp add: stickyWrite_def sinv_def)
qed

lemma sinv_abort: "sinv c w \<Longrightarrow> sinv c (abortWriteLocked code r w)"
proof -
  assume s: "sinv c w"
  let ?w = "w\<lparr>writeErr := Some ErrStreamReset, writeFIN := True, fecLanes := [], fecRowLane := zeroLane\<rparr>"
  have "finv c ?w" by (rule finv_closed [OF sinvD(2) [OF s]]) (simp_all add: sent_def zeroLane_def)
  moreover have "dinv c ?w" using s by (simp add: sinv_def dinv_def sent_def)
  ultimately have "sinv c ?w" by (simp add: sinv_def)
  then show ?thesis using s by (simp add: abortWriteLocked_def Let_def)
qed

section \<open>Closing\<close>

definition laneParity :: "bool \<Rightarrow> fecLane \<Rightarrow> bool \<times> u32 \<times> nat \<times> nat \<times> bytes" where
  "laneParity row la = (row, lBase la, lCount la, unat (lLenXor la), take (lMaxLen la) (lXor la))"

lemma emitLane_calls:
  assumes "emitLaneLocked ft la w = (la', w')"
  shows "\<exists>xs. w' = w\<lparr>wcalls := wcalls w @ xs\<rparr> \<and> dataFrames xs = [] \<and>
    parityFrames xs = (if lCount la = 0 then [] else [laneParity (ft = frameFECRow) la])"
proof (cases "lCount la = 0")
  case True
  then show ?thesis using assms by (intro exI [of _ "[]"]) (auto simp: emitLaneLocked_def)
next
  case False
  then show ?thesis using assms
    by (auto simp: emitLaneLocked_def wcall_def dataFrames_def parity_one laneParity_def)
qed

lemma emitLanes_calls:
  "emitLanes las w = (las', w') \<Longrightarrow>
   \<exists>xs. w' = w\<lparr>wcalls := wcalls w @ xs\<rparr> \<and> dataFrames xs = [] \<and>
     parityFrames xs = map (laneParity False) (filter (\<lambda>la. lCount la \<noteq> 0) las)"
proof (induction las arbitrary: w las' w')
  case Nil
  then show ?case by (intro exI [of _ "[]"]) auto
next
  case (Cons la las)
  obtain la1 w1 where r1: "emitLaneLocked frameFEC la w = (la1, w1)" by fastforce
  obtain las2 w2 where r2: "emitLanes las w1 = (las2, w2)" by fastforce
  from emitLane_calls [OF r1] obtain xs where x: "w1 = w\<lparr>wcalls := wcalls w @ xs\<rparr>" "dataFrames xs = []"
    "parityFrames xs = (if lCount la = 0 then [] else [laneParity False la])" by (auto simp: frame_type_defs)
  from Cons.IH [OF r2] obtain ys where y: "w2 = w1\<lparr>wcalls := wcalls w1 @ ys\<rparr>" "dataFrames ys = []"
    "parityFrames ys = map (laneParity False) (filter (\<lambda>la. lCount la \<noteq> 0) las)" by auto
  have "w' = w2" using Cons.prems r1 r2 by (simp add: Let_def)
  then show ?case using x y by (intro exI [of _ "xs @ ys"]) simp
qed

lemma sinv_close:
  assumes c: "cfg_ok c" and s: "sinv c w"
  shows "sinv c (snd (CloseWrite e w))"
proof (cases "writeFIN w \<or> writeErr w \<noteq> None")
  case True
  then show ?thesis using s by (simp add: CloseWrite_def)
next
  case False
  let ?w1 = "w\<lparr>writeFIN := True\<rparr>" and ?g = "nat (fecGroup c)"
  obtain las w2 where r1: "emitLanes (fecLanes ?w1) ?w1 = (las, w2)" by fastforce
  obtain rl w3 where r2: "emitLaneLocked frameFECRow (fecRowLane w2) (w2\<lparr>fecLanes := las\<rparr>) = (rl, w3)" by fastforce
  from emitLanes_calls [OF r1] obtain xs where x: "w2 = ?w1\<lparr>wcalls := wcalls w @ xs\<rparr>" "dataFrames xs = []"
    "parityFrames xs = map (laneParity False) (filter (\<lambda>la. lCount la \<noteq> 0) (fecLanes w))" by auto
  from emitLane_calls [OF r2] obtain ys where y: "w3 = w2\<lparr>fecLanes := las, wcalls := wcalls w2 @ ys\<rparr>" "dataFrames ys = []"
    "parityFrames ys = (if lCount (fecRowLane w) = 0 then [] else [laneParity True (fecRowLane w)])"
    using x(1) by auto
  let ?w4 = "w3\<lparr>fecRowLane := rl\<rparr>"
  have cl: "sinv c (snd (CloseWrite e w)) = sinv c ?w4"
    using False r1 r2 by (simp add: CloseWrite_def Let_def)
  have f: "dataFrames (wcalls ?w4) = dataFrames (wcalls w)" "sent ?w4 = sent w"
    "parityFrames (wcalls ?w4) = parityFrames (wcalls w) @ parityFrames xs @ parityFrames ys" "writeFIN ?w4"
    using x y by (simp_all add: sent_def)
  have "dinv c ?w4" using s x y f by (simp add: sinv_def dinv_def)
  moreover have "finv c ?w4"
  proof (cases "fecGroup c = 0")
    case True
    then have z: "fecLanes w = []" "lCount (fecRowLane w) = 0" "parityFrames (wcalls w) = []"
      using s by (auto simp: sinv_def finv_def)
    then have "las = []" using r1 by simp
    moreover have "rl = fecRowLane w" using r2 z x(1) by (simp add: emitLaneLocked_def)
    ultimately show ?thesis using True z x y f by (simp add: finv_def)
  next
    case nz: False
    then have p: "pars_ok c w" and l: "lanes_ok c w" using s False by (auto simp: sinv_def finv_def)
    have col: "genuine ?g (sent w) ?g (unat (lBase la)) (lCount la) (unat (lLenXor la)) (take (lMaxLen la) (lXor la))"
      if la: "la \<in> set (fecLanes w)" "lCount la \<noteq> 0" for la
    proof -
      have "fecLanes w \<noteq> []" using la by auto
      then have eq: "lanes c w = fecLanes w" by (simp add: lanes_def)
      have lo: "length (fecLanes w) = ?g" "\<forall>r<?g. lane_ok (nat (dataCap c)) ?g (sent w) ?g r (fecLanes w ! r)"
        using l [unfolded lanes_ok_def Let_def eq] by blast+
      obtain r where "r < length (fecLanes w)" "fecLanes w ! r = la" using la(1) unfolding in_set_conv_nth by blast
      then have "lane_ok (nat (dataCap c)) ?g (sent w) ?g r la" using lo by auto
      from emitLane_genuine [OF this la(2)] show ?thesis .
    qed
    have row: "genuine ?g (sent w) 1 (unat (lBase la)) (lCount la) (unat (lLenXor la)) (take (lMaxLen la) (lXor la))"
      if "la = fecRowLane w" "lCount la \<noteq> 0" for la
      using l that emitLane_genuine by (auto simp: lanes_ok_def Let_def split: if_splits)
    have st: "stride_of c False = ?g" "stride_of c True = 1" by (simp_all add: stride_of_def)
    have "pars_ok c ?w4"
      unfolding pars_ok_def f x(3) y(3) using p col row f(4)
      by (auto simp: pars_ok_def laneParity_def st split: if_splits)
    then show ?thesis using nz f(4) by (simp add: finv_def)
  qed
  ultimately show ?thesis unfolding cl by (simp add: sinv_def)
qed

section \<open>Runs of the send side\<close>

text \<open>
  Any sequence of operations on a write side, whatever the results of the calls into the connection and
  whichever window updates and acknowledgements arrive.
\<close>

inductive sendReach :: "config \<Rightarrow> writeSide \<Rightarrow> bool" for c where
  start: "sendReach c (newWriteSide i c (streamBufSize c))"
| wrote: "sendReach c w \<Longrightarrow> scfg e = c \<Longrightarrow> Write e p n w = Some (out, w') \<Longrightarrow> sendReach c w'"
| window: "sendReach c w \<Longrightarrow> sendReach c (setMaxSendOffset x w)"
| credit: "sendReach c w \<Longrightarrow> sendReach c (creditAcked n w)"
| fin: "sendReach c w \<Longrightarrow> sendReach c (snd (CloseWrite e w))"
| abort: "sendReach c w \<Longrightarrow> sendReach c (abortWriteLocked code r w)"
| sticky: "sendReach c w \<Longrightarrow> sendReach c (stickyWrite er w)"
| deadline: "sendReach c w \<Longrightarrow> sendReach c (SetWriteDeadline z w)"

lemma takeChunk_dinv:
  assumes "dinv c w" "d \<noteq> []" "int (length d) \<le> dataCap c" "int (length d) \<le> maxSendOffset w - sentOffset w"
  shows "dinv c (takeChunk d w)"
proof -
  have "dataFrames (wcalls (takeChunk d w)) = dataFrames (wcalls w) @ [(writeSeq w, d)]"
    by (simp add: takeChunk_def wcall_def) (simp add: dataFrames_def)
  then show ?thesis using assms by (auto simp: dinv_def sent_def takeChunk_def wcall_def)
qed

lemma nextChunk_ok: "0 < dataCap c \<Longrightarrow> p \<noteq> [] \<Longrightarrow> nextChunk c p \<noteq> [] \<and> int (length (nextChunk c p)) \<le> dataCap c"
  by (auto simp: nextChunk_def min_def)

lemma Write_dinv:
  assumes "0 < dataCap (scfg e)" "dinv (scfg e) w" "Write e p n w = Some (out, w')"
  shows "dinv (scfg e) w'"
proof -
  from Write_ends [OF assms(1), of p n w] assms(3) obtain cs rest where
    r: "clear_run e cs w" "writeEnd e rest (n + length (concat cs)) (rounds (scfg e) cs w) out w'" by auto
  let ?w = "rounds (scfg e) cs w"
  have d: "dinv (scfg e) ?w" by (rule clear_run_dinv [OF r(1) assms(2)])
  have "dinv (scfg e) (takeChunk (nextChunk (scfg e) rest) ?w)"
    if "rest \<noteq> []" "\<not> writeBlocked e (length (nextChunk (scfg e) rest)) ?w" "writeErr ?w = None" "\<not> writeFIN ?w"
    using that d nextChunk_ok [OF assms(1) that(1)] by (intro takeChunk_dinv) (auto simp: writeBlocked_def)
  then show ?thesis using r(2) d by (auto simp: writeEnd_def split: if_splits)
qed

lemma emit_dinv:
  assumes "dinv c w"
  shows "dinv c (snd (CloseWrite e w))"
proof (cases "writeFIN w \<or> writeErr w \<noteq> None")
  case False
  let ?w1 = "w\<lparr>writeFIN := True\<rparr>"
  obtain las w2 where r1: "emitLanes (fecLanes ?w1) ?w1 = (las, w2)" by fastforce
  obtain rl w3 where r2: "emitLaneLocked frameFECRow (fecRowLane w2) (w2\<lparr>fecLanes := las\<rparr>) = (rl, w3)" by fastforce
  from emitLanes_calls [OF r1] obtain xs where x: "w2 = ?w1\<lparr>wcalls := wcalls w @ xs\<rparr>" "dataFrames xs = []" by auto
  from emitLane_calls [OF r2] obtain ys where y: "w3 = w2\<lparr>fecLanes := las, wcalls := wcalls w2 @ ys\<rparr>" "dataFrames ys = []"
    by auto
  have "dinv c (snd (CloseWrite e w)) = dinv c (w3\<lparr>fecRowLane := rl\<rparr>)"
    using False r1 r2 by (simp add: CloseWrite_def Let_def)
  then show ?thesis using assms x y by (simp add: dinv_def sent_def)
qed (use assms in \<open>simp add: CloseWrite_def\<close>)

lemma dinv_upd:
  "dinv c (w\<lparr>ackedBytes := x\<rparr>) = dinv c w" "dinv c (w\<lparr>writeDeadline := z\<rparr>) = dinv c w"
  "dinv c (w\<lparr>writeErr := er, writeFIN := b\<rparr>) = dinv c w"
  by (simp_all add: dinv_def sent_def)

lemma sendReach_dinv: "sendReach c w \<Longrightarrow> config_ok c \<Longrightarrow> dinv c w"
proof (induction rule: sendReach.induct)
  case (start i)
  then show ?case using initialWindow_bounds(1) [of c]
    by (auto simp: dinv_def sent_def newWriteSide_def config_ok_def)
next
  case (wrote w e p n out w')
  then show ?case using Write_dinv [of e w p n out w'] config_ok_dataCap [of c] by auto
next
  case (window w x)
  then have "maxSendOffset w < x \<Longrightarrow> dinv c (w\<lparr>maxSendOffset := x\<rparr>)" by (auto simp: dinv_def sent_def)
  then show ?case using window by (simp add: setMaxSendOffset_def)
next
  case (fin w e)
  then show ?case by (simp add: emit_dinv)
next
  case (abort w code r)
  then have "dinv c (w\<lparr>writeErr := Some ErrStreamReset, writeFIN := True, fecLanes := [], fecRowLane := zeroLane\<rparr>)"
    by (simp add: dinv_def sent_def)
  then show ?case using abort by (simp add: abortWriteLocked_def Let_def)
qed (simp_all add: creditAcked_def stickyWrite_def SetWriteDeadline_def dinv_upd)

text \<open>C23 (safety). The sender respects flow control: whatever the application and the network do, the DATA
  frames of a stream carry consecutive sequence numbers from 0, each holds between 1 and \<open>dataCap\<close>
  bytes, and their total size never exceeds the offset the peer has granted.\<close>

theorem send_window_respected:
  assumes "config_ok c" and "sendReach c w"
  shows "map fst (dataFrames (wcalls w)) = map of_nat [0..<length (sent w)] \<and>
    (\<forall>d \<in> set (sent w). d \<noteq> [] \<and> int (length d) \<le> dataCap c) \<and>
    int (length (concat (sent w))) \<le> maxSendOffset w"
  using sendReach_dinv [OF assms(2,1)] by (auto simp: dinv_def)

definition demoSendCfg :: config where
  "demoSendCfg = defaultConfig\<lparr>streamBufSize := 64, maxPayload := 12, fecGroup := 2\<rparr>"

definition demoSendEnv :: sendEnv where
  "demoSendEnv = \<lparr>scfg = demoSendCfg, snow = 5, sconnCap = 64, sdata = (\<lambda>_. None), sflush = None, sreliable = None\<rparr>"

definition demoWriter :: writeSide where
  "demoWriter = newWriteSide 1 demoSendCfg (streamBufSize demoSendCfg)"

lemma demo_config: "config_ok demoSendCfg" "dataCap demoSendCfg = 8" "maxBufSize demoSendCfg = 64" "fecGroup demoSendCfg = 2"
  "fec2D demoSendCfg = False"
  by (simp_all add: config_ok_def demoSendCfg_def defaultConfig_def default_defs defaultMaxPayloadSize_def duration_units
      dataCap_def fecMetaLen_def maxBufSize_def)

lemma demo_writer: "maxSendOffset demoWriter = 64" "sentOffset demoWriter = 0" "ackedBytes demoWriter = 0" "writeErr demoWriter = None"
  "writeFIN demoWriter = False" "wcalls demoWriter = []" "fecLanes demoWriter = []" "writeSeq demoWriter = 0" "wid demoWriter = 1"
  "writeDeadline demoWriter = 0"
  by (simp_all add: demoWriter_def newWriteSide_def initialWindow_def initialStreamWindow_def demoSendCfg_def defaultConfig_def)

lemma demo_write:
  "\<exists>w'. Write demoSendEnv [1, 2, 3] 0 demoWriter = Some (WReturns 3 None, w') \<and> sent w' = [[1, 2, 3]] \<and> maxSendOffset w' = 64"
proof -
  let ?c = demoSendCfg and ?w1 = "wround demoSendCfg [1, 2, 3] demoWriter"
  have "\<not> writeBlocked demoSendEnv 3 demoWriter"
    by (simp add: writeBlocked_def demo_writer bytesInFlightLocked_def streamInFlightCap_def demoSendEnv_def demo_config)
  then have "Write demoSendEnv [1, 2, 3] 0 demoWriter = Write demoSendEnv [] 3 ?w1"
    by (subst Write.simps) (simp add: demo_writer wround_def demoSendEnv_def demo_config numeral_3_eq_3 min_def Let_def)
  then have "Write demoSendEnv [1, 2, 3] 0 demoWriter = Some (WReturns 3 None, wcall CallFlushSend ?w1)"
    using Write.simps [of demoSendEnv "[]" 3 ?w1] by (simp add: demoSendEnv_def)
  moreover have "sent demoWriter = []" by (simp add: sent_def demo_writer)
  moreover have "maxSendOffset (wcall CallFlushSend ?w1) = 64" by (simp add: wcall_def) (simp add: demo_writer)
  ultimately show ?thesis by (auto simp: wround_sent)
qed

theorem send_window_respected_witness:
  "\<exists>w'. Write demoSendEnv [1, 2, 3] 0 demoWriter = Some (WReturns 3 None, w') \<and>
     int (length (concat (sent w'))) \<le> maxSendOffset w' \<and> sent w' \<noteq> []"
proof -
  obtain w' where w: "Write demoSendEnv [1, 2, 3] 0 demoWriter = Some (WReturns 3 None, w')" "sent w' = [[1, 2, 3]]"
    using demo_write by blast
  have "sendReach demoSendCfg w'"
    using sendReach.wrote [OF sendReach.start [of demoSendCfg 1] _ w(1) [unfolded demoWriter_def]]
    by (simp add: demoSendEnv_def)
  from send_window_respected [OF demo_config(1) this] show ?thesis using w by auto
qed



text \<open>C25 (error). A closed write side says why. After \<open>CloseWrite\<close> a further \<open>Write\<close> returns ErrStreamFIN, after
  \<open>CancelWrite\<close> (or STOP_SENDING) ErrStreamReset, after connection teardown ErrStreamClosed, each with
  no byte written and no DATA frame sent; closing or cancelling again does nothing.\<close>

theorem closed_write_errors:
  assumes "writeErr w = None" and "\<not> writeFIN w" and "p \<noteq> []"
  shows "(let w1 = snd (CloseWrite e w) in
      Write e p 0 w1 = Some (WReturns 0 (Some ErrStreamFIN), wcall CallFlushSend w1) \<and>
      CloseWrite e w1 = (None, w1) \<and> CancelWrite code w1 = w1) \<and>
    (let w2 = CancelWrite code w in
      Write e p 0 w2 = Some (WReturns 0 (Some ErrStreamReset), wcall CallFlushSend w2) \<and>
      CloseWrite e w2 = (None, w2) \<and> CancelWrite code w2 = w2) \<and>
    (let w3 = stickyWrite ErrStreamClosed w in
      Write e p 0 w3 = Some (WReturns 0 (Some ErrStreamClosed), wcall CallFlushSend w3))"
proof -
  have emit: "writeErr (snd (emitLaneLocked ft la v)) = writeErr v \<and> writeFIN (snd (emitLaneLocked ft la v)) = writeFIN v" for ft la v
    by (simp add: emitLaneLocked_def wcall_def)
  have emits: "writeErr (snd (emitLanes las v)) = writeErr v \<and> writeFIN (snd (emitLanes las v)) = writeFIN v" for las v
    by (induction las arbitrary: v) (auto simp: emit split_beta Let_def)
  have c: "writeErr (snd (CloseWrite e w)) = None" "writeFIN (snd (CloseWrite e w))"
    using assms emit emits [of "fecLanes w" "w\<lparr>writeFIN := True\<rparr>"]
    by (simp_all add: CloseWrite_def split_beta Let_def wcall_def)
  have k: "writeErr (CancelWrite code w) = Some ErrStreamReset" "writeFIN (CancelWrite code w)"
    "writeErr (stickyWrite ErrStreamClosed w) = Some ErrStreamClosed"
    using assms by (simp_all add: CancelWrite_def abortWriteLocked_def stickyWrite_def wcall_def Let_def)
  have wr: "Write e p 0 v = Some (WReturns 0 (writeErr v), wcall CallFlushSend v)" if "writeErr v \<noteq> None" for v
    using that assms(3) by (subst Write.simps) (simp add: writeBlocked_def Let_def)
  have wf: "Write e p 0 v = Some (WReturns 0 (Some ErrStreamFIN), wcall CallFlushSend v)" if "writeErr v = None" "writeFIN v" for v
    using that assms(3) by (subst Write.simps) (simp add: writeBlocked_def Let_def)
  have cw: "CloseWrite e v = (None, v)" "CancelWrite code v = v" if "writeFIN v" for v
    using that by (simp_all add: CloseWrite_def CancelWrite_def abortWriteLocked_def)
  show ?thesis unfolding Let_def
    using wf [OF c] cw [OF c(2)] wr [of "CancelWrite code w"] wr [of "stickyWrite ErrStreamClosed w"] cw [OF k(2)] k by simp
qed

theorem closed_write_errors_witness:
  "let w2 = CancelWrite 9 demoWriter in
     Write demoSendEnv [1, 2, 3] 0 w2 = Some (WReturns 0 (Some ErrStreamReset), wcall CallFlushSend w2)"
  using closed_write_errors [of demoWriter "[1, 2, 3]" demoSendEnv 9] by (simp add: demo_writer Let_def)

end
