(* ===== verification/RecvGrants.thy ===== *)
theory RecvGrants
  imports RecvRun
begin

text \<open>
  What a read side tells its connection. The locale \<open>observer\<close> is the interface: a preorder on read sides that
  only looks at the stream ID, the granted offset and the recorded calls, and that tolerates the calls a read side makes. Every
  operation of the read side then moves along the preorder. It is interpreted twice: \<open>adv\<close> (announced credit never
  exceeds granted credit) and \<open>owns\<close> (a read side only makes calls about its own stream).
\<close>

section \<open>The interface\<close>

text \<open>The calls other than window updates.\<close>

definition sideCall :: "u32 \<Rightarrow> connCall \<Rightarrow> bool" where
  "sideCall i call =
     (case call of
        CallNackFrames j l \<Rightarrow> j = i
      | CallControlFrame ft j q \<Rightarrow> j = i \<and> ft = frameStopSending
      | CallStatReorder \<Rightarrow> True
      | CallStatFecRecovered \<Rightarrow> True
      | CallReadBroadcast \<Rightarrow> True
      | _ \<Rightarrow> False)"

lemma rid_rcall [simp]: "rid (rcall call t) = rid t"
  by (simp add: rcall_def)

definition stays :: "(readSide \<Rightarrow> u32 \<Rightarrow> bytes \<Rightarrow> readSide) \<Rightarrow> readSide \<Rightarrow> 'u \<times> readSide \<Rightarrow> bool" where
  "stays dlv t r \<longleftrightarrow> snd r = t \<or> (\<exists>sq d. snd r = dlv t sq d)"

lemma stays_same: "stays dlv t (u, t)"
  and stays_dlv: "stays dlv t (u, dlv t sq d)"
  and stays_if: "stays dlv t r \<Longrightarrow> stays dlv t r' \<Longrightarrow> stays dlv t (if b then r else r')"
  and stays_option: "stays dlv t r \<Longrightarrow> (\<And>y. stays dlv t (f y)) \<Longrightarrow> stays dlv t (case x of None \<Rightarrow> r | Some y \<Rightarrow> f y)"
  and stays_sum: "(\<And>y. stays dlv t (g y)) \<Longrightarrow> (\<And>z. stays dlv t (h z)) \<Longrightarrow> stays dlv t (case v of Inl y \<Rightarrow> g y | Inr z \<Rightarrow> h z)"
  and stays_prod: "(\<And>y z. stays dlv t (k y z)) \<Longrightarrow> stays dlv t (case p of (y, z) \<Rightarrow> k y z)"
  by (auto simp: stays_def split: option.split sum.split prod.split)

lemma reconstruct_result: "stays dlv t (tryReconstructLocked e dlv row base k xl xd t)"
  unfolding tryReconstructLocked_def Let_def
  by (intro stays_same stays_dlv stays_if stays_option stays_sum stays_prod)

locale observer =
  fixes R :: "readSide \<Rightarrow> readSide \<Rightarrow> bool"
  assumes trans: "R s t \<Longrightarrow> R t u \<Longrightarrow> R s u"
    and same: "rid t' = rid t \<Longrightarrow> peerOffset t' = peerOffset t \<Longrightarrow> rcalls t' = rcalls t \<Longrightarrow> R t t'"
    and side: "sideCall (rid t) call \<Longrightarrow> R t (rcall call t)"
    and grantLocked: "R t (grantLocked d t)"
begin

lemma refl [simp]: "R s s"
  by (simp add: same)

lemma same_iff: "rid t' = rid t \<Longrightarrow> peerOffset t' = peerOffset t \<Longrightarrow> rcalls t' = rcalls t \<Longrightarrow> R s t' = R s t"
  using trans same [of t' t] same [of t t'] by metis

lemma upd [simp]:
  "R s (t\<lparr>rring := r\<rparr>) = R s t" "R s (t\<lparr>reorder := m\<rparr>) = R s t" "R s (t\<lparr>reorderBytes := z\<rparr>) = R s t"
  "R s (t\<lparr>readSeq := q\<rparr>) = R s t" "R s (t\<lparr>ackPendingSeqs := l\<rparr>) = R s t" "R s (t\<lparr>ackReplaySeqs := l\<rparr>) = R s t"
  "R s (t\<lparr>finRecvd := b\<rparr>) = R s t" "R s (t\<lparr>finSeq := q\<rparr>) = R s t" "R s (t\<lparr>readErr := er\<rparr>) = R s t"
  "R s (t\<lparr>readCanceled := b\<rparr>) = R s t" "R s (t\<lparr>grantPending := z\<rparr>) = R s t" "R s (t\<lparr>gapSeq := q\<rparr>) = R s t"
  "R s (t\<lparr>gapFirstSeenAt := z\<rparr>) = R s t" "R s (t\<lparr>lastNackAt := z\<rparr>) = R s t" "R s (t\<lparr>lastArrivalAt := z\<rparr>) = R s t"
  "R s (t\<lparr>maxSeenSeq := q\<rparr>) = R s t" "R s (t\<lparr>lastGrowAt := z\<rparr>) = R s t" "R s (t\<lparr>fecAcc := ac\<rparr>) = R s t"
  "R s (t\<lparr>fecAccRow := ac\<rparr>) = R s t" "R s (t\<lparr>fecPending := pe\<rparr>) = R s t" "R s (t\<lparr>fecPendingRow := pe\<rparr>) = R s t"
  "R s (t\<lparr>readDeadline := z\<rparr>) = R s t"
  by (rule same_iff; simp)+

lemma call [simp]: "R s t \<Longrightarrow> sideCall (rid t) call \<Longrightarrow> R s (rcall call t)"
  using trans side by blast

lemma grant: "R s t \<Longrightarrow> R s (grantLocked d t)"
  using trans grantLocked by blast

lemma fitOrGrow: "R s t \<Longrightarrow> R s (snd (fitOrGrow e n t))"
  by (simp add: fitOrGrow_def growLocked_def grant Let_def)

lemma maybeGrow: "R s t \<Longrightarrow> R s (maybeGrowLocked e t)"
  by (simp add: maybeGrowLocked_def grant Let_def)

lemma foldRecv [simp]: "R s (fecFoldRecvLocked e sq d t) = R s t"
  by (simp add: fecFoldRecvLocked_def fecSweepLocked_def Let_def split: prod.splits)

lemma eof: "R s t \<Longrightarrow> R s (maybeEOFLocked t)"
  by (simp add: maybeEOFLocked_def sideCall_def)

lemma drainOne: "R s t \<Longrightarrow> R s (drainOne e d t)"
  by (simp add: drainOne_def Let_def sideCall_def)

lemma drain: "R s t \<Longrightarrow> R s (drainReorderLocked e t)"
proof (induction e t rule: drainReorderLocked.induct)
  case (1 e t)
  show ?case
  proof (cases "mget (reorder t) (readSeq t)")
    case None
    then show ?thesis using 1 by (simp add: drainReorderLocked.simps [of e t])
  next
    case (Some d)
    obtain f t1 where f: "fitOrGrow e (length d) t = (f, t1)" by fastforce
    then have "R s t1" using fitOrGrow [OF 1(2), of e "length d"] by simp
    then show ?thesis using 1(1) [OF Some f [symmetric]] Some f drainOne by (simp add: drainReorderLocked.simps [of e t])
  qed
qed

lemma nack: "R s t \<Longrightarrow> R s (fireNackLocked t)"
  by (simp add: fireNackLocked_def Let_def sideCall_def)

lemma fast: "R s t \<Longrightarrow> R s (maybeFastRetransmitLocked e t)"
  by (simp add: maybeFastRetransmitLocked_def Let_def nack)

lemma tail: "R s t \<Longrightarrow> R s (maybeTailNack e t)"
  by (simp add: maybeTailNack_def Let_def nack)

lemma deliverWith:
  assumes retry: "\<And>sq s t. R s t \<Longrightarrow> R s (retry sq t)" and t: "R s t"
  shows "R s (snd (deliverWith e retry t sq pl f))"
proof -
  have m: "R s (markArrival e t)" using t by (simp add: markArrival_def)
  have disc: "R s (discardDelivery sq pl u)" if "R s u" for u
    using that grant [OF that] by (simp add: discardDelivery_def Let_def)
  have ahead: "R s (snd (bufferAhead e retry sq pl u))" if "R s u" for u
    using that by (simp add: bufferAhead_def Let_def retry fast sideCall_def)
  have "R s (snd (acceptNext e retry sq pl u))" if u: "R s u" for u
  proof -
    obtain fits u1 where f: "fitOrGrow e (length pl) u = (fits, u1)" by fastforce
    then have "R s u1" using fitOrGrow [OF u, of e "length pl"] by simp
    then show ?thesis
      by (auto simp: acceptNext_def f Let_def sideCall_def intro!: retry call eof maybeGrow drain)
  qed
  then have "R s (snd (deliverData e retry sq pl u))" if "R s u" for u
  proof -
    have "R s (noteSeen sq u)" using that by (simp add: noteSeen_def)
    then show ?thesis using ahead [of "noteSeen sq u"] \<open>\<And>u. R s u \<Longrightarrow> R s (snd (acceptNext e retry sq pl u))\<close>
      by (simp add: deliverData_def Let_def)
  qed
  then have "R s (snd (deliverBody e retry t sq pl f))"
    using m disc [OF m] by (simp add: deliverBody_def Let_def eof)
  then show ?thesis by (cases f) (simp_all add: deliverWith_def split_beta Let_def)
qed

lemma reconstruct:
  assumes "\<And>sq d. R s (dlv t sq d)" "R s t"
  shows "R s (snd (tryReconstructLocked e dlv row base k xl xd t))"
  using reconstruct_result [of dlv t e row base k xl xd] assms by (auto simp: stays_def)

lemma setPending [simp]: "R s (setPending row m t) = R s t"
  by (simp add: setPending_def)

lemma retryBase: "R s t \<Longrightarrow> R s (fecRetryBaseLocked e k row base t)"
proof (induction k arbitrary: s t row base)
  case (Suc k)
  show ?case
  proof (cases "mget (pendingOf row t) base")
    case (Some p)
    let ?t1 = "setPending row (mdel base (pendingOf row t)) t"
    let ?dlv = "\<lambda>s sq d. snd (deliverWith e (fecRetrySeqLocked e (fecRetryBaseLocked e k)) s sq d False)"
    have "R s' (fecRetrySeqLocked e (fecRetryBaseLocked e k) sq t')" if "R s' t'" for sq s' t'
      using that by (simp add: fecRetrySeqLocked_def Let_def Suc.IH)
    then have "R s (?dlv ?t1 sq d)" for sq d
      using Suc.prems by (intro deliverWith) simp_all
    then have "R s (snd (tryReconstructLocked e ?dlv row base (pCount p) (pXorLen p) (pData p) ?t1))"
      using Suc.prems by (intro reconstruct) simp_all
    then show ?thesis using Some by (auto simp: Let_def sideCall_def split: prod.split fecOutcome.split)
  qed (use Suc.prems in simp)
qed simp

lemma deliver: "R s (snd (deliverLocked e s sq pl f))"
proof -
  have "R s' (fecRetrySeqLocked e (fecRetryBaseLocked e k) sq t')" if "R s' t'" for sq s' t' k
    using that by (simp add: fecRetrySeqLocked_def Let_def retryBase)
  then show ?thesis unfolding deliverLocked_def by (intro deliverWith) simp_all
qed

lemma applyFec: "R s (snd (applyFec e row base k xl xd s))"
proof -
  have "R s (snd (tryReconstructLocked e (\<lambda>s sq d. snd (deliverLocked e s sq d False)) row base k xl xd s))"
    by (intro reconstruct deliver) simp
  then show ?thesis by (auto simp: applyFec_def Let_def split: prod.split fecOutcome.split)
qed

lemma Read: "Read e want s = (r, s') \<Longrightarrow> R s s'"
  by (auto simp: Read_def returnCredit_def Let_def split: if_splits option.splits prod.splits
      intro!: grant eof drain)

lemma others [simp]:
  "R s (snd (ackSnapshot s))" "R s (SetReadDeadline z s)" "R s (CancelRead code s)"
  "R s (deliverReset code s)" "R s (stickyRead er s)"
  by (simp_all add: ackSnapshot_def SetReadDeadline_def CancelRead_def deliverReset_def stickyRead_def
      discardReadStateLocked_def Let_def sideCall_def)

end

section \<open>Announced credit\<close>

text \<open>Every window update a read side sends carries an offset it has granted, so no announced offset is ever
  beyond \<open>peerOffset\<close>, which only grows.\<close>

definition grants :: "readSide \<Rightarrow> u64 set" where
  "grants s = {off. \<exists>i. CallWindowUpdate i off \<in> set (rcalls s)}"

definition adv :: "readSide \<Rightarrow> readSide \<Rightarrow> bool" where
  "adv s s' \<longleftrightarrow> peerOffset s \<le> peerOffset s' \<and>
     (\<forall>off \<in> grants s'. off \<in> grants s \<or> (\<exists>x. off = u64_of_int64 x \<and> peerOffset s \<le> x \<and> x \<le> peerOffset s'))"

interpretation credit: observer adv
proof
  fix s t u t' :: readSide and call d
  show "adv s t \<Longrightarrow> adv t u \<Longrightarrow> adv s u" unfolding adv_def by (meson order_trans)
  show "rid t' = rid t \<Longrightarrow> peerOffset t' = peerOffset t \<Longrightarrow> rcalls t' = rcalls t \<Longrightarrow> adv t t'"
    by (simp add: adv_def grants_def)
  show "sideCall (rid t) call \<Longrightarrow> adv t (rcall call t)"
    by (auto simp: adv_def grants_def rcall_def sideCall_def)
  show "adv t (grantLocked d t)"
    by (auto simp: adv_def grants_def grantLocked_def rcall_def Let_def)
qed

section \<open>Calls about the own stream\<close>

definition readCall :: "u32 \<Rightarrow> connCall \<Rightarrow> bool" where
  "readCall i call \<longleftrightarrow> sideCall i call \<or> (\<exists>off. call = CallWindowUpdate i off)"

definition owns :: "readSide \<Rightarrow> readSide \<Rightarrow> bool" where
  "owns s s' \<longleftrightarrow> rid s' = rid s \<and> (\<exists>calls. rcalls s' = rcalls s @ calls \<and> list_all (readCall (rid s)) calls)"

interpretation own: observer owns
proof
  fix s t u t' :: readSide and call d
  show "owns s t \<Longrightarrow> owns t u \<Longrightarrow> owns s u" by (auto simp: owns_def)
  show "rid t' = rid t \<Longrightarrow> peerOffset t' = peerOffset t \<Longrightarrow> rcalls t' = rcalls t \<Longrightarrow> owns t t'" by (simp add: owns_def)
  show "sideCall (rid t) call \<Longrightarrow> owns t (rcall call t)" by (simp add: owns_def rcall_def readCall_def)
  show "owns t (grantLocked d t)" by (auto simp: owns_def grantLocked_def rcall_def readCall_def Let_def)
qed

end
