(* ===== verification/Session.thy ===== *)
theory Session
  imports SendProps RecvGrants RecvProps "HOL-Library.Sublist"
begin

text \<open>
  One direction of a stream from end to end: the write side of one endpoint, the read side of the other,
  and a network between them that delivers any frame that was sent, any number of times, in any order,
  or not at all. Window updates and acknowledgement snapshots travel back the same way. Both endpoints
  run the same configuration. Sends into the connection succeed (\<open>sdata e = (\<lambda>_. None)\<close>); a local send
  error in the middle of \<open>Write\<close> is outside the model of a session.

  \<open>sapp\<close> is what the sending application has handed to \<open>Write\<close> and \<open>Write\<close> has accepted so far, \<open>sout\<close> what
  the receiving application has read, \<open>spend\<close> the rest of a blocked \<open>Write\<close>, \<open>sann\<close> the offsets that
  acknowledgement snapshots have announced.
\<close>

record session =
  sw :: writeSide
  spend :: "(bytes \<times> nat) option"
  sapp :: bytes
  sann :: "int set"
  sph :: phase
  sout :: bytes
  sgot :: "nat set"
  srd :: readSide

text \<open>What a call of \<open>Write\<close> on \<open>p\<close>, with \<open>m\<close> bytes written before, leaves behind.\<close>

definition wrote :: "bytes \<Rightarrow> nat \<Rightarrow> writeOut \<Rightarrow> writeSide \<Rightarrow> session \<Rightarrow> session" where
  "wrote p m r w S =
     (case r of
        WReturns n er \<Rightarrow> S\<lparr>sw := w, spend := None, sapp := sapp S @ take (n - m) p\<rparr>
      | WWaits rest n \<Rightarrow> S\<lparr>sw := w, spend := Some (rest, n), sapp := sapp S @ take (n - m) p\<rparr>)"

inductive sessionReach :: "config \<Rightarrow> session \<Rightarrow> bool" for c where
  start: "sessionReach c \<lparr>sw = newWriteSide i c (streamBufSize c), spend = None, sapp = [], sann = {},
    sph = Live, sout = [], sgot = {}, srd = newReadSide j c (streamBufSize c) now\<rparr>"
| appWrite: "sessionReach c S \<Longrightarrow> spend S = None \<Longrightarrow> scfg e = c \<Longrightarrow> sdata e = (\<lambda>_. None) \<Longrightarrow>
    Write e p 0 (sw S) = Some (r, w') \<Longrightarrow> sessionReach c (wrote p 0 r w' S)"
| resume: "sessionReach c S \<Longrightarrow> spend S = Some (p, m) \<Longrightarrow> scfg e = c \<Longrightarrow> sdata e = (\<lambda>_. None) \<Longrightarrow>
    Write e p m (sw S) = Some (r, w') \<Longrightarrow> sessionReach c (wrote p m r w' S)"
| appClose: "sessionReach c S \<Longrightarrow> sessionReach c (S\<lparr>sw := snd (CloseWrite e (sw S))\<rparr>)"
| abort: "sessionReach c S \<Longrightarrow> sessionReach c (S\<lparr>sw := abortWriteLocked code b (sw S)\<rparr>)"
| teardown: "sessionReach c S \<Longrightarrow> sessionReach c (S\<lparr>sw := stickyWrite er (sw S)\<rparr>)"
| writeDeadline: "sessionReach c S \<Longrightarrow> sessionReach c (S\<lparr>sw := SetWriteDeadline z (sw S)\<rparr>)"
| credit: "sessionReach c S \<Longrightarrow> sessionReach c (S\<lparr>sw := creditAcked n (sw S)\<rparr>)"
| window: "sessionReach c S \<Longrightarrow> off \<in> grants (srd S) \<Longrightarrow>
    sessionReach c (S\<lparr>sw := setMaxSendOffset (int64_of_u64 off) (sw S)\<rparr>)"
| ackWindow: "sessionReach c S \<Longrightarrow> x \<in> sann S \<Longrightarrow> sessionReach c (S\<lparr>sw := setMaxSendOffset x (sw S)\<rparr>)"
| data: "sessionReach c S \<Longrightarrow> sph S \<noteq> Closed \<Longrightarrow> ecfg e = c \<Longrightarrow> (q, d) \<in> set (dataFrames (wcalls (sw S))) \<Longrightarrow>
    sessionReach c (S\<lparr>sgot := insert (unat q) (sgot S), srd := snd (deliverLocked e (srd S) q d False)\<rparr>)"
| fin: "sessionReach c S \<Longrightarrow> sph S \<noteq> Closed \<Longrightarrow> ecfg e = c \<Longrightarrow>
    CallReliableFrame frameStreamFIN i q d \<in> set (wcalls (sw S)) \<Longrightarrow>
    sessionReach c (S\<lparr>srd := snd (deliverLocked e (srd S) q [] True)\<rparr>)"
| parity: "sessionReach c S \<Longrightarrow> sph S \<noteq> Closed \<Longrightarrow> ecfg e = c \<Longrightarrow>
    (row, b, k, xl, xd) \<in> set (parityFrames (wcalls (sw S))) \<Longrightarrow>
    sessionReach c (S\<lparr>srd := snd (applyFec e row b k xl xd (srd S))\<rparr>)"
| reset: "sessionReach c S \<Longrightarrow> sph S \<noteq> Closed \<Longrightarrow> sessionReach c (S\<lparr>sph := Aborted, srd := deliverReset code (srd S)\<rparr>)"
| read: "sessionReach c S \<Longrightarrow> ecfg e = c \<Longrightarrow> Read e want (srd S) = (Returns (d, er), s') \<Longrightarrow>
    sessionReach c (S\<lparr>sout := sout S @ d, srd := s'\<rparr>)"
| tail: "sessionReach c S \<Longrightarrow> sessionReach c (S\<lparr>srd := maybeTailNack e (srd S)\<rparr>)"
| ack: "sessionReach c S \<Longrightarrow> ackSnapshot (srd S) = ((cum, seqs, granted), s') \<Longrightarrow>
    sessionReach c (S\<lparr>sann := insert granted (sann S), srd := s'\<rparr>)"
| readDeadline: "sessionReach c S \<Longrightarrow> sessionReach c (S\<lparr>srd := SetReadDeadline z (srd S)\<rparr>)"
| cancel: "sessionReach c S \<Longrightarrow> sessionReach c (S\<lparr>sph := Aborted, srd := CancelRead code (srd S)\<rparr>)"
| close: "sessionReach c S \<Longrightarrow>
    sessionReach c (S\<lparr>sph := (if sph S = Aborted then Aborted else Closed), srd := stickyRead ErrStreamClosed (srd S)\<rparr>)"

section \<open>The invariant\<close>

text \<open>The lists of chunks the session may still grow to.\<close>

definition final :: "config \<Rightarrow> session \<Rightarrow> bytes list \<Rightarrow> bool" where
  "final c S cs \<longleftrightarrow> chunks_ok c cs \<and> prefix (sent (sw S)) cs \<and> (writeFIN (sw S) \<longrightarrow> cs = sent (sw S))"

definition fins_ok :: "writeSide \<Rightarrow> bool" where
  "fins_ok w \<longleftrightarrow> (\<forall>i q d. CallReliableFrame frameStreamFIN i q d \<in> set (wcalls w) \<longrightarrow>
     writeFIN w \<and> q = of_nat (length (sent w)))"

definition credit_ok :: "session \<Rightarrow> bool" where
  "credit_ok S \<longleftrightarrow> 0 \<le> peerOffset (srd S) \<and> maxSendOffset (sw S) \<le> peerOffset (srd S) \<and>
     (\<forall>x \<in> sann S. x \<le> peerOffset (srd S)) \<and> (\<forall>off \<in> grants (srd S). int64_of_u64 off \<le> peerOffset (srd S))"

definition recv_ok :: "config \<Rightarrow> session \<Rightarrow> bool" where
  "recv_ok c S \<longleftrightarrow> (\<forall>cs. final c S cs \<longrightarrow>
     recvReach True c cs (sph S) (length (sent (sw S))) (sout S) (sgot S) (srd S))"

definition sok :: "config \<Rightarrow> session \<Rightarrow> bool" where
  "sok c S \<longleftrightarrow> sinv c (sw S) \<and> fins_ok (sw S) \<and> sapp S = concat (sent (sw S)) \<and> credit_ok S \<and> recv_ok c S"

text \<open>A change of the read side that keeps the sender's frames.\<close>

lemma int64_le: "0 \<le> x \<Longrightarrow> int64_of_u64 (u64_of_int64 x) \<le> x"
  by (simp add: int64_of_u64_def u64_of_int64_def signed_of_int signed_take_bit_int_less_eq_self_iff)

lemma credit_recv:
  assumes "credit_ok S" "adv (srd S) s'" "\<forall>x \<in> A. x \<in> sann S \<or> x \<le> peerOffset s'"
  shows "credit_ok (S\<lparr>srd := s', sann := A, sgot := g, sout := out, sph := ph\<rparr>)"
proof -
  have p: "0 \<le> peerOffset (srd S)" "peerOffset (srd S) \<le> peerOffset s'" using assms by (auto simp: credit_ok_def adv_def)
  have "int64_of_u64 off \<le> peerOffset s'" if off: "off \<in> grants s'" for off
  proof (cases "off \<in> grants (srd S)")
    case True
    then show ?thesis using assms(1) p(2) by (force simp: credit_ok_def)
  next
    case False
    then obtain x where "off = u64_of_int64 x" "peerOffset (srd S) \<le> x" "x \<le> peerOffset s'"
      using assms(2) off by (auto simp: adv_def)
    then show ?thesis using int64_le [of x] p(1) by simp
  qed
  then show ?thesis using assms p by (force simp: credit_ok_def)
qed

lemma recv_step:
  assumes ok: "sok c S" and "adv (srd S) s'" and "\<forall>x \<in> A. x \<in> sann S \<or> x \<le> peerOffset s'"
    and step: "\<And>cs. final c S cs \<Longrightarrow>
      recvReach True c cs (sph S) (length (sent (sw S))) (sout S) (sgot S) (srd S) \<Longrightarrow>
      recvReach True c cs ph (length (sent (sw S))) out g s'"
  shows "sok c (S\<lparr>srd := s', sann := A, sgot := g, sout := out, sph := ph\<rparr>)"
  using assms credit_recv [of S s' A, where g = g and out = out and ph = ph] by (simp add: sok_def recv_ok_def final_def)

text \<open>A change of the write side that sends no DATA frame.\<close>

lemma send_step:
  assumes ok: "sok c S" and "sinv c w'" and "fins_ok w'" and "sent w' = sent (sw S)"
    and "writeFIN (sw S) \<Longrightarrow> writeFIN w'" and "maxSendOffset w' \<le> peerOffset (srd S)"
  shows "sok c (S\<lparr>sw := w'\<rparr>)"
  using assms by (auto simp: sok_def credit_ok_def recv_ok_def final_def)

section \<open>The write side\<close>

lemma fins_calls:
  assumes "fins_ok w" "set (wcalls w') \<subseteq> set (wcalls w) \<union> B" "sent w' = sent w" "writeFIN w \<Longrightarrow> writeFIN w'"
    "\<And>i q d. CallReliableFrame frameStreamFIN i q d \<in> B \<Longrightarrow> writeFIN w' \<and> q = of_nat (length (sent w))"
  shows "fins_ok w'"
  using assms unfolding fins_ok_def by (metis UnE subsetD)

lemma plain_ops:
  "sent (setMaxSendOffset x w) = sent w" "sent (creditAcked n w) = sent w" "sent (SetWriteDeadline z w) = sent w"
  "sent (stickyWrite er w) = sent w" "sent (abortWriteLocked code b w) = sent w"
  by (simp_all add: setMaxSendOffset_def creditAcked_def SetWriteDeadline_def stickyWrite_def abortWriteLocked_def Let_def)
     (simp_all add: sent_def)

lemma plain_ops_fin:
  "writeFIN (setMaxSendOffset x w) = writeFIN w" "writeFIN (creditAcked n w) = writeFIN w"
  "writeFIN (SetWriteDeadline z w) = writeFIN w" "writeFIN (stickyWrite er w)"
  "writeFIN w \<Longrightarrow> writeFIN (abortWriteLocked code b w)"
  by (simp_all add: setMaxSendOffset_def creditAcked_def SetWriteDeadline_def stickyWrite_def abortWriteLocked_def wcall_def Let_def)

lemma plain_ops_max:
  "maxSendOffset (creditAcked n w) = maxSendOffset w" "maxSendOffset (SetWriteDeadline z w) = maxSendOffset w"
  "maxSendOffset (stickyWrite er w) = maxSendOffset w" "maxSendOffset (abortWriteLocked code b w) = maxSendOffset w"
  "maxSendOffset (setMaxSendOffset x w) = max (maxSendOffset w) x"
  by (auto simp: setMaxSendOffset_def creditAcked_def SetWriteDeadline_def stickyWrite_def abortWriteLocked_def wcall_def Let_def)

lemma plain_ops_fins:
  "fins_ok w \<Longrightarrow> fins_ok (setMaxSendOffset x w)" "fins_ok w \<Longrightarrow> fins_ok (creditAcked n w)"
  "fins_ok w \<Longrightarrow> fins_ok (SetWriteDeadline z w)" "fins_ok w \<Longrightarrow> fins_ok (stickyWrite er w)"
  "fins_ok w \<Longrightarrow> fins_ok (abortWriteLocked code b w)"
proof -
  assume f: "fins_ok w"
  note r = fins_calls [OF f]
  show "fins_ok (setMaxSendOffset x w)"
    by (rule r [OF _ plain_ops(1), where B = "{CallWriteBroadcast}"]) (auto simp: plain_ops_fin setMaxSendOffset_def wcall_def)
  show "fins_ok (creditAcked n w)"
    by (rule r [OF _ plain_ops(2), where B = "{CallWriteBroadcast}"]) (auto simp: plain_ops_fin creditAcked_def wcall_def)
  show "fins_ok (SetWriteDeadline z w)"
    by (rule r [OF _ plain_ops(3), where B = "{CallWriteBroadcast}"]) (auto simp: plain_ops_fin SetWriteDeadline_def wcall_def)
  show "fins_ok (stickyWrite er w)"
    by (rule r [OF _ plain_ops(4), where B = "{CallWriteBroadcast}"]) (auto simp: plain_ops_fin stickyWrite_def wcall_def)
  show "fins_ok (abortWriteLocked code b w)"
    by (rule r [OF _ plain_ops(5), where B = "{CallWriteBroadcast, CallPurgeStream (wid w),
          CallReliableFrame frameStreamReset (wid w) (writeSeq w) (resetPayload code)}"])
      (auto simp: plain_ops_fin abortWriteLocked_def wcall_def frame_type_defs Let_def)
qed

lemma emitLanes_keep:
  "\<exists>xs. snd (emitLanes las v) = v\<lparr>wcalls := wcalls v @ xs\<rparr> \<and> fecOnly xs"
proof (induction las arbitrary: v)
  case Nil
  then show ?case by (intro exI [of _ "[]"]) simp
next
  case (Cons la las)
  obtain la' v1 where r: "emitLaneLocked frameFEC la v = (la', v1)" by fastforce
  from lane_calls_keep(1) [OF r] obtain xs where x: "v1 = v\<lparr>wcalls := wcalls v @ xs\<rparr>" "fecOnly xs" by blast
  obtain ys where "snd (emitLanes las v1) = v\<lparr>wcalls := wcalls v @ xs @ ys\<rparr>" "fecOnly ys"
    using Cons.IH [of v1] x(1) by auto
  then show ?case using x r by (intro exI [of _ "xs @ ys"]) (auto simp: split_beta Let_def)
qed

lemma close_shape:
  "\<exists>xs las rl. snd (CloseWrite e w) = w \<or>
     snd (CloseWrite e w) = w\<lparr>writeFIN := True, fecLanes := las, fecRowLane := rl,
       wcalls := wcalls w @ xs @ [CallWriteBroadcast, CallReliableFrame frameStreamFIN (wid w) (writeSeq w) []]\<rparr> \<and>
     fecOnly xs"
proof (cases "writeFIN w \<or> writeErr w \<noteq> None")
  case False
  let ?w1 = "w\<lparr>writeFIN := True\<rparr>"
  obtain las w2 where r1: "emitLanes (fecLanes ?w1) ?w1 = (las, w2)" by fastforce
  obtain rl w3 where r2: "emitLaneLocked frameFECRow (fecRowLane w2) (w2\<lparr>fecLanes := las\<rparr>) = (rl, w3)" by fastforce
  from emitLanes_keep [of "fecLanes ?w1" ?w1] r1 obtain xs where x: "w2 = ?w1\<lparr>wcalls := wcalls w @ xs\<rparr>" "fecOnly xs" by auto
  from lane_calls_keep(1) [OF r2] obtain ys where
    y: "w3 = w2\<lparr>fecLanes := las, wcalls := wcalls w2 @ ys\<rparr>" "fecOnly ys" by auto
  have "snd (CloseWrite e w) = w\<lparr>writeFIN := True, fecLanes := las, fecRowLane := rl,
       wcalls := wcalls w @ (xs @ ys) @ [CallWriteBroadcast, CallReliableFrame frameStreamFIN (wid w) (writeSeq w) []]\<rparr>"
    using False r1 r2 unfolding CloseWrite_def by (simp add: Let_def wcall_def) (simp add: y(1) x(1))
  moreover have "fecOnly (xs @ ys)" using x y by simp
  ultimately show ?thesis by (intro exI [of _ "xs @ ys"] exI [of _ las] exI [of _ rl] disjI2 conjI)
qed (simp add: CloseWrite_def)

lemma close_step:
  assumes c: "cfg_ok c" and ok: "sok c S"
  shows "sok c (S\<lparr>sw := snd (CloseWrite e (sw S))\<rparr>)"
proof -
  let ?w = "sw S"
  have i: "sinv c ?w" "fins_ok ?w" "maxSendOffset ?w \<le> peerOffset (srd S)" using ok by (auto simp: sok_def credit_ok_def)
  from close_shape [of e ?w] obtain xs las rl where "snd (CloseWrite e ?w) = ?w \<or>
     snd (CloseWrite e ?w) = ?w\<lparr>writeFIN := True, fecLanes := las, fecRowLane := rl,
       wcalls := wcalls ?w @ xs @ [CallWriteBroadcast, CallReliableFrame frameStreamFIN (wid ?w) (writeSeq ?w) []]\<rparr> \<and>
     fecOnly xs" by blast
  then show ?thesis
  proof
    assume "snd (CloseWrite e ?w) = ?w"
    then show ?thesis using ok by simp
  next
    assume s: "snd (CloseWrite e ?w) = ?w\<lparr>writeFIN := True, fecLanes := las, fecRowLane := rl,
       wcalls := wcalls ?w @ xs @ [CallWriteBroadcast, CallReliableFrame frameStreamFIN (wid ?w) (writeSeq ?w) []]\<rparr> \<and>
     fecOnly xs"
    have se: "sent (snd (CloseWrite e ?w)) = sent ?w" using s fecOnly_data [of xs] by (simp add: sent_def) (simp add: dataFrames_def)
    have "writeSeq ?w = of_nat (length (sent ?w))" using i(1) by (simp add: sinv_def dinv_def)
    then have "fins_ok (snd (CloseWrite e ?w))"
      using s by (intro fins_calls [OF i(2), where B = "set (xs @ [CallWriteBroadcast, CallReliableFrame frameStreamFIN (wid ?w) (writeSeq ?w) []])"] se)
         auto
    then show ?thesis using s i se sinv_close [OF c i(1), of e] by (intro send_step [OF ok]) auto
  qed
qed

lemma recv_sends:
  assumes "recvReach True c cs ph hi out got s" "hi + k \<le> length cs" "int (length (concat (take (hi + k) cs))) \<le> peerOffset s"
  shows "recvReach True c cs ph (hi + k) out got s"
  using assms(2,3)
proof (induction k)
  case 0
  then show ?case using assms(1) by simp
next
  case (Suc k)
  have "length (concat (take (hi + k) cs)) \<le> length (concat (take (hi + Suc k) cs))" by (rule take_concat_mono) simp
  then have "recvReach True c cs ph (hi + k) out got s" using Suc by simp
  then show ?case using recvReach.send [of True c cs ph "hi + k" out got s] Suc.prems by simp
qed

lemma write_step:
  assumes c: "cfg_ok c" and ok: "sok c S" and e: "scfg e = c" "sdata e = (\<lambda>_. None)"
    and w: "Write e p m (sw S) = Some (r, w')" and len: "Suc (length (sent w')) < 2 ^ 32"
  shows "sok c (wrote p m r w' S)"
proof -
  let ?w = "sw S"
  note o = ok [unfolded sok_def]
  have cap: "0 < dataCap (scfg e)" using c config_ok_dataCap [of c] e by (auto simp: cfg_ok_def)
  from Write_ends [OF cap, of p m ?w] w obtain cs rest where
    p: "p = concat cs @ rest" and cl: "clear_run e cs ?w"
    and en: "writeEnd e rest (m + length (concat cs)) (rounds c cs ?w) r w'" by (auto simp: e)
  have w': "w' = wcall CallFlushSend (rounds c cs ?w)" using en e(2) by (auto simp: writeEnd_def split: if_splits)
  have s': "sent w' = sent ?w @ cs" unfolding w' by (simp add: rounds_sent_list)
  have fin: "cs \<noteq> [] \<Longrightarrow> \<not> writeFIN ?w" using cl by (cases cs) auto
  have f': "writeFIN w' = writeFIN ?w" "maxSendOffset w' = maxSendOffset ?w" unfolding w' by (simp_all add: wcall_def)
  have "sinv c (rounds c cs ?w)" using clear_run_sinv [of e cs ?w] c cl o len s' e(1) by simp
  then have inv: "sinv c w'" unfolding w' by simp
  have fo: "fins_ok w'"
  proof (cases "cs = []")
    case True
    then have "wcalls w' = wcalls ?w @ [CallFlushSend]" "sent w' = sent ?w" using s' unfolding w' by (simp_all add: wcall_def)
    then show ?thesis using o f'(1) by (simp add: fins_ok_def)
  next
    case False
    have "CallReliableFrame ft i q d \<in> set (wcalls w') \<longleftrightarrow> CallReliableFrame ft i q d \<in> set (wcalls ?w)" for ft i q d
      unfolding w' by (simp add: wcall_def rounds_reliable)
    then show ?thesis using fin [OF False] o by (simp add: fins_ok_def)
  qed
  have "recv_ok c (S\<lparr>sw := w', spend := pe, sapp := ap\<rparr>)" for pe ap
    unfolding recv_ok_def
  proof (intro allI impI)
    fix ks assume "final c (S\<lparr>sw := w', spend := pe, sapp := ap\<rparr>) ks"
    then have k: "chunks_ok c ks" "prefix (sent ?w @ cs) ks" "writeFIN ?w \<Longrightarrow> ks = sent ?w @ cs"
      using s' f' by (auto simp: final_def)
    then have "final c S ks" using fin by (auto simp: final_def dest: append_prefixD)
    then have rr: "recvReach True c ks (sph S) (length (sent ?w)) (sout S) (sgot S) (srd S)" using o by (simp add: recv_ok_def)
    have t: "take (length (sent ?w) + length cs) ks = sent ?w @ cs" "length (sent ?w) + length cs \<le> length ks"
      using k(2) by (auto simp: prefix_def)
    have "int (length (concat (sent w'))) \<le> maxSendOffset w'" using inv by (simp add: sinv_def dinv_def)
    also have "... \<le> peerOffset (srd S)" using o f' by (simp add: credit_ok_def)
    finally have "recvReach True c ks (sph S) (length (sent ?w) + length cs) (sout S) (sgot S) (srd S)"
      using t s' by (intro recv_sends [OF rr]) simp_all
    then show "recvReach True c ks (sph (S\<lparr>sw := w', spend := pe, sapp := ap\<rparr>))
        (length (sent (sw (S\<lparr>sw := w', spend := pe, sapp := ap\<rparr>)))) (sout (S\<lparr>sw := w', spend := pe, sapp := ap\<rparr>))
        (sgot (S\<lparr>sw := w', spend := pe, sapp := ap\<rparr>)) (srd (S\<lparr>sw := w', spend := pe, sapp := ap\<rparr>))"
      using s' by simp
  qed
  then have key: "sok c (S\<lparr>sw := w', spend := pe, sapp := sapp S @ concat cs\<rparr>)" for pe
    using o inv fo s' f' by (simp add: sok_def credit_ok_def)
  have "wrote p m r w' S = S\<lparr>sw := w', spend := (case r of WReturns n er \<Rightarrow> None | WWaits x n \<Rightarrow> Some (x, n)), sapp := sapp S @ concat cs\<rparr>"
    using en p e(2) by (auto simp: wrote_def writeEnd_def split: if_splits)
  then show ?thesis using key by simp
qed

section \<open>Every session satisfies it\<close>

lemma data_frame:
  assumes "dinv c w" "(q, d) \<in> set (dataFrames (wcalls w))" "length (sent w) < 2 ^ 32"
  shows "q = of_nat (unat q) \<and> unat q < length (sent w) \<and> d = sent w ! unat q"
proof -
  from assms(2) obtain i where i: "i < length (dataFrames (wcalls w))" "dataFrames (wcalls w) ! i = (q, d)"
    by (auto simp: in_set_conv_nth)
  have n: "length (sent w) = length (dataFrames (wcalls w))" by (simp add: sent_def)
  have "map fst (dataFrames (wcalls w)) ! i = map of_nat [0..<length (sent w)] ! i"
    using assms(1) by (simp add: dinv_def)
  then have "q = of_nat i" using i n by simp
  then show ?thesis using i n assms(3) by (simp add: sent_def)
qed

lemma final_nth: "final c S cs \<Longrightarrow> i < length (sent (sw S)) \<Longrightarrow> cs ! i = sent (sw S) ! i"
  by (auto simp: final_def prefix_def nth_append)

lemma final_genuine:
  assumes "final c S cs" "sinv c (sw S)" "(row, b, k, xl, xd) \<in> set (parityFrames (wcalls (sw S)))"
  shows "genuine (nat (fecGroup c)) cs (stride_of c row) (unat b) k xl xd \<and>
    unat b + (k - 1) * stride_of c row < length (sent (sw S))"
proof -
  let ?w = "sw S" and ?g = "nat (fecGroup c)"
  have nz: "fecGroup c \<noteq> 0" using assms(2,3) by (auto simp: sinv_def finv_def)
  then have "pars_ok c ?w" using assms(2) by (simp add: sinv_def finv_def)
  then have p: "genuine ?g (sent ?w) (stride_of c row) (unat b) k xl xd" "k = ?g \<or> writeFIN ?w"
    using assms(3) by (auto simp: pars_ok_def)
  from assms(1) obtain zs where cs: "cs = sent ?w @ zs" "writeFIN ?w \<Longrightarrow> zs = []" by (auto simp: final_def prefix_def)
  have "genuine ?g cs (stride_of c row) (unat b) k xl xd"
  proof (cases "writeFIN ?w")
    case True
    then show ?thesis using cs p(1) by simp
  next
    case False
    then have "k = ?g" using p(2) by simp
    then show ?thesis using genuine_append p(1) cs(1) by blast
  qed
  then show ?thesis using p(1) by (simp add: genuine_def)
qed

lemma sent_wrote: "sent (sw (wrote p m r w' S)) = sent w'"
  by (cases r) (simp_all add: wrote_def)

lemma sent_grows:
  assumes "cfg_ok c" "scfg e = c" "sdata e = (\<lambda>_. None)" "Write e p m w = Some (r, w')"
  shows "length (sent w) \<le> length (sent w')"
proof -
  have "0 < dataCap (scfg e)" using assms config_ok_dataCap [of c] by (auto simp: cfg_ok_def)
  from Write_ends [OF this, of p m w] assms(4) obtain cs rest where
    "writeEnd e rest (m + length (concat cs)) (rounds (scfg e) cs w) r w'" by auto
  then have "w' = wcall CallFlushSend (rounds (scfg e) cs w)"
    using assms(3) by (auto simp: writeEnd_def split: if_splits)
  then show ?thesis by (simp add: rounds_sent_list)
qed

lemma close_sent: "sent (snd (CloseWrite e w)) = sent w"
proof -
  from close_shape [of e w] obtain xs las rl where "snd (CloseWrite e w) = w \<or>
     snd (CloseWrite e w) = w\<lparr>writeFIN := True, fecLanes := las, fecRowLane := rl,
       wcalls := wcalls w @ xs @ [CallWriteBroadcast, CallReliableFrame frameStreamFIN (wid w) (writeSeq w) []]\<rparr> \<and>
     fecOnly xs" by blast
  then show ?thesis using fecOnly_data [of xs] by (auto simp: sent_def) (simp_all add: dataFrames_def)
qed

lemma session_start:
  assumes "cfg_ok c"
  shows "sok c \<lparr>sw = newWriteSide i c (streamBufSize c), spend = None, sapp = [], sann = {},
    sph = Live, sout = [], sgot = {}, srd = newReadSide j c (streamBufSize c) now\<rparr>"
proof -
  have "recvReach True c cs Live 0 [] {} (newReadSide j c (streamBufSize c) now)" for cs by (rule recvReach.start)
  moreover have "sent (newWriteSide i c (streamBufSize c)) = []" "fins_ok (newWriteSide i c (streamBufSize c))"
    by (simp_all add: sent_def fins_ok_def newWriteSide_def)
  moreover have "0 \<le> initialWindow c (streamBufSize c)"
    using assms initialWindow_bounds(1) [of c] by (auto simp: cfg_ok_def config_ok_def)
  moreover have "maxSendOffset (newWriteSide i c (streamBufSize c)) = initialWindow c (streamBufSize c)"
    "peerOffset (newReadSide j c (streamBufSize c) now) = initialWindow c (streamBufSize c)"
    "grants (newReadSide j c (streamBufSize c) now) = {}"
    by (simp_all add: newWriteSide_def newReadSide_def grants_def)
  ultimately show ?thesis using sinv_new [OF assms, of i] by (simp add: sok_def credit_ok_def recv_ok_def)
qed

text \<open>The read-side events, one rule of \<open>recvReach\<close> each.\<close>

lemma recv_step_plain:
  assumes "sok c S" "adv (srd S) s'"
    "\<And>cs. final c S cs \<Longrightarrow> recvReach True c cs (sph S) (length (sent (sw S))) (sout S) (sgot S) (srd S) \<Longrightarrow>
      recvReach True c cs ph (length (sent (sw S))) (sout S) g s'"
  shows "sok c (S\<lparr>sph := ph, sgot := g, srd := s'\<rparr>)"
  using recv_step [OF assms(1,2), of "sann S" ph "sout S" g] assms(3) by (cases S) simp

lemma sessionReach_sok:
  "sessionReach c S \<Longrightarrow> cfg_ok c \<Longrightarrow> Suc (length (sent (sw S))) < 2 ^ 32 \<Longrightarrow> sok c S"
proof (induction rule: sessionReach.induct)
  case (start i j now)
  then show ?case by (simp add: session_start)
next
  case (appWrite S e p r w')
  have "Suc (length (sent w')) < 2 ^ 32" using appWrite.prems(2) by (simp add: sent_wrote)
  moreover have "length (sent (sw S)) \<le> length (sent w')" by (rule sent_grows [OF appWrite.prems(1) appWrite.hyps(3,4,5)])
  ultimately show ?case using appWrite by (intro write_step) auto
next
  case (resume S p m e r w')
  have "Suc (length (sent w')) < 2 ^ 32" using resume.prems(2) by (simp add: sent_wrote)
  moreover have "length (sent (sw S)) \<le> length (sent w')" by (rule sent_grows [OF resume.prems(1) resume.hyps(3,4,5)])
  ultimately show ?case using resume by (intro write_step) auto
next
  case (appClose S e)
  then show ?case by (intro close_step) (simp_all add: close_sent)
next
  case (abort S code b)
  then have ok: "sok c S" by (simp add: plain_ops)
  then show ?case by (intro send_step) (auto simp: sok_def plain_ops plain_ops_fin plain_ops_max credit_ok_def intro: sinv_abort plain_ops_fins)
next
  case (teardown S er)
  then have ok: "sok c S" by (simp add: plain_ops)
  then show ?case by (intro send_step) (auto simp: sok_def plain_ops plain_ops_fin plain_ops_max credit_ok_def intro: sinv_sticky plain_ops_fins)
next
  case (writeDeadline S z)
  then have ok: "sok c S" by (simp add: plain_ops)
  then show ?case by (intro send_step) (auto simp: sok_def plain_ops plain_ops_fin plain_ops_max credit_ok_def intro: sinv_simple plain_ops_fins)
next
  case (credit S n)
  then have ok: "sok c S" by (simp add: plain_ops)
  then show ?case by (intro send_step) (auto simp: sok_def plain_ops plain_ops_fin plain_ops_max credit_ok_def intro: sinv_simple plain_ops_fins)
next
  case (window S off)
  then have ok: "sok c S" by (simp add: plain_ops)
  then have "int64_of_u64 off \<le> peerOffset (srd S)" using window.hyps by (simp add: sok_def credit_ok_def)
  then show ?case using ok by (intro send_step) (auto simp: sok_def plain_ops plain_ops_fin plain_ops_max credit_ok_def intro: sinv_setMax plain_ops_fins)
next
  case (ackWindow S x)
  then have ok: "sok c S" by (simp add: plain_ops)
  then have "x \<le> peerOffset (srd S)" using ackWindow.hyps by (simp add: sok_def credit_ok_def)
  then show ?case using ok by (intro send_step) (auto simp: sok_def plain_ops plain_ops_fin plain_ops_max credit_ok_def intro: sinv_setMax plain_ops_fins)
next
  case (data S e q d)
  then have ok: "sok c S" by simp
  then have f: "q = of_nat (unat q)" "unat q < length (sent (sw S))" "d = sent (sw S) ! unat q"
    using data_frame [of c "sw S" q d] data by (auto simp: sok_def sinv_def)
  have "sok c (S\<lparr>sph := sph S, sgot := insert (unat q) (sgot S), srd := snd (deliverLocked e (srd S) q d False)\<rparr>)"
  proof (rule recv_step_plain [OF ok credit.deliver])
    fix cs assume "final c S cs" "recvReach True c cs (sph S) (length (sent (sw S))) (sout S) (sgot S) (srd S)"
    from recvReach.data [OF this(2) data.hyps(2,3) f(2)] final_nth [OF this(1) f(2)] f
    show "recvReach True c cs (sph S) (length (sent (sw S))) (sout S) (insert (unat q) (sgot S))
        (snd (deliverLocked e (srd S) q d False))" by simp
  qed
  then show ?case by (cases S) simp
next
  case (fin S e i q d)
  then have ok: "sok c S" by simp
  then have f: "writeFIN (sw S)" "q = of_nat (length (sent (sw S)))" using fin.hyps(4) by (auto simp: sok_def fins_ok_def)
  have "sok c (S\<lparr>sph := sph S, sgot := sgot S, srd := snd (deliverLocked e (srd S) q [] True)\<rparr>)"
  proof (rule recv_step_plain [OF ok credit.deliver])
    fix cs assume a: "final c S cs" "recvReach True c cs (sph S) (length (sent (sw S))) (sout S) (sgot S) (srd S)"
    then have "cs = sent (sw S)" using f(1) by (simp add: final_def)
    then show "recvReach True c cs (sph S) (length (sent (sw S))) (sout S) (sgot S) (snd (deliverLocked e (srd S) q [] True))"
      using recvReach.fin [of True c cs "sph S" "sout S" "sgot S" "srd S" e] a(2) fin.hyps(2,3) f(2) by simp
  qed
  then show ?case by (cases S) simp
next
  case (parity S e row b k xl xd)
  then have ok: "sok c S" by simp
  have "sok c (S\<lparr>sph := sph S, sgot := sgot S, srd := snd (applyFec e row b k xl xd (srd S))\<rparr>)"
  proof (rule recv_step_plain [OF ok credit.applyFec])
    fix cs assume a: "final c S cs" "recvReach True c cs (sph S) (length (sent (sw S))) (sout S) (sgot S) (srd S)"
    from final_genuine [OF a(1) _ parity.hyps(4)] ok
    show "recvReach True c cs (sph S) (length (sent (sw S))) (sout S) (sgot S) (snd (applyFec e row b k xl xd (srd S)))"
      using recvReach.parity [OF a(2) parity.hyps(2,3)] by (auto simp: sok_def)
  qed
  then show ?case by (cases S) simp
next
  case (reset S code)
  then have ok: "sok c S" by simp
  have "sok c (S\<lparr>sph := Aborted, sgot := sgot S, srd := deliverReset code (srd S)\<rparr>)"
    by (rule recv_step_plain [OF ok]) (use recvReach.reset reset.hyps in auto)
  then show ?case by (cases S) simp
next
  case (read S e want d er s')
  then have ok: "sok c S" by simp
  have "sok c (S\<lparr>srd := s', sann := sann S, sgot := sgot S, sout := sout S @ d, sph := sph S\<rparr>)"
    by (rule recv_step [OF ok credit.Read [OF read.hyps(3)]]) (use recvReach.read read.hyps in auto)
  then show ?case by (cases S) simp
next
  case (tail S e)
  then have ok: "sok c S" by simp
  have "sok c (S\<lparr>sph := sph S, sgot := sgot S, srd := maybeTailNack e (srd S)\<rparr>)"
    by (rule recv_step_plain [OF ok]) (use recvReach.tail credit.tail in auto)
  then show ?case by (cases S) simp
next
  case (ack S cum seqs granted s')
  then have ok: "sok c S" by simp
  have s': "s' = snd (ackSnapshot (srd S))" "granted = peerOffset (srd S)" "peerOffset s' = peerOffset (srd S)"
    using ack.hyps(2) by (auto simp: ackSnapshot_def Let_def)
  have "sok c (S\<lparr>srd := s', sann := insert granted (sann S), sgot := sgot S, sout := sout S, sph := sph S\<rparr>)"
    by (rule recv_step [OF ok]) (use recvReach.ack s' in auto)
  then show ?case by (cases S) simp
next
  case (readDeadline S z)
  then have ok: "sok c S" by simp
  have "sok c (S\<lparr>sph := sph S, sgot := sgot S, srd := SetReadDeadline z (srd S)\<rparr>)"
    by (rule recv_step_plain [OF ok]) (use recvReach.deadline in auto)
  then show ?case by (cases S) simp
next
  case (cancel S code)
  then have ok: "sok c S" by simp
  have "sok c (S\<lparr>sph := Aborted, sgot := sgot S, srd := CancelRead code (srd S)\<rparr>)"
    by (rule recv_step_plain [OF ok]) (use recvReach.cancel in auto)
  then show ?case by (cases S) simp
next
  case (close S)
  then have ok: "sok c S" by simp
  have "sok c (S\<lparr>sph := (if sph S = Aborted then Aborted else Closed), sgot := sgot S, srd := stickyRead ErrStreamClosed (srd S)\<rparr>)"
    by (rule recv_step_plain [OF ok]) (use recvReach.close in auto)
  then show ?case by (cases S) simp
qed

section \<open>End-to-end guarantees\<close>

lemma session_run:
  assumes "cfg_ok c" "sessionReach c S" "Suc (length (sent (sw S))) < 2 ^ 32"
  shows "chunks_ok c (sent (sw S)) \<and> sapp S = concat (sent (sw S)) \<and>
    recvReach True c (sent (sw S)) (sph S) (length (sent (sw S))) (sout S) (sgot S) (srd S)"
proof -
  have ok: "sok c S" by (rule sessionReach_sok [OF assms(2,1,3)])
  then have "chunks_ok c (sent (sw S))"
    using assms by (auto simp: sok_def sinv_def dinv_def chunks_ok_def cfg_ok_def)
  then have "final c S (sent (sw S))" by (simp add: final_def)
  then show ?thesis using ok \<open>chunks_ok c (sent (sw S))\<close> by (simp add: sok_def recv_ok_def)
qed


definition demoSession :: session where
  "demoSession = \<lparr>sw = demoWriter, spend = None, sapp = [], sann = {}, sph = Live, sout = [], sgot = {},
     srd = newReadSide 1 demoSendCfg (streamBufSize demoSendCfg) 1\<rparr>"

definition demoRecvEnv :: recvEnv where
  "demoRecvEnv = \<lparr>ecfg = demoSendCfg, enow = 5, erto = 100, egrace = 10, estale = (\<lambda>_. 9)\<rparr>"

definition demoWritten :: session where
  "demoWritten = (case Write demoSendEnv [1, 2, 3] 0 demoWriter of Some (r, w) \<Rightarrow> wrote [1, 2, 3] 0 r w demoSession)"

definition demoReceived :: session where
  "demoReceived = demoWritten\<lparr>sgot := {0}, srd := snd (deliverLocked demoRecvEnv (srd demoWritten) 0 [1, 2, 3] False)\<rparr>"

lemma demo_cfg_ok: "cfg_ok demoSendCfg"
  using demo_config(1) by (simp add: cfg_ok_def demoSendCfg_def defaultConfig_def)

lemma demo_written: "sessionReach demoSendCfg demoWritten" "sent (sw demoWritten) = [[1, 2, 3]]" "sapp demoWritten = [1, 2, 3]"
  "sph demoWritten = Live" "sout demoWritten = []" "sgot demoWritten = {}"
proof -
  obtain w where w: "Write demoSendEnv [1, 2, 3] 0 demoWriter = Some (WReturns 3 None, w)" "sent w = [[1, 2, 3]]"
    using demo_write by blast
  have "sessionReach demoSendCfg demoSession" unfolding demoSession_def demoWriter_def by (rule sessionReach.start)
  from sessionReach.appWrite [OF this, of demoSendEnv "[1, 2, 3]"] w(1)
  show "sessionReach demoSendCfg demoWritten"
    by (simp add: demoWritten_def demoSession_def demoSendEnv_def)
  show "sent (sw demoWritten) = [[1, 2, 3]]" "sapp demoWritten = [1, 2, 3]"
    "sph demoWritten = Live" "sout demoWritten = []" "sgot demoWritten = {}"
    using w by (simp_all add: demoWritten_def wrote_def demoSession_def)
qed

lemma demo_frame: "(0, [1, 2, 3]) \<in> set (dataFrames (wcalls (sw demoWritten)))"
proof -
  have "dinv demoSendCfg (sw demoWritten)"
    using sessionReach_sok [OF demo_written(1) demo_cfg_ok] demo_written(2) by (simp add: sok_def sinv_def)
  then have "map fst (dataFrames (wcalls (sw demoWritten))) = [0]" using demo_written(2) by (simp add: dinv_def)
  moreover have "map snd (dataFrames (wcalls (sw demoWritten))) = [[1, 2, 3]]" using demo_written(2) by (simp add: sent_def)
  ultimately show ?thesis by (cases "dataFrames (wcalls (sw demoWritten))") auto
qed

lemma demo_received: "sessionReach demoSendCfg demoReceived" "sent (sw demoReceived) = [[1, 2, 3]]" "sapp demoReceived = [1, 2, 3]"
  "sph demoReceived = Live" "sout demoReceived = []" "sgot demoReceived = {0}"
  using sessionReach.data [OF demo_written(1) _ _ demo_frame, of demoRecvEnv] demo_written
  by (simp_all add: demoReceived_def demoRecvEnv_def)





definition demoClosed :: session where
  "demoClosed = (let S = demoReceived\<lparr>sw := snd (CloseWrite demoSendEnv (sw demoReceived))\<rparr> in
     S\<lparr>srd := snd (deliverLocked demoRecvEnv (srd S) 1 [] True)\<rparr>)"

lemma demo_closed: "sessionReach demoSendCfg demoClosed" "sent (sw demoClosed) = [[1, 2, 3]]" "sapp demoClosed = [1, 2, 3]"
  "sph demoClosed = Live" "sout demoClosed = []" "sgot demoClosed = {0}" "finRecvd (srd demoClosed)"
proof -
  let ?S = "demoReceived\<lparr>sw := snd (CloseWrite demoSendEnv (sw demoReceived))\<rparr>"
  have S: "sessionReach demoSendCfg ?S" by (rule sessionReach.appClose [OF demo_received(1)])
  have st: "sent (sw ?S) = [[1, 2, 3]]" by (simp add: close_sent demo_received)
  have e: "ecfg demoRecvEnv = demoSendCfg" by (simp add: demoRecvEnv_def)
  have live: "writeFIN (sw demoReceived) = False" "writeErr (sw demoReceived) = None" "writeSeq (sw demoReceived) = 1"
  proof -
    obtain w where w: "Write demoSendEnv [1, 2, 3] 0 demoWriter = Some (WReturns 3 None, w)" using demo_write by blast
    have cap: "0 < dataCap (scfg demoSendEnv)" by (simp add: demoSendEnv_def demo_config)
    from Write_ends [OF cap, of "[1, 2, 3]" 0 demoWriter] w obtain cs rest where
      "writeEnd demoSendEnv rest (0 + length (concat cs)) (rounds (scfg demoSendEnv) cs demoWriter) (WReturns 3 None) w"
      by auto
    then have "w = wcall CallFlushSend (rounds (scfg demoSendEnv) cs demoWriter)"
      by (auto simp: writeEnd_def demoSendEnv_def split: if_splits)
    then show "writeFIN (sw demoReceived) = False" "writeErr (sw demoReceived) = None"
      using w by (simp_all add: demoReceived_def demoWritten_def wrote_def wcall_def demo_writer)
    have "dinv demoSendCfg (sw demoReceived)"
      using sessionReach_sok [OF demo_received(1) demo_cfg_ok] demo_received(2) by (simp add: sok_def sinv_def)
    then show "writeSeq (sw demoReceived) = 1" using demo_received(2) by (simp add: dinv_def)
  qed
  have fr: "CallReliableFrame frameStreamFIN (wid (sw ?S)) 1 [] \<in> set (wcalls (sw ?S))"
    using live by (simp add: CloseWrite_def split_beta Let_def wcall_def)
  show reach: "sessionReach demoSendCfg demoClosed"
    using sessionReach.fin [OF S _ e fr] demo_received(4) by (simp add: demoClosed_def Let_def)
  show "sent (sw demoClosed) = [[1, 2, 3]]" "sapp demoClosed = [1, 2, 3]" "sph demoClosed = Live"
    "sout demoClosed = []" "sgot demoClosed = {0}"
    using st demo_received by (simp_all add: demoClosed_def Let_def)
  define T where "T = ?S"
  have T: "sessionReach demoSendCfg T" "sent (sw T) = [[1, 2, 3]]" "sph T = Live" "sout T = []"
    "srd demoClosed = snd (deliverLocked demoRecvEnv (srd T) 1 [] True)"
    using S st demo_received by (simp_all add: T_def demoClosed_def Let_def)
  have "Suc (length (sent (sw T))) < 2 ^ 32" by (simp add: T(2))
  note run = session_run [OF demo_cfg_ok T(1) this]
  have ok: "chunks_ok demoSendCfg [[1, 2, 3]]" using run T(2) by simp
  have R: "recvReach True demoSendCfg [[1, 2, 3]] Live (length [[1, 2, 3 :: byte]]) [] (sgot T) (srd T)"
    using run T(2-4) by simp
  have "rok True demoSendCfg [[1, 2, 3]] (length [[1, 2, 3 :: byte]]) [] (srd T)"
    using runInv_holds [OF R ok] by (simp add: runInv_def)
  from deliver_fin_keeps(2) [OF ok this, of demoRecvEnv] show "finRecvd (srd demoClosed)"
    by (simp add: T(5))
qed


end
