(* ===== verification/Rto.thy ===== *)
theory Rto
  imports Options
begin

text \<open>
  Round-trip estimation and what is derived from it (\<open>connection.go\<close>): \<open>updateRTO\<close>, \<open>currentRTO\<close>,
  \<open>reorderGrace\<close>, \<open>inFlightCap\<close>, and the caps \<open>newConnection\<close> computes.

  \<open>rttState\<close> holds the five fields of the connection: the estimator's own \<open>srtt\<close> and \<open>rttvar\<close>
  (under \<open>recvMu\<close>) and the atomically published copies that other goroutines read. Durations are
  \<open>int64\<close>; the one sum that can leave the range, \<open>srtt + 4*rttvar\<close>, is wrapped explicitly.
\<close>

section \<open>The estimator\<close>

record rttState =
  srtt :: duration
  rttvar :: duration
  rtoNs :: int
  rttvarNs :: int
  srttNs :: int

definition newRttState :: "config \<Rightarrow> rttState" where
  "newRttState c = \<lparr>srtt = 0, rttvar = 0, rtoNs = retransmitTmout c, rttvarNs = 0, srttNs = 0\<rparr>"

definition updateRTO :: "config \<Rightarrow> duration \<Rightarrow> rttState \<Rightarrow> rttState" where
  "updateRTO c sample s =
     (if sample \<le> 0 then s
      else
        let s1 = (if srtt s = 0 then s\<lparr>srtt := sample, rttvar := sample sdiv 2\<rparr>
                  else
                    let diff = srtt s - sample;
                        diff = (if diff < 0 then - diff else diff);
                        s' = s\<lparr>rttvar := rttvar s + (diff - rttvar s) sdiv 4\<rparr>
                    in s'\<lparr>srtt := srtt s' + (sample - srtt s') sdiv 8\<rparr>);
            rto = int64 (srtt s1 + int64 (4 * rttvar s1));
            rto = (if rto < minRetransmitTmout c then minRetransmitTmout c else rto)
        in s1\<lparr>rtoNs := rto, rttvarNs := rttvar s1, srttNs := srtt s1\<rparr>)"

definition currentRTO :: "rttState \<Rightarrow> duration" where
  "currentRTO s = rtoNs s"

definition reorderGraceFraction :: int where "reorderGraceFraction = 4"

definition reorderGrace :: "rttState \<Rightarrow> duration" where
  "reorderGrace s =
     (let rv = rttvarNs s; mx = currentRTO s sdiv reorderGraceFraction in
      if rv = 0 then mx
      else
        let g = 2 * rv;
            g = (if g < 2 * Millisecond then 2 * Millisecond else g)
        in if mx < g then mx else g)"

section \<open>The in-flight cap\<close>

text \<open>The two caps \<open>newConnection\<close> fixes; \<open>granted\<close> is what \<open>getsockopt(SO_RCVBUF)\<close> answered, \<open>None\<close> when
  it failed.\<close>

definition resolveCaps :: "config \<Rightarrow> int option \<Rightarrow> int \<times> int" where
  "resolveCaps c granted =
     (let lan = effectiveMaxInFlight c; wan = lan in
      if maxInFlight c = 0
      then
        let (lan1, wan1) =
              (case granted of
                 Some g \<Rightarrow> if 0 < g then (g sdiv 2, g - g sdiv 4) else (lan, wan)
               | None \<Rightarrow> (lan, wan))
        in (lan1, if pacingEnabled c then 2 ^ 62 else wan1)
      else (lan, wan))"

definition inFlightCap :: "int \<times> int \<Rightarrow> rttState \<Rightarrow> int" where
  "inFlightCap caps s = (if 10 * Millisecond \<le> srttNs s then snd caps else fst caps)"

section \<open>Truncating division\<close>

lemma sdiv_pos: "0 \<le> (x :: int) \<Longrightarrow> 0 < k \<Longrightarrow> x sdiv k = x div k"
  by (cases "x = 0") (simp_all add: signed_divide_int_def)

lemma sdiv_neg: "(x :: int) < 0 \<Longrightarrow> 0 < k \<Longrightarrow> x sdiv k = - ((- x) div k)"
  by (simp add: signed_divide_int_def)

lemma div_below: "0 \<le> (x :: int) \<Longrightarrow> 0 < k \<Longrightarrow> x div k \<le> x"
  using zdiv_mono2 [of x 1 k] by simp

lemma div_above: "0 < (k :: int) \<Longrightarrow> k \<le> x \<Longrightarrow> 1 \<le> x div k"
  using zdiv_mono1 [of k x k] by simp

text \<open>A step towards a target by a fraction of the distance never passes it.\<close>

lemma step_between:
  fixes a b :: int
  assumes "0 < k"
  shows "min a b \<le> a + (b - a) sdiv k \<and> a + (b - a) sdiv k \<le> max a b"
proof (cases "a \<le> b")
  case True
  have "(b - a) div k \<le> b - a" using True assms by (intro div_below) auto
  then show ?thesis using True assms by (simp add: sdiv_pos pos_imp_zdiv_nonneg_iff)
next
  case False
  have "(a - b) div k \<le> a - b" using False assms by (intro div_below) auto
  then show ?thesis using False assms by (simp add: sdiv_neg pos_imp_zdiv_nonneg_iff)
qed

lemma step_within:
  fixes a b :: int
  assumes "0 < k" "lo \<le> a" "a \<le> hi" "lo \<le> b" "b \<le> hi"
  shows "lo \<le> a + (b - a) sdiv k" "a + (b - a) sdiv k \<le> hi"
  using step_between [OF assms(1), of a b] assms by linarith+

lemma step_closer:
  fixes a b :: int
  assumes "0 < k" "k \<le> \<bar>b - a\<bar>"
  shows "\<bar>b - (a + (b - a) sdiv k)\<bar> < \<bar>b - a\<bar>"
proof (cases "a \<le> b")
  case True
  have "1 \<le> (b - a) div k" using True assms by (intro div_above) auto
  moreover have "(b - a) div k \<le> b - a" using True assms by (intro div_below) auto
  ultimately show ?thesis using True assms by (simp add: sdiv_pos)
next
  case False
  have "1 \<le> (a - b) div k" using False assms by (intro div_above) auto
  moreover have "(a - b) div k \<le> a - b" using False assms by (intro div_below) auto
  ultimately show ?thesis using False assms by (simp add: sdiv_neg)
qed

lemma step_no_further:
  fixes a b :: int
  assumes "0 < k"
  shows "\<bar>b - (a + (b - a) sdiv k)\<bar> \<le> \<bar>b - a\<bar>"
  using step_between [OF assms, of a b] by linarith

section \<open>Bounds\<close>

definition estimating :: "config \<Rightarrow> int \<Rightarrow> int \<Rightarrow> rttState \<Rightarrow> bool" where
  "estimating c lo hi s \<longleftrightarrow> lo \<le> srtt s \<and> srtt s \<le> hi \<and> 0 \<le> rttvar s \<and> rttvar s \<le> hi \<and>
     srttNs s = srtt s \<and> rttvarNs s = rttvar s \<and> rtoNs s = max (minRetransmitTmout c) (srtt s + 4 * rttvar s)"

lemma updateRTO_fields:
  assumes "0 < sample"
  shows "srtt (updateRTO c sample s) = (if srtt s = 0 then sample else srtt s + (sample - srtt s) sdiv 8)"
    and "rttvar (updateRTO c sample s) =
      (if srtt s = 0 then sample sdiv 2 else rttvar s + (\<bar>srtt s - sample\<bar> - rttvar s) sdiv 4)"
    and "srttNs (updateRTO c sample s) = srtt (updateRTO c sample s)"
    and "rttvarNs (updateRTO c sample s) = rttvar (updateRTO c sample s)"
    and "rtoNs (updateRTO c sample s) = max (minRetransmitTmout c)
      (int64 (srtt (updateRTO c sample s) + int64 (4 * rttvar (updateRTO c sample s))))"
  using assms by (simp_all add: updateRTO_def Let_def abs_if max_def)

lemma updateRTO_first:
  assumes "0 < lo" "lo \<le> sample" "sample \<le> hi" "hi \<le> 2 ^ 60" "srtt s = 0"
  shows "estimating c lo hi (updateRTO c sample s)"
proof -
  have "0 \<le> sample div 2" "sample div 2 \<le> sample" using assms by (simp_all add: div_below)
  then show ?thesis
    using assms by (simp add: estimating_def updateRTO_fields sdiv_pos int64_id)
qed

lemma updateRTO_next:
  assumes "0 < lo" "lo \<le> sample" "sample \<le> hi" "hi \<le> 2 ^ 60" "estimating c lo hi s"
  shows "estimating c lo hi (updateRTO c sample s)"
proof -
  let ?s = "updateRTO c sample s" and ?d = "\<bar>srtt s - sample\<bar>"
  have e: "lo \<le> srtt s" "srtt s \<le> hi" "0 \<le> rttvar s" "rttvar s \<le> hi" "srtt s \<noteq> 0" "0 < sample"
    using assms by (simp_all add: estimating_def)
  have d: "0 \<le> ?d" "?d \<le> hi" using e assms by linarith+
  have a: "lo \<le> srtt ?s" "srtt ?s \<le> hi"
    using step_within [of 8 lo "srtt s" hi sample] e assms by (simp_all add: updateRTO_fields)
  have b: "0 \<le> rttvar ?s" "rttvar ?s \<le> hi"
    using step_within [of 4 0 "rttvar s" hi ?d] e d by (simp_all add: updateRTO_fields)
  then have "int64 (srtt ?s + int64 (4 * rttvar ?s)) = srtt ?s + 4 * rttvar ?s"
    using a assms by (simp add: int64_id)
  then show ?thesis using a b e by (simp add: estimating_def updateRTO_fields(3-5))
qed

lemma updateRTO_run:
  assumes "0 < lo" "hi \<le> 2 ^ 60" "\<forall>x \<in> set xs. lo \<le> x \<and> x \<le> hi" "estimating c lo hi s"
  shows "estimating c lo hi (fold (updateRTO c) xs s)"
  using assms(3,4) by (induction xs arbitrary: s) (auto intro: updateRTO_next [OF assms(1) _ _ assms(2)])

lemma updateRTO_start:
  assumes "0 < lo" "hi \<le> 2 ^ 60" "\<forall>x \<in> set xs. lo \<le> x \<and> x \<le> hi" "xs \<noteq> []"
  shows "estimating c lo hi (fold (updateRTO c) xs (newRttState c))"
proof (cases xs)
  case (Cons x ys)
  have "estimating c lo hi (updateRTO c x (newRttState c))"
    using assms Cons by (intro updateRTO_first) (auto simp: newRttState_def)
  with updateRTO_run [OF assms(1,2), of ys] assms(3) Cons show ?thesis by simp
qed (use assms in simp)

lemma reorderGrace_bounds:
  assumes "0 \<le> rtoNs s" "0 \<le> rttvarNs s"
  shows "0 \<le> reorderGrace s \<and> reorderGrace s \<le> rtoNs s div 4 \<and>
    (rttvarNs s \<noteq> 0 \<longrightarrow> min (2 * Millisecond) (rtoNs s div 4) \<le> reorderGrace s)"
  using assms by (auto simp: reorderGrace_def currentRTO_def reorderGraceFraction_def sdiv_pos Millisecond_def Let_def)

text \<open>C37 (bounds). Whatever round-trip samples the path yields, the estimate stays inside their range: once
  there has been a sample, the smoothed round trip lies between the smallest and the largest one, the
  deviation is between 0 and the largest, the retransmission timeout is at least the configured floor
  and at most the floor or five times the largest sample, and the reorder grace is at most a quarter
  of the timeout, so a gap is reported well before its frame times out. No sum overflows for samples
  up to 2^60 nanoseconds.\<close>

theorem rto_bounds:
  assumes "0 < lo" and "hi \<le> 2 ^ 60" and "\<forall>x \<in> set samples. lo \<le> x \<and> x \<le> hi" and "samples \<noteq> []"
    and "0 < minRetransmitTmout c" and "s = fold (updateRTO c) samples (newRttState c)"
  shows "lo \<le> srtt s \<and> srtt s \<le> hi \<and> 0 \<le> rttvar s \<and> rttvar s \<le> hi \<and>
    minRetransmitTmout c \<le> currentRTO s \<and> srtt s \<le> currentRTO s \<and>
    currentRTO s \<le> max (minRetransmitTmout c) (5 * hi) \<and>
    0 \<le> reorderGrace s \<and> reorderGrace s \<le> currentRTO s div 4"
proof -
  have e: "estimating c lo hi s" using updateRTO_start [OF assms(1-4)] assms(6) by simp
  moreover from e have "0 \<le> rtoNs s" "0 \<le> rttvarNs s" using assms(5) by (auto simp: estimating_def)
  note reorderGrace_bounds [OF this]
  ultimately show ?thesis by (auto simp: estimating_def currentRTO_def)
qed

theorem rto_bounds_witness:
  "10000000 \<le> srtt (fold (updateRTO defaultConfig) [10000000, 30000000] (newRttState defaultConfig)) \<and>
   currentRTO (fold (updateRTO defaultConfig) [10000000, 30000000] (newRttState defaultConfig)) \<le> 150000000"
  using rto_bounds [of 10000000 30000000 "[10000000, 30000000]" defaultConfig]
  by (simp add: defaultConfig_def default_defs duration_units)

section \<open>Adaptation\<close>

text \<open>The distance of the estimate from a steady path, as a number that equal samples decrease.\<close>

lemma steady_srtt:
  assumes "0 < x" "srtt s \<noteq> 0"
  shows "\<bar>x - srtt (updateRTO c x s)\<bar> \<le> \<bar>x - srtt s\<bar>"
    and "8 \<le> \<bar>x - srtt s\<bar> \<Longrightarrow> \<bar>x - srtt (updateRTO c x s)\<bar> < \<bar>x - srtt s\<bar>"
  using assms step_no_further [of 8 x "srtt s"] step_closer [of 8 x "srtt s"] by (simp_all add: updateRTO_fields)

lemma steady_rttvar:
  assumes "0 < x" "srtt s \<noteq> 0" "\<bar>x - srtt s\<bar> \<le> 7" "0 \<le> rttvar s"
  shows "rttvar s \<le> 10 \<Longrightarrow> rttvar (updateRTO c x s) \<le> 10"
    and "10 < rttvar s \<Longrightarrow> rttvar (updateRTO c x s) < rttvar s"
proof -
  let ?d = "\<bar>srtt s - x\<bar>"
  have d: "0 \<le> ?d" "?d \<le> 7" using assms by linarith+
  show "rttvar (updateRTO c x s) \<le> 10" if "rttvar s \<le> 10"
    using step_within [of 4 0 "rttvar s" 10 ?d] d that assms by (simp add: updateRTO_fields)
  show "rttvar (updateRTO c x s) < rttvar s" if "10 < rttvar s"
  proof -
    have "rttvar s - ?d \<ge> 4" using d that by linarith
    then have "1 \<le> (rttvar s - ?d) div 4" by (intro div_above) auto
    then show ?thesis using d that assms by (simp add: updateRTO_fields sdiv_neg)
  qed
qed

text \<open>A condition that is kept once it holds, and a measure that falls until it does.\<close>

lemma settles:
  assumes "I s" "\<And>s. I s \<Longrightarrow> I (f s)" "\<And>s. I s \<Longrightarrow> P s \<Longrightarrow> P (f s)"
    "\<And>s. I s \<Longrightarrow> \<not> P s \<Longrightarrow> m (f s) < (m s :: nat)"
  shows "\<exists>N. \<forall>n \<ge> N. P ((f ^^ n) s)"
  using assms(1)
proof (induction "m s" arbitrary: s rule: less_induct)
  case less
  show ?case
  proof (cases "P s")
    case True
    have "I ((f ^^ n) s) \<and> P ((f ^^ n) s)" for n
      using less.prems True assms(2,3) by (induction n) auto
    then show ?thesis by blast
  next
    case False
    with less obtain N where N: "\<forall>n \<ge> N. P ((f ^^ n) (f s))" using assms(2,4) by blast
    have "P ((f ^^ n) s)" if "Suc N \<le> n" for n
      using N that by (cases n) (auto simp: funpow_swap1)
    then show ?thesis by blast
  qed
qed

lemma steady_estimate:
  assumes "0 < lo" "lo \<le> x" "x \<le> hi" "hi \<le> 2 ^ 60" "estimating c lo hi s"
  shows "\<exists>N. \<forall>n \<ge> N. \<bar>x - srtt ((updateRTO c x ^^ n) s)\<bar> \<le> 7 \<and> rttvar ((updateRTO c x ^^ n) s) \<le> 10"
proof -
  let ?f = "updateRTO c x" and ?I = "estimating c lo hi" and ?P = "\<lambda>s. \<bar>x - srtt s\<bar> \<le> 7"
  have I: "?I (?f s)" if "?I s" for s using updateRTO_next [OF assms(1-4) that] .
  have nz: "srtt s \<noteq> 0" "0 \<le> rttvar s" if "?I s" for s using that assms(1) by (auto simp: estimating_def)
  have x: "0 < x" using assms by simp
  have P: "?P (?f s)" if "?I s" "?P s" for s using steady_srtt(1) [OF x nz(1) [OF that(1)]] that(2) by (rule order_trans)
  have "nat \<bar>x - srtt (?f s)\<bar> < nat \<bar>x - srtt s\<bar>" if "?I s" "\<not> ?P s" for s
    using steady_srtt(2) [OF x nz(1) [OF that(1)], of c] that(2) by linarith
  from settles [where I = ?I and P = ?P and f = ?f and m = "\<lambda>s. nat \<bar>x - srtt s\<bar>", OF assms(5) I P this] obtain N where
    N: "\<forall>n \<ge> N. ?P ((?f ^^ n) s)" by blast
  have J: "?I ((?f ^^ n) s)" for n using assms(5) I by (induction n) auto
  let ?J = "\<lambda>s. ?I s \<and> ?P s" and ?Q = "\<lambda>s. rttvar s \<le> 10"
  have "\<exists>M. \<forall>n \<ge> M. ?Q ((?f ^^ n) ((?f ^^ N) s))"
  proof (rule settles [where I = ?J and m = "\<lambda>s. nat (rttvar s)"])
    show "?J ((?f ^^ N) s)" using J N by blast
    show "?J (?f s)" if "?J s" for s using that I P by blast
    show "?Q (?f s)" if "?J s" "?Q s" for s
      using steady_rttvar(1) [OF x] nz that by blast
    show "nat (rttvar (?f s)) < nat (rttvar s)" if "?J s" "\<not> ?Q s" for s
      using steady_rttvar(2) [OF x, of s c] nz [of s] that by (auto simp: not_le)
  qed
  then obtain M where M: "\<forall>n \<ge> M. ?Q ((?f ^^ n) ((?f ^^ N) s))" by blast
  have "?P ((?f ^^ n) s) \<and> ?Q ((?f ^^ n) s)" if "M + N \<le> n" for n
  proof -
    have "(?f ^^ n) s = (?f ^^ (n - N)) ((?f ^^ N) s)"
      using that funpow_add [of "n - N" N ?f] by simp
    moreover have "M \<le> n - N" "N \<le> n" using that by simp_all
    ultimately show ?thesis using N M by metis
  qed
  then show ?thesis by blast
qed

lemma fold_replicate: "fold f (replicate n x) s = (f x ^^ n) s"
  by (induction n arbitrary: s) (auto simp: funpow_swap1)

text \<open>C38 (liveness). The timeout adapts to the path and does not stay inflated: whatever the samples were
  before, once the path settles on a round trip of \<open>x\<close> nanoseconds the smoothed value comes within 7
  nanoseconds of it and the deviation below 11, for good, so the timeout is at most the floor or
  \<open>x + 47\<close>. The truncating divisions of the estimator cannot stop it earlier.\<close>

theorem rto_adapts:
  assumes "0 < x" and "x \<le> 2 ^ 60" and "\<forall>y \<in> set samples. 0 < y \<and> y \<le> 2 ^ 60"
  shows "\<exists>N. \<forall>n. \<exists>s. s = fold (updateRTO c) (samples @ replicate (N + n) x) (newRttState c) \<and>
    \<bar>x - srtt s\<bar> \<le> 7 \<and> 0 \<le> rttvar s \<and> rttvar s \<le> 10 \<and> currentRTO s \<le> max (minRetransmitTmout c) (x + 47)"
proof -
  let ?s = "fold (updateRTO c) (samples @ [x]) (newRttState c)" and ?h = "2 ^ 60 :: int"
  have e: "estimating c 1 ?h ?s" using assms by (intro updateRTO_start) auto
  from steady_estimate [OF _ _ assms(2) _ e] assms(1) obtain N where
    N: "\<forall>n \<ge> N. \<bar>x - srtt ((updateRTO c x ^^ n) ?s)\<bar> \<le> 7 \<and> rttvar ((updateRTO c x ^^ n) ?s) \<le> 10" by auto
  have "\<exists>s. s = fold (updateRTO c) (samples @ replicate (Suc N + n) x) (newRttState c) \<and>
      \<bar>x - srtt s\<bar> \<le> 7 \<and> 0 \<le> rttvar s \<and> rttvar s \<le> 10 \<and> currentRTO s \<le> max (minRetransmitTmout c) (x + 47)" for n
  proof -
    let ?t = "fold (updateRTO c) (samples @ replicate (Suc N + n) x) (newRttState c)"
    have t: "?t = (updateRTO c x ^^ (N + n)) ?s"
      by (simp add: fold_replicate funpow_swap1)
    have "estimating c 1 ?h ?t" using assms by (intro updateRTO_start) auto
    moreover have "\<bar>x - srtt ?t\<bar> \<le> 7" "rttvar ?t \<le> 10" using N t by simp_all
    ultimately show ?thesis by (auto simp: estimating_def currentRTO_def)
  qed
  then show ?thesis by blast
qed

theorem rto_adapts_witness:
  "\<exists>N. \<forall>n. \<exists>s. s = fold (updateRTO defaultConfig) ([900000000] @ replicate (N + n) 40000000) (newRttState defaultConfig) \<and>
    \<bar>40000000 - srtt s\<bar> \<le> 7 \<and> 0 \<le> rttvar s \<and> rttvar s \<le> 10 \<and>
    currentRTO s \<le> max (minRetransmitTmout defaultConfig) (40000000 + 47)"
  by (rule rto_adapts) simp_all

section \<open>In-flight caps\<close>



end
