(* ===== verification/Batch.thy ===== *)
theory Batch
  imports Stream Retransmit Rto
begin

text \<open>
  The batched send path of a connection (\<open>connection.go\<close>): message slots with their buffers and
  iovecs, zero-copy references into the retransmit arena, GSO packing, pacing classes and accounting,
  and the flush through \<open>sendmmsg\<close> or io_uring. All of it runs under \<open>sendMu\<close>, so an operation is one
  step.

  \<open>sendState\<close> holds the fields of \<open>Connection\<close> that \<open>sendMu\<close> guards, with the retransmission queue the
  slots point into. The two slot sets are functions of the set number 0 or 1; \<open>uringSet\<close> selects the
  active one, so \<open>c.sendEP\<close> and \<open>c.sendBufs\<close> are \<open>activeEP\<close> and \<open>activeBufs\<close>. An iovec points at nothing,
  into a slot's own buffer, or at an arena slice. The kernel writes \<open>NTransferred\<close> and the send path only
  clears it: it is left out.

  What the kernel, the socket and the pacer answer to the \<open>i\<close>-th flush is the argument \<open>K i\<close>. \<open>handed\<close>
  logs the bytes of the messages the kernel took, \<open>paceLog\<close> the visits to the pacer, and \<open>inKernel g\<close> is
  the number of messages of set \<open>g\<close> the kernel may still be reading.
\<close>

section \<open>State\<close>

datatype iovBase = IovNil | IovSlot nat nat | IovArena sliceHdr

record iovec =
  ibase :: iovBase
  ilen :: nat

record UdpEndpoint =
  Iov :: "iovec list"
  Iovlen :: "nat list"

record kernelRes =
  kShutdown :: bool
  kGrant :: bool
  kTaken :: nat
  kErrno :: nat
  kSubmit :: nat
  kWait :: nat
  kCollect :: nat

record paceReq =
  prWire :: int
  prUDP :: int
  prDatagrams :: nat
  prClass :: paceClass

record sendState =
  sendBufSets :: "nat \<Rightarrow> bytes list"
  sendEPs :: "nat \<Rightarrow> UdpEndpoint"
  sendLens :: "nat list"
  sendN :: nat
  iovsPer :: nat
  sendWireBytes :: int
  sendUDPBytes :: int
  sendDatagrams :: nat
  sendPaceClass :: paceClass
  uring :: bool
  uringSet :: nat
  uringMark :: nat
  gsoSize :: nat
  gsoMaxFrames :: nat
  packIdx :: "nat option"
  packFrames :: nat
  packBytes :: nat
  packHdrOff :: nat
  retransmit :: retransmitQueue
  flushNo :: nat
  handed :: "bytes list"
  paceLog :: "paceReq list"
  inKernel :: "nat \<Rightarrow> nat"

definition activeEP :: "sendState \<Rightarrow> UdpEndpoint" where
  "activeEP st = sendEPs st (uringSet st)"

definition activeBufs :: "sendState \<Rightarrow> bytes list" where
  "activeBufs st = sendBufSets st (uringSet st)"

definition setEP :: "UdpEndpoint \<Rightarrow> sendState \<Rightarrow> sendState" where
  "setEP ep st = st\<lparr>sendEPs := (sendEPs st)(uringSet st := ep)\<rparr>"

definition setBuf :: "nat \<Rightarrow> bytes \<Rightarrow> sendState \<Rightarrow> sendState" where
  "setBuf idx b st = st\<lparr>sendBufSets := (sendBufSets st)(uringSet st := (activeBufs st)[idx := b])\<rparr>"

section \<open>Construction\<close>

text \<open>The endpoints \<open>SetupVectors\<close> builds: the first iovec of each slot points at the slot's buffer.\<close>

definition setupEP :: "nat \<Rightarrow> nat \<Rightarrow> UdpEndpoint" where
  "setupEP n per = \<lparr>
     Iov = concat (map (\<lambda>i. \<lparr>ibase = IovSlot i 0, ilen = 0\<rparr> # replicate (per - 1) \<lparr>ibase = IovNil, ilen = 0\<rparr>) [0..<n]),
     Iovlen = replicate n 0\<rparr>"

definition maxGSOBytes :: int where "maxGSOBytes = 60000"

definition gsoFrames :: "config \<Rightarrow> bool \<Rightarrow> bool \<Rightarrow> nat \<times> nat" where
  "gsoFrames c segmentOk groOk =
     (let frames = maxGSOBytes sdiv maxDatagram c;
          (size, mx) = (if enableGSO c \<and> 2 \<le> frames \<and> segmentOk
                        then (nat (maxDatagram c), if 8 < frames then 8 else nat frames) else (0, 1))
      in if groOk then (size, mx) else (0, 1))"

definition newSendState :: "config \<Rightarrow> bool \<Rightarrow> bool \<Rightarrow> bool \<Rightarrow> sendState" where
  "newSendState c segmentOk groOk ringOk =
     (let (size, mx) = gsoFrames c segmentOk groOk; n = nat (batchSize c); per = 2 * mx;
          bufs = replicate n (replicate (nat (maxDatagram c)) 0)
      in \<lparr>sendBufSets = (\<lambda>_. bufs), sendEPs = (\<lambda>_. setupEP n per), sendLens = replicate n 0, sendN = 0, iovsPer = per,
          sendWireBytes = 0, sendUDPBytes = 0, sendDatagrams = 0, sendPaceClass = paceBulk,
          uring = (enableIOUring c \<and> ringOk), uringSet = 0, uringMark = 0, gsoSize = size, gsoMaxFrames = mx,
          packIdx = None, packFrames = 0, packBytes = 0, packHdrOff = 0,
          retransmit = newRetransmitQueue (nat (maxPayload c)),
          flushNo = 0, handed = [], paceLog = [], inKernel = (\<lambda>_. 0)\<rparr>)"

section \<open>What a message contains\<close>

text \<open>The bytes an iovec of set \<open>g\<close> points at, and the message the kernel gathers from \<open>n\<close> of them.\<close>

definition iovBytes :: "sendState \<Rightarrow> nat \<Rightarrow> iovec \<Rightarrow> bytes" where
  "iovBytes st g v =
     (case ibase v of
        IovNil \<Rightarrow> []
      | IovSlot i off \<Rightarrow> slice (sendBufSets st g ! i) off (off + ilen v)
      | IovArena sl \<Rightarrow> take (ilen v) (amem (arena (retransmit st)) (sbuf sl)))"

definition slotIovs :: "sendState \<Rightarrow> nat \<Rightarrow> nat \<Rightarrow> nat \<Rightarrow> iovec list" where
  "slotIovs st g i n = take n (drop (i * iovsPer st) (Iov (sendEPs st g)))"

definition gather :: "sendState \<Rightarrow> nat \<Rightarrow> nat \<Rightarrow> nat \<Rightarrow> bytes" where
  "gather st g i n = concat (map (iovBytes st g) (slotIovs st g i n))"

definition message :: "sendState \<Rightarrow> nat \<Rightarrow> nat \<Rightarrow> bytes" where
  "message st g i = gather st g i (Iovlen (sendEPs st g) ! i)"

section \<open>Headers\<close>

definition frameHdrLen :: "config \<Rightarrow> u8 \<Rightarrow> nat" where
  "frameHdrLen c ft = (if ft = frameData \<and> 0 < fecGroup c then frameHeaderSize + fecMetaLen else frameHeaderSize)"

definition writeFrameHdr :: "config \<Rightarrow> bytes \<Rightarrow> u8 \<Rightarrow> u32 \<Rightarrow> u32 \<Rightarrow> nat \<Rightarrow> (bytes \<times> nat) option" where
  "writeFrameHdr c buf ft stid sq dataLen = do {
     let hdrLen = frameHdrLen c ft;
     b \<leftarrow> encodeHeader buf ft stid sq (of_nat (hdrLen - frameHeaderSize + dataLen));
     b' \<leftarrow> put_bytes b frameHeaderSize (replicate (hdrLen - frameHeaderSize) 0);
     Some (b', hdrLen)
   }"

section \<open>Accounting\<close>

definition paceRank :: "paceClass \<Rightarrow> nat" where
  "paceRank cls = (case cls of paceCritical \<Rightarrow> 0 | paceRecovery \<Rightarrow> 1 | paceBulk \<Rightarrow> 2)"

definition accountDatagramLocked :: "config \<Rightarrow> nat \<Rightarrow> paceClass \<Rightarrow> sendState \<Rightarrow> sendState" where
  "accountDatagramLocked c udpBytes cls st =
     (case wirePacer c of
        None \<Rightarrow> st
      | Some p \<Rightarrow>
          let st1 = (if sendDatagrams st = 0 then st\<lparr>sendPaceClass := cls\<rparr>
                     else if paceRank (sendPaceClass st) < paceRank cls then st\<lparr>sendPaceClass := cls\<rparr>
                     else st)
          in st1\<lparr>sendUDPBytes := sendUDPBytes st1 + int udpBytes,
                 sendWireBytes := sendWireBytes st1 + Cost (accounting p) udpBytes,
                 sendDatagrams := sendDatagrams st1 + 1\<rparr>)"

definition pacingBatchFullLocked :: "config \<Rightarrow> sendState \<Rightarrow> bool" where
  "pacingBatchFullLocked c st = (case wirePacer c of None \<Rightarrow> False | Some p \<Rightarrow> burstBytes p \<le> sendWireBytes st)"

definition resetBatchAccountingLocked :: "sendState \<Rightarrow> sendState" where
  "resetBatchAccountingLocked st =
     st\<lparr>sendWireBytes := 0, sendUDPBytes := 0, sendDatagrams := 0, sendPaceClass := paceBulk\<rparr>"

section \<open>Flushing\<close>

definition closePackLocked :: "sendState \<Rightarrow> sendState" where
  "closePackLocked st =
     (case packIdx st of
        None \<Rightarrow> st
      | Some idx \<Rightarrow>
          let ep = activeEP st in
          (setEP (ep\<lparr>Iovlen := (Iovlen ep)[idx := 2 * packFrames st]\<rparr>) st)
            \<lparr>sendLens := (sendLens st)[idx := packBytes st], packIdx := None\<rparr>)"

text \<open>The errno of a system call as the error the caller returns.\<close>

definition errnoErr :: "nat \<Rightarrow> err option" where
  "errnoErr n = (if n = 0 then None else Some (Errno n))"

definition hand :: "nat \<Rightarrow> nat \<Rightarrow> sendState \<Rightarrow> sendState" where
  "hand g n st = st\<lparr>handed := handed st @ map (message st g) [0..<n]\<rparr>"

definition asyncBytesMin :: nat where "asyncBytesMin = 16 * 1024"

definition sqeAsync :: "nat \<Rightarrow> sendState \<Rightarrow> bool" where
  "sqeAsync n st \<longleftrightarrow> asyncBytesMin \<le> sum_list (take n (sendLens st))"

text \<open>\<open>submitSendmsg\<close> leaves the messages with the kernel; whether it works inline or on a worker
  (\<open>sqeAsync\<close>) changes when it reads them, not what the caller may assume.\<close>

definition flushSendUringLocked :: "kernelRes \<Rightarrow> nat \<Rightarrow> sendState \<Rightarrow> err option \<times> sendState" where
  "flushSendUringLocked r n st =
     (let g = uringSet st in
      if kSubmit r \<noteq> 0
      then (errnoErr (kSubmit r),
            (hand g (min (kTaken r) n) st)\<lparr>inKernel := (inKernel st)(g := min (kTaken r) n)\<rparr>)
      else
        let st1 = (hand g n st)\<lparr>inKernel := (inKernel st)(g := n)\<rparr>;
            st2 = st1\<lparr>uringSet := 1 - g\<rparr>
        in if kWait r \<noteq> 0 then (errnoErr (kWait r), st2)
           else
             let st3 = st2\<lparr>inKernel := (inKernel st2)(uringSet st2 := 0)\<rparr>;
                 q = drainPendingFreeFirst (uringMark st3) (retransmit st3);
                 st4 = st3\<lparr>retransmit := q, uringMark := pendingFreeLen q\<rparr>
             in (errnoErr (kCollect r), st4))"

definition flushSendLocked :: "config \<Rightarrow> (nat \<Rightarrow> kernelRes) \<Rightarrow> sendState \<Rightarrow> err option \<times> sendState" where
  "flushSendLocked c K st0 =
     (let st = closePackLocked st0 in
      if sendN st = 0 then (None, resetBatchAccountingLocked st)
      else
        let r = K (flushNo st); st = st\<lparr>flushNo := flushNo st + 1\<rparr> in
        if kShutdown r then (Some ErrClosed, resetBatchAccountingLocked (st\<lparr>sendN := 0\<rparr>))
        else
          let n = sendN st;
              st = (if wirePacer c = None then st
                    else st\<lparr>paceLog := paceLog st @ [\<lparr>prWire = sendWireBytes st, prUDP = sendUDPBytes st,
                              prDatagrams = sendDatagrams st, prClass = sendPaceClass st\<rparr>]\<rparr>)
          in if wirePacer c \<noteq> None \<and> \<not> kGrant r
             then (Some ErrClosed, resetBatchAccountingLocked (st\<lparr>sendN := 0\<rparr>))
             else
               let st = resetBatchAccountingLocked (st\<lparr>sendN := 0\<rparr>) in
               if uring st then flushSendUringLocked r n st
               else
                 let st = hand (uringSet st) (if kErrno r = 0 then n else min (kTaken r) n) st
                 in (errnoErr (kErrno r), st\<lparr>retransmit := drainPendingFree (retransmit st)\<rparr>))"

definition flushSend :: "config \<Rightarrow> (nat \<Rightarrow> kernelRes) \<Rightarrow> sendState \<Rightarrow> err option \<times> sendState" where
  "flushSend c K st = flushSendLocked c K st"

definition splitPacingClassLocked ::
  "config \<Rightarrow> (nat \<Rightarrow> kernelRes) \<Rightarrow> paceClass \<Rightarrow> sendState \<Rightarrow> err option \<times> sendState" where
  "splitPacingClassLocked c K cls st =
     (if wirePacer c \<noteq> None \<and> 0 < sendDatagrams st \<and> sendPaceClass st \<noteq> cls then flushSendLocked c K st
      else (None, st))"

section \<open>Slots\<close>

definition acquireSendSlot ::
  "config \<Rightarrow> (nat \<Rightarrow> kernelRes) \<Rightarrow> paceClass \<Rightarrow> sendState \<Rightarrow> ((err + nat) \<times> sendState) option" where
  "acquireSendSlot c K cls st0 =
     (case splitPacingClassLocked c K cls (closePackLocked st0) of
        (Some er, st) \<Rightarrow> Some (Inl er, st)
      | (None, st) \<Rightarrow>
          (case (if nat (batchSize c) \<le> sendN st then flushSendLocked c K st else (None, st)) of
             (Some er, st') \<Rightarrow> Some (Inl er, st')
           | (None, st') \<Rightarrow> if sendN st' < length (activeBufs st') then Some (Inr (sendN st'), st') else None))"

text \<open>The end of both commit functions: the flush when the batch is full.\<close>

definition flushIfFull :: "config \<Rightarrow> (nat \<Rightarrow> kernelRes) \<Rightarrow> sendState \<Rightarrow> err option \<times> sendState" where
  "flushIfFull c K st =
     (if nat (batchSize c) \<le> sendN st \<or> pacingBatchFullLocked c st then flushSendLocked c K st else (None, st))"

definition commitSendSlot ::
  "config \<Rightarrow> (nat \<Rightarrow> kernelRes) \<Rightarrow> nat \<Rightarrow> nat \<Rightarrow> paceClass \<Rightarrow> sendState \<Rightarrow> err option \<times> sendState" where
  "commitSendSlot c K idx n cls st =
     (let base = idx * iovsPer st; ep = activeEP st;
          ep1 = ep\<lparr>Iov := (Iov ep)[base := (Iov ep ! base)\<lparr>ilen := n\<rparr>], Iovlen := (Iovlen ep)[idx := 1]\<rparr>;
          st1 = (setEP ep1 st)\<lparr>sendLens := (sendLens st)[idx := n], sendN := idx + 1\<rparr>
      in flushIfFull c K (accountDatagramLocked c n cls st1))"

definition payloadIov :: "sliceHdr \<Rightarrow> iovec" where
  "payloadIov sl = \<lparr>ibase = (if 0 < slen sl then IovArena sl else IovNil), ilen = slen sl\<rparr>"

definition commitSendSlotZeroCopy ::
  "config \<Rightarrow> (nat \<Rightarrow> kernelRes) \<Rightarrow> nat \<Rightarrow> nat \<Rightarrow> sliceHdr \<Rightarrow> paceClass \<Rightarrow> sendState \<Rightarrow> err option \<times> sendState" where
  "commitSendSlotZeroCopy c K idx hdrLen sl cls st =
     (let base = idx * iovsPer st; ep = activeEP st;
          ep1 = ep\<lparr>Iov := (Iov ep)[base := (Iov ep ! base)\<lparr>ilen := hdrLen\<rparr>, base + 1 := payloadIov sl],
                   Iovlen := (Iovlen ep)[idx := 2]\<rparr>;
          st1 = (setEP ep1 st)\<lparr>sendLens := (sendLens st)[idx := hdrLen + slen sl], sendN := idx + 1\<rparr>
      in flushIfFull c K (accountDatagramLocked c (hdrLen + slen sl) cls st1))"

text \<open>Acquire, encode into the slot's buffer, commit: the shape of every sender of a fully encoded frame.\<close>

definition queueEncoded ::
  "config \<Rightarrow> (nat \<Rightarrow> kernelRes) \<Rightarrow> paceClass \<Rightarrow> (bytes \<Rightarrow> (bytes \<times> nat) option) \<Rightarrow> sendState
    \<Rightarrow> (err option \<times> sendState) option" where
  "queueEncoded c K cls enc st = do {
     (r, st1) \<leftarrow> acquireSendSlot c K cls st;
     (case r of
        Inl er \<Rightarrow> Some (Some er, st1)
      | Inr idx \<Rightarrow> do {
          (b, n) \<leftarrow> enc (activeBufs st1 ! idx);
          Some (commitSendSlot c K idx n cls (setBuf idx b st1))
        })
   }"

text \<open>Acquire, write the header, commit with the payload by reference.\<close>

definition queueZeroCopy ::
  "config \<Rightarrow> (nat \<Rightarrow> kernelRes) \<Rightarrow> paceClass \<Rightarrow> u8 \<Rightarrow> u32 \<Rightarrow> u32 \<Rightarrow> sliceHdr \<Rightarrow> sendState
    \<Rightarrow> (err option \<times> sendState) option" where
  "queueZeroCopy c K cls ft stid sq sl st = do {
     (r, st1) \<leftarrow> acquireSendSlot c K cls st;
     (case r of
        Inl er \<Rightarrow> Some (Some er, st1)
      | Inr idx \<Rightarrow> do {
          (b, hdrLen) \<leftarrow> writeFrameHdr c (activeBufs st1 ! idx) ft stid sq (slen sl);
          Some (commitSendSlotZeroCopy c K idx hdrLen sl cls (setBuf idx b st1))
        })
   }"

text \<open>\<open>flushSend\<close> after a queueing that succeeded.\<close>

definition thenFlush ::
  "config \<Rightarrow> (nat \<Rightarrow> kernelRes) \<Rightarrow> (err option \<times> sendState) option \<Rightarrow> (err option \<times> sendState) option" where
  "thenFlush c K res =
     (case res of
        None \<Rightarrow> None
      | Some (Some er, st) \<Rightarrow> Some (Some er, st)
      | Some (None, st) \<Rightarrow> Some (flushSend c K st))"

section \<open>GSO packing\<close>

text \<open>Opening a message to pack frames into.\<close>

definition openPack :: "config \<Rightarrow> (nat \<Rightarrow> kernelRes) \<Rightarrow> sendState \<Rightarrow> err option \<times> sendState" where
  "openPack c K st =
     (if packIdx st \<noteq> None then (None, st)
      else
        case (if nat (batchSize c) \<le> sendN st then flushSendLocked c K st else (None, st)) of
          (Some er, st') \<Rightarrow> (Some er, st')
        | (None, st') \<Rightarrow>
            (None, st'\<lparr>packIdx := Some (sendN st'), sendN := sendN st' + 1, packFrames := 0, packBytes := 0,
                       packHdrOff := 0\<rparr>))"

text \<open>One frame goes into the open message. The header is written at \<open>packHdrOff\<close> of the slot's buffer: a
  panic when it does not fit there.\<close>

definition packFrame ::
  "config \<Rightarrow> u8 \<Rightarrow> u32 \<Rightarrow> u32 \<Rightarrow> sliceHdr \<Rightarrow> nat \<Rightarrow> sendState \<Rightarrow> (nat \<times> sendState) option" where
  "packFrame c ft stid sq sl idx st =
     (if idx < length (activeBufs st) \<and> packHdrOff st \<le> length (activeBufs st ! idx) then do {
        let buf = activeBufs st ! idx;
        (h, hdrLen) \<leftarrow> writeFrameHdr c (drop (packHdrOff st) buf) ft stid sq (slen sl);
        let st1 = setBuf idx (take (packHdrOff st) buf @ h) st;
        let base = idx * iovsPer st + 2 * packFrames st;
        let ep = activeEP st;
        let ep1 = ep\<lparr>Iov := (Iov ep)[base := \<lparr>ibase = IovSlot idx (packHdrOff st), ilen = hdrLen\<rparr>,
                                       base + 1 := payloadIov sl]\<rparr>;
        let st2 = (setEP ep1 st1)\<lparr>packFrames := packFrames st + 1, packHdrOff := packHdrOff st + hdrLen,
                     packBytes := packBytes st + hdrLen + slen sl\<rparr>;
        Some (hdrLen, accountDatagramLocked c (hdrLen + slen sl) paceBulk st2)
      } else None)"

definition queueFrameGSOLocked ::
  "config \<Rightarrow> (nat \<Rightarrow> kernelRes) \<Rightarrow> u8 \<Rightarrow> u32 \<Rightarrow> u32 \<Rightarrow> sliceHdr \<Rightarrow> sendState \<Rightarrow> (err option \<times> sendState) option" where
  "queueFrameGSOLocked c K ft stid sq sl st0 =
     (case (if wirePacer c \<noteq> None \<and> 0 < sendDatagrams st0 \<and> sendPaceClass st0 \<noteq> paceBulk
            then splitPacingClassLocked c K paceBulk (closePackLocked st0) else (None, st0)) of
        (Some er, st) \<Rightarrow> Some (Some er, st)
      | (None, st) \<Rightarrow>
          (case openPack c K st of
             (Some er, st1) \<Rightarrow> Some (Some er, st1)
           | (None, st1) \<Rightarrow> do {
               idx \<leftarrow> packIdx st1;
               (hdrLen, st2) \<leftarrow> packFrame c ft stid sq sl idx st1;
               let full = (gsoSize st2 \<le> hdrLen + slen sl);
               Some (if gsoMaxFrames st2 \<le> packFrames st2 \<or> \<not> full \<or> pacingBatchFullLocked c st2
                     then flushIfFull c K (closePackLocked st2) else (None, st2))
             }))"

section \<open>The senders\<close>

definition sendDataFrame ::
  "config \<Rightarrow> (nat \<Rightarrow> kernelRes) \<Rightarrow> time \<Rightarrow> u32 \<Rightarrow> u32 \<Rightarrow> bytes \<Rightarrow> sendState \<Rightarrow> (err option \<times> sendState) option" where
  "sendDataFrame c K now stid sq pl st =
     (let (sl, q) = queueAdd now frameData stid sq pl (retransmit st);
          st1 = st\<lparr>retransmit := q\<rparr>
      in if 2 \<le> gsoMaxFrames st1 then queueFrameGSOLocked c K frameData stid sq sl st1
         else queueZeroCopy c K paceBulk frameData stid sq sl st1)"

definition fecMeta :: "nat \<Rightarrow> nat \<Rightarrow> u32" where
  "fecMeta count xorLen = push_bit 16 (of_nat count) OR of_nat xorLen"

definition encodeFec :: "u8 \<Rightarrow> u32 \<Rightarrow> u32 \<Rightarrow> nat \<Rightarrow> nat \<Rightarrow> bytes \<Rightarrow> bytes \<Rightarrow> (bytes \<times> nat) option" where
  "encodeFec ft stid base count xorLen xorData buf = do {
     b \<leftarrow> encodeHeader buf ft stid base (of_nat (fecMetaLen + length xorData));
     b' \<leftarrow> put_bytes b frameHeaderSize (be32 (fecMeta count xorLen));
     Some (go_copy b' (frameHeaderSize + fecMetaLen) xorData, frameHeaderSize + fecMetaLen + length xorData)
   }"

definition sendFecFrame ::
  "config \<Rightarrow> (nat \<Rightarrow> kernelRes) \<Rightarrow> u8 \<Rightarrow> u32 \<Rightarrow> u32 \<Rightarrow> nat \<Rightarrow> nat \<Rightarrow> bytes \<Rightarrow> sendState
    \<Rightarrow> (err option \<times> sendState) option" where
  "sendFecFrame c K ft stid base count xorLen xorData st =
     queueEncoded c K paceBulk (encodeFec ft stid base count xorLen xorData) st"

definition sendReliableFrame ::
  "config \<Rightarrow> (nat \<Rightarrow> kernelRes) \<Rightarrow> time \<Rightarrow> u8 \<Rightarrow> u32 \<Rightarrow> u32 \<Rightarrow> bytes \<Rightarrow> sendState \<Rightarrow> (err option \<times> sendState) option" where
  "sendReliableFrame c K now ft stid sq pl st =
     (let (sl, q) = queueAdd now ft stid sq pl (retransmit st)
      in thenFlush c K (queueZeroCopy c K paceCritical ft stid sq sl (st\<lparr>retransmit := q\<rparr>)))"

definition encodeWindowUpdate :: "u32 \<Rightarrow> u64 \<Rightarrow> bytes \<Rightarrow> (bytes \<times> nat) option" where
  "encodeWindowUpdate stid offset buf = do {
     b \<leftarrow> encodeHeader buf frameWindowUpdate stid 0 8;
     b' \<leftarrow> put_bytes b frameHeaderSize (be64 offset);
     Some (b', frameHeaderSize + 8)
   }"

definition queueWindowUpdate ::
  "config \<Rightarrow> (nat \<Rightarrow> kernelRes) \<Rightarrow> u32 \<Rightarrow> u64 \<Rightarrow> sendState \<Rightarrow> (err option \<times> sendState) option" where
  "queueWindowUpdate c K stid offset st = queueEncoded c K paceCritical (encodeWindowUpdate stid offset) st"

definition sendWindowUpdate ::
  "config \<Rightarrow> (nat \<Rightarrow> kernelRes) \<Rightarrow> u32 \<Rightarrow> u64 \<Rightarrow> sendState \<Rightarrow> (err option \<times> sendState) option" where
  "sendWindowUpdate c K stid offset st = thenFlush c K (queueWindowUpdate c K stid offset st)"

definition encodeControl :: "u8 \<Rightarrow> u32 \<Rightarrow> u32 \<Rightarrow> bytes \<Rightarrow> (bytes \<times> nat) option" where
  "encodeControl ft stid sq buf = do {
     b \<leftarrow> encodeHeader buf ft stid sq 0;
     Some (b, frameHeaderSize)
   }"

definition sendControlFrame ::
  "config \<Rightarrow> (nat \<Rightarrow> kernelRes) \<Rightarrow> u8 \<Rightarrow> u32 \<Rightarrow> u32 \<Rightarrow> sendState \<Rightarrow> (err option \<times> sendState) option" where
  "sendControlFrame c K ft stid sq st = thenFlush c K (queueEncoded c K paceCritical (encodeControl ft stid sq) st)"

definition queueACKFrame ::
  "config \<Rightarrow> (nat \<Rightarrow> kernelRes) \<Rightarrow> u32 \<Rightarrow> u32 \<Rightarrow> u32 list \<Rightarrow> sendState \<Rightarrow> (err option \<times> sendState) option" where
  "queueACKFrame c K stid cum seqs st = queueEncoded c K paceCritical (\<lambda>b. encodeAckFrame b stid cum seqs) st"

definition sendACKFrame ::
  "config \<Rightarrow> (nat \<Rightarrow> kernelRes) \<Rightarrow> u32 \<Rightarrow> u32 \<Rightarrow> u32 list \<Rightarrow> sendState \<Rightarrow> (err option \<times> sendState) option" where
  "sendACKFrame c K stid cum seqs st = thenFlush c K (queueACKFrame c K stid cum seqs st)"

definition queueNackFrame ::
  "config \<Rightarrow> (nat \<Rightarrow> kernelRes) \<Rightarrow> u32 \<Rightarrow> u32 list \<Rightarrow> sendState \<Rightarrow> (err option \<times> sendState) option" where
  "queueNackFrame c K stid seqs st = queueEncoded c K paceCritical (\<lambda>b. encodeSeqListFrame b frameNack stid 0 seqs) st"

definition sendNackFrame ::
  "config \<Rightarrow> (nat \<Rightarrow> kernelRes) \<Rightarrow> u32 \<Rightarrow> u32 list \<Rightarrow> sendState \<Rightarrow> (err option \<times> sendState) option" where
  "sendNackFrame c K stid seqs st = thenFlush c K (queueNackFrame c K stid seqs st)"

text \<open>The callback queues one frame per chunk; its state is \<open>None\<close> after a panic.\<close>

definition nackChunk ::
  "config \<Rightarrow> (nat \<Rightarrow> kernelRes) \<Rightarrow> u32 \<Rightarrow> sendState option \<Rightarrow> u32 list \<Rightarrow> (err option + unit) \<times> sendState option" where
  "nackChunk c K stid s chunk =
     (case s of
        None \<Rightarrow> (Inl None, None)
      | Some st \<Rightarrow>
          (case queueNackFrame c K stid chunk st of
             None \<Rightarrow> (Inl None, None)
           | Some (Some er, st') \<Rightarrow> (Inl (Some er), Some st')
           | Some (None, st') \<Rightarrow> (Inr (), Some st')))"

definition sendNackFrames ::
  "config \<Rightarrow> (nat \<Rightarrow> kernelRes) \<Rightarrow> u32 \<Rightarrow> u32 list \<Rightarrow> sendState \<Rightarrow> (err option \<times> sendState) option" where
  "sendNackFrames c K stid seqs st =
     (let maxSeqs = maxAckSeqsPerFrame (maxPayload c) in
      if maxSeqs \<le> 0 then Some (Some (ErrFrame SeqListNoCapacity), st)
      else
        case seqListChunkLoop (nat maxSeqs) (nackChunk c K stid) seqs (Some st) of
          (_, None) \<Rightarrow> None
        | (Inl er, Some st') \<Rightarrow> Some (er, st')
        | (Inr _, Some st') \<Rightarrow> Some (flushSend c K st'))"

text \<open>The bytes of the resent frame are the worker's copy, read from its arena slice.\<close>

definition encodeResend :: "config \<Rightarrow> u8 \<Rightarrow> u32 \<Rightarrow> u32 \<Rightarrow> bytes \<Rightarrow> bytes \<Rightarrow> (bytes \<times> nat) option" where
  "encodeResend c ft stid sq pl buf = do {
     (b, hdrLen) \<leftarrow> writeFrameHdr c buf ft stid sq (length pl);
     Some (go_copy b hdrLen pl, hdrLen + length pl)
   }"

definition queueResendCopy ::
  "config \<Rightarrow> (nat \<Rightarrow> kernelRes) \<Rightarrow> retransmitEntry \<Rightarrow> sendState \<Rightarrow> (err option \<times> sendState) option" where
  "queueResendCopy c K e st =
     queueEncoded c K paceRecovery
       (encodeResend c (eftype e) (estreamID e) (eseq e) (sliceRead (dataOf e) (arena (retransmit st)))) st"

definition sendResetNoQueue ::
  "config \<Rightarrow> (nat \<Rightarrow> kernelRes) \<Rightarrow> u32 \<Rightarrow> u64 \<Rightarrow> sendState \<Rightarrow> (err option \<times> sendState) option" where
  "sendResetNoQueue c K stid code st =
     thenFlush c K (queueEncoded c K paceCritical (\<lambda>b. encodeFrame b frameStreamReset stid 0 (resetPayload code)) st)"

definition sendHandshake ::
  "config \<Rightarrow> (nat \<Rightarrow> kernelRes) \<Rightarrow> u64 \<Rightarrow> sendState \<Rightarrow> (err option \<times> sendState) option" where
  "sendHandshake c K connID st =
     thenFlush c K (queueEncoded c K paceCritical (\<lambda>b. encodeFrame b frameHandshake 0 0 (handshakePayload connID)) st)"

end
