(* ===== verification/BatchInv.thy ===== *)
theory BatchInv
  imports Batch RetransmitProps "HOL-Library.Sublist"
begin

text \<open>
  The invariant of the batched send path. A pending frame is an \<open>item\<close>, its pacing class and its wire
  image; \<open>pend\<close> lists the items of each occupied slot, \<open>H\<close> those of each message handed to the kernel,
  \<open>F\<close> those of the messages the kernel may still be reading. The invariant says that what the iovecs of
  a slot point at is the concatenation of its items, that every item of a message but the last fills a
  segment, that zero-copy references point at buffers the queue has not recycled, and that the
  accounting fields add up.
\<close>

section \<open>Slots of the flat iovec array\<close>

lemma slot_upd_other:
  assumes "i \<noteq> j" "n \<le> P" "k < P"
  shows "take n (drop (i * P) (xs[j * P + k := v])) = take n (drop (i * P) xs)"
proof (cases "i < j")
  case True
  then have "Suc i * P \<le> j * P" by (intro mult_le_mono1) simp
  then have "n \<le> j * P + k - i * P" "i * P \<le> j * P + k" using assms by simp_all
  then show ?thesis by (simp add: drop_update_swap take_update_cancel)
next
  case False
  with assms have "Suc j * P \<le> i * P" by (intro mult_le_mono1) simp
  then show ?thesis using assms by (simp add: drop_update_cancel)
qed

lemma slot_upd_beyond: "n \<le> k \<Longrightarrow> take n (drop (i * P) (xs[i * P + k := v])) = take n (drop (i * P) xs)"
  by (simp add: drop_update_swap take_update_cancel)

lemma slot_grow:
  assumes "i < B" "Suc k < P" "length xs = B * P"
  shows "take (Suc (Suc k)) (drop (i * P) (xs[i * P + k := u, Suc (i * P + k) := v]))
    = take k (drop (i * P) xs) @ [u, v]"
proof -
  have "Suc i * P \<le> B * P" using assms(1) by (intro mult_le_mono1) simp
  then have l: "Suc (Suc k) \<le> length (drop (i * P) xs)" using assms by simp
  have "drop (i * P) (xs[i * P + k := u, Suc (i * P + k) := v]) = (drop (i * P) xs)[k := u, Suc k := v]"
    by (simp add: drop_update_swap)
  then show ?thesis
    using l by (simp add: take_Suc_conv_app_nth take_update_cancel)
qed

lemma slot_first:
  assumes "i < B" "0 < P" "length xs = B * P"
  shows "take (Suc 0) (drop (i * P) xs) = [xs ! (i * P)]"
proof -
  have "Suc i * P \<le> B * P" using assms(1) by (intro mult_le_mono1) simp
  then have "i * P < length xs" using assms by simp
  then show ?thesis by (simp add: take_Suc_conv_app_nth)
qed

lemma slice_take: "off + n \<le> bd \<Longrightarrow> slice (take bd xs) off (off + n) = slice xs off (off + n)"
  by (simp add: slice_def min_def drop_take)

section \<open>References\<close>

definition iovok :: "retransmitQueue \<Rightarrow> nat \<Rightarrow> nat \<Rightarrow> iovec \<Rightarrow> bool" where
  "iovok q i bd v =
     (case ibase v of
        IovNil \<Rightarrow> True
      | IovSlot j off \<Rightarrow> j = i \<and> off + ilen v \<le> bd
      | IovArena sl \<Rightarrow> sl \<in> held q)"

definition slotok :: "sendState \<Rightarrow> nat \<Rightarrow> nat \<Rightarrow> nat \<Rightarrow> nat \<Rightarrow> bytes list \<Rightarrow> bool" where
  "slotok st g i n bd fs \<longleftrightarrow> n \<le> iovsPer st \<and>
     (\<forall>v \<in> set (slotIovs st g i n). iovok (retransmit st) i bd v) \<and> gather st g i n = concat fs"

text \<open>The buffers of the queue keep their contents, and those in use stay in use.\<close>

definition stable :: "sliceHdr set \<Rightarrow> retransmitQueue \<Rightarrow> retransmitQueue \<Rightarrow> bool" where
  "stable S q q' \<longleftrightarrow> S \<subseteq> held q' \<and> (\<forall>sl \<in> S. amem (arena q') (sbuf sl) = amem (arena q) (sbuf sl))"

definition refs :: "sendState \<Rightarrow> nat \<Rightarrow> nat \<Rightarrow> nat \<Rightarrow> sliceHdr set" where
  "refs st g i n = {sl. \<exists>v \<in> set (slotIovs st g i n). ibase v = IovArena sl}"

lemma refs_held: "slotok st g i n bd fs \<Longrightarrow> refs st g i n \<subseteq> held (retransmit st)"
  by (force simp: slotok_def refs_def iovok_def)

lemma slotok_cong:
  assumes ok: "slotok st g i n bd fs"
    and iovs: "slotIovs st' g i n = slotIovs st g i n" "iovsPer st' = iovsPer st"
    and buf: "take bd (sendBufSets st' g ! i) = take bd (sendBufSets st g ! i)"
    and st: "stable (refs st g i n) (retransmit st) (retransmit st')"
  shows "slotok st' g i n bd fs"
proof -
  have "iovBytes st' g v = iovBytes st g v \<and> iovok (retransmit st') i bd v"
    if v: "v \<in> set (slotIovs st g i n)" for v
  proof (cases "ibase v")
    case (IovSlot j off)
    with ok v have "j = i" "off + ilen v \<le> bd" by (auto simp: slotok_def iovok_def)
    moreover from this slice_take [of off "ilen v" bd] buf
    have "slice (sendBufSets st' g ! i) off (off + ilen v) = slice (sendBufSets st g ! i) off (off + ilen v)"
      by metis
    ultimately show ?thesis using IovSlot by (simp add: iovBytes_def iovok_def)
  next
    case (IovArena sl)
    then have "sl \<in> refs st g i n" using v by (auto simp: refs_def)
    then show ?thesis using IovArena st by (auto simp: iovBytes_def iovok_def stable_def)
  qed (simp_all add: iovBytes_def iovok_def)
  then have "gather st' g i n = gather st g i n" "\<forall>v \<in> set (slotIovs st g i n). iovok (retransmit st') i bd v"
    by (auto simp: gather_def iovs(1) cong: map_cong)
  then show ?thesis using ok iovs by (simp add: slotok_def)
qed

lemma slotok_mono: "slotok st g i n bd fs \<Longrightarrow> bd \<le> bd' \<Longrightarrow> slotok st g i n bd' fs"
  by (fastforce simp: slotok_def iovok_def split: iovBase.splits)

lemma stable_refl: "S \<subseteq> held q \<Longrightarrow> stable S q q"
  by (simp add: stable_def)

lemma stable_sub: "stable S q q' \<Longrightarrow> S' \<subseteq> S \<Longrightarrow> stable S' q q'"
  by (auto simp: stable_def)

section \<open>Messages and segments\<close>

type_synonym item = "paceClass \<times> bytes"

definition segs :: "nat \<Rightarrow> bytes list \<Rightarrow> bool" where
  "segs sz fs \<longleftrightarrow> fs \<noteq> [] \<and> (\<forall>f \<in> set (butlast fs). length f = sz) \<and> fs \<noteq> [] \<and>
     0 < length (last fs) \<and> length (last fs) \<le> sz"

text \<open>Cutting a message at the segment size gives back its frames.\<close>

lemma chunks_of_segs: "segs sz fs \<Longrightarrow> chunks_of sz (concat fs) = fs"
proof (induction fs)
  case (Cons f fs)
  show ?case
  proof (cases "fs = []")
    case True
    then have "0 < length f" "length f \<le> sz" using Cons.prems by (auto simp: segs_def)
    moreover from this have "0 < sz" by linarith
    ultimately show ?thesis using True by (simp add: chunks_of.simps [of sz f] chunks_of.simps [of sz "[]"])
  next
    case False
    then have f: "length f = sz" and s: "segs sz fs" using Cons.prems by (auto simp: segs_def)
    then have "0 < sz" by (auto simp: segs_def)
    then have "f @ concat fs \<noteq> []" using f by auto
    then show ?thesis using f \<open>0 < sz\<close> Cons.IH [OF s] by (simp add: chunks_of.simps [of sz "f @ concat fs"])
  qed
qed (simp add: segs_def)

lemma segs_single: "0 < length f \<Longrightarrow> length f \<le> sz \<Longrightarrow> segs sz [f]"
  by (simp add: segs_def)

lemma segs_snoc: "\<forall>f \<in> set fs. length f = sz \<Longrightarrow> 0 < length f \<Longrightarrow> length f \<le> sz \<Longrightarrow> segs sz (fs @ [f])"
  by (simp add: segs_def)

section \<open>The invariant\<close>

definition slots :: "config \<Rightarrow> nat" where "slots c = nat (batchSize c)"
definition dgram :: "config \<Rightarrow> nat" where "dgram c = nat (maxDatagram c)"

text \<open>Sizes that never change, and the first iovec of a slot, which always points at the slot's buffer. The
  last conjunct is what keeps a full pack of headers inside one buffer.\<close>

definition setok :: "config \<Rightarrow> nat \<Rightarrow> bytes list \<Rightarrow> UdpEndpoint \<Rightarrow> bool" where
  "setok c per bufs ep \<longleftrightarrow> length bufs = slots c \<and> (\<forall>i < slots c. length (bufs ! i) = dgram c) \<and>
     length (Iov ep) = slots c * per \<and> length (Iovlen ep) = slots c \<and>
     (\<forall>i < slots c. ibase (Iov ep ! (i * per)) = IovSlot i 0)"

definition shape :: "config \<Rightarrow> sendState \<Rightarrow> bool" where
  "shape c st \<longleftrightarrow> 0 < slots c \<and> frameHeaderSize + 12 \<le> dgram c \<and> length (sendLens st) = slots c \<and> uringSet st < 2 \<and>
     iovsPer st = 2 * gsoMaxFrames st \<and> 0 < gsoMaxFrames st \<and>
     (\<forall>g. setok c (iovsPer st) (sendBufSets st g) (sendEPs st g)) \<and>
     (2 \<le> gsoMaxFrames st \<longrightarrow> gsoSize st = dgram c \<and>
        gsoMaxFrames st * (frameHeaderSize + (if 0 < fecGroup c then fecMetaLen else 0)) \<le> dgram c)"

lemma shapeD:
  assumes "shape c st"
  shows "0 < slots c" "frameHeaderSize + 12 \<le> dgram c" "length (sendLens st) = slots c" "uringSet st < 2"
    "iovsPer st = 2 * gsoMaxFrames st" "0 < gsoMaxFrames st" "setok c (iovsPer st) (sendBufSets st g) (sendEPs st g)"
    "2 \<le> gsoMaxFrames st \<Longrightarrow> gsoSize st = dgram c"
    "2 \<le> gsoMaxFrames st \<Longrightarrow> gsoMaxFrames st * (frameHeaderSize + (if 0 < fecGroup c then fecMetaLen else 0)) \<le> dgram c"
  using assms unfolding shape_def by blast+

text \<open>The fields an operation on the active set leaves alone.\<close>

definition fixedPart :: "sendState \<Rightarrow> nat \<times> nat \<times> nat \<times> nat \<times> nat" where
  "fixedPart st = (length (sendLens st), uringSet st, iovsPer st, gsoMaxFrames st, gsoSize st)"

lemma fixedPartD:
  assumes "fixedPart st' = fixedPart st"
  shows "length (sendLens st') = length (sendLens st)" "uringSet st' = uringSet st" "iovsPer st' = iovsPer st"
    "gsoMaxFrames st' = gsoMaxFrames st" "gsoSize st' = gsoSize st"
  using assms by (simp_all add: fixedPart_def)

lemma shape_active:
  assumes "shape c st" "fixedPart st' = fixedPart st"
    "\<And>g. g \<noteq> uringSet st \<Longrightarrow> sendBufSets st' g = sendBufSets st g \<and> sendEPs st' g = sendEPs st g"
    "setok c (iovsPer st) (activeBufs st') (activeEP st')"
  shows "shape c st'"
proof -
  note f = fixedPartD [OF assms(2)]
  have "setok c (iovsPer st') (sendBufSets st' g) (sendEPs st' g)" for g
    using shapeD(7) [OF assms(1)] assms(3,4) by (cases "g = uringSet st") (simp_all add: f activeBufs_def activeEP_def)
  then show ?thesis using assms(1) unfolding shape_def f by blast
qed

lemma shape_set: "shape c st \<Longrightarrow> setok c (iovsPer st) (activeBufs st) (activeEP st)"
  unfolding activeBufs_def activeEP_def by (rule shapeD(7))

text \<open>The number of iovecs of a slot, stamped when the slot is complete.\<close>

definition iovCount :: "sendState \<Rightarrow> nat \<Rightarrow> nat" where
  "iovCount st i = (if packIdx st = Some i then 2 * packFrames st else Iovlen (activeEP st) ! i)"

abbreviation images :: "item list \<Rightarrow> bytes list" where "images \<equiv> map snd"

definition pending :: "config \<Rightarrow> sendState \<Rightarrow> item list list \<Rightarrow> bool" where
  "pending c st pend \<longleftrightarrow> length pend = sendN st \<and> sendN st \<le> slots c \<and>
     (\<forall>i < sendN st. slotok st (uringSet st) i (iovCount st i)
        (if packIdx st = Some i then packHdrOff st else dgram c) (images (pend ! i)) \<and>
        segs (dgram c) (images (pend ! i)) \<and>
        refs st (uringSet st) i (iovCount st i) \<inter> set (take (uringMark st) (pendingFree (retransmit st))) = {})"

definition packed :: "config \<Rightarrow> sendState \<Rightarrow> bool" where
  "packed c st =
     (case packIdx st of
        None \<Rightarrow> True
      | Some i \<Rightarrow> Suc i = sendN st \<and> 2 \<le> gsoMaxFrames st \<and> packFrames st \<le> gsoMaxFrames st \<and>
          packHdrOff st = packFrames st * frameHdrLen c frameData)"

text \<open>Between operations an open pack can take another frame.\<close>

definition openok :: "config \<Rightarrow> sendState \<Rightarrow> item list list \<Rightarrow> bool" where
  "openok c st pend =
     (case packIdx st of
        None \<Rightarrow> True
      | Some i \<Rightarrow> packFrames st < gsoMaxFrames st \<and> (\<forall>f \<in> set (images (pend ! i)). length f = dgram c))"

definition accounted :: "config \<Rightarrow> sendState \<Rightarrow> item list \<Rightarrow> bool" where
  "accounted c st its =
     (case wirePacer c of
        None \<Rightarrow> True
      | Some p \<Rightarrow> sendDatagrams st = length its \<and> sendUDPBytes st = (\<Sum>it \<leftarrow> its. int (length (snd it))) \<and>
          sendWireBytes st = (\<Sum>it \<leftarrow> its. Cost (accounting p) (length (snd it))) \<and>
          (\<forall>it \<in> set its. fst it = sendPaceClass st) \<and> 0 < burstBytes p \<and>
          sendWireBytes st < burstBytes p + Cost (accounting p) (dgram c))"

text \<open>The visits to the pacer: none asks for more than the burst and one datagram, and when no flush fails
  (\<open>gd\<close>) each class has been charged for exactly its own datagrams.\<close>

definition chargedTo :: "paceReq list \<Rightarrow> paceClass \<Rightarrow> int" where
  "chargedTo rs cls = (\<Sum>r \<leftarrow> filter (\<lambda>r. prClass r = cls) rs. prWire r)"

definition costOf :: "WirePacer \<Rightarrow> item list \<Rightarrow> paceClass \<Rightarrow> int" where
  "costOf p its cls = (\<Sum>it \<leftarrow> filter (\<lambda>it. fst it = cls) its. Cost (accounting p) (length (snd it)))"

definition charged :: "bool \<Rightarrow> config \<Rightarrow> sendState \<Rightarrow> item list \<Rightarrow> bool" where
  "charged gd c st its =
     (case wirePacer c of
        None \<Rightarrow> True
      | Some p \<Rightarrow> (\<forall>r \<in> set (paceLog st). prWire r < burstBytes p + Cost (accounting p) (dgram c)) \<and>
          (gd \<longrightarrow> chargedTo (paceLog st) = costOf p its))"

text \<open>What the kernel still reads: nothing of the active set, and of the other set messages whose buffers
  are in use and unchanged since they were handed over.\<close>

definition inflight :: "config \<Rightarrow> sendState \<Rightarrow> item list list \<Rightarrow> bool" where
  "inflight c st F \<longleftrightarrow> inKernel st (uringSet st) = 0 \<and> inKernel st (1 - uringSet st) = length F \<and> length F \<le> slots c \<and>
     (\<not> uring st \<longrightarrow> F = [] \<and> uringMark st = 0) \<and> uringMark st \<le> length (pendingFree (retransmit st)) \<and>
     (\<forall>i < length F. slotok st (1 - uringSet st) i (Iovlen (sendEPs st (1 - uringSet st)) ! i) (dgram c) (images (F ! i)))"

definition logged :: "config \<Rightarrow> sendState \<Rightarrow> item list list \<Rightarrow> bool" where
  "logged c st H \<longleftrightarrow> handed st = map (concat \<circ> images) H \<and> (\<forall>m \<in> set H. segs (dgram c) (images m))"

definition rel :: "bool \<Rightarrow> config \<Rightarrow> time \<Rightarrow> sliceHdr list \<Rightarrow> item list list \<Rightarrow> item list list \<Rightarrow> item list list \<Rightarrow> sendState \<Rightarrow> bool" where
  "rel gd c t l H F pend st \<longleftrightarrow> qok t l (retransmit st) \<and> shape c st \<and> pending c st pend \<and> packed c st \<and>
     accounted c st (concat pend) \<and> inflight c st F \<and> logged c st (H @ F) \<and>
     charged gd c st (concat (H @ F))"

lemmas rel_parts = rel_def shape_def pending_def packed_def accounted_def inflight_def logged_def charged_def

section \<open>Changes the invariant survives\<close>

lemma slotok_fields:
  assumes "slotok st g i n bd fs" "sendBufSets st' = sendBufSets st" "sendEPs st' = sendEPs st" "iovsPer st' = iovsPer st"
    "retransmit st' = retransmit st"
  shows "slotok st' g i n bd fs"
  by (rule slotok_cong [OF assms(1)])
     (use assms refs_held [OF assms(1)] in \<open>auto simp: slotIovs_def intro: stable_refl\<close>)

lemma refs_fields:
  "sendEPs st' = sendEPs st \<Longrightarrow> iovsPer st' = iovsPer st \<Longrightarrow> refs st' g i n = refs st g i n"
  by (simp add: refs_def slotIovs_def)

lemma slotok_Iovlen:
  assumes "slotok st g i n bd fs" "sendBufSets st' = sendBufSets st" "Iov (sendEPs st' g) = Iov (sendEPs st g)"
    "iovsPer st' = iovsPer st" "retransmit st' = retransmit st"
  shows "slotok st' g i n bd fs" "refs st' g i n = refs st g i n"
proof -
  have e: "slotIovs st' g i n = slotIovs st g i n" using assms by (simp add: slotIovs_def)
  show "slotok st' g i n bd fs"
    by (rule slotok_cong [OF assms(1)]) (use e assms refs_held [OF assms(1)] in \<open>auto intro: stable_refl\<close>)
  show "refs st' g i n = refs st g i n" using e by (simp add: refs_def)
qed

lemma charged_log: "paceLog st' = paceLog st \<Longrightarrow> charged gd c st' its = charged gd c st its"
  by (simp add: charged_def split: option.split)

lemma logged_log: "handed st' = handed st \<Longrightarrow> logged c st' H = logged c st H"
  by (simp add: logged_def)

text \<open>Closing the pack stamps the iovec count and keeps everything else.\<close>

lemma packHdrOff_bound:
  assumes "shape c st" "packed c st" "packIdx st = Some i" "k \<le> gsoMaxFrames st"
  shows "k * frameHdrLen c frameData \<le> dgram c" "packHdrOff st \<le> dgram c"
proof -
  have le: "k * frameHdrLen c frameData \<le> dgram c" if "k \<le> gsoMaxFrames st" for k
  proof -
    have "2 \<le> gsoMaxFrames st" using assms(2,3) by (simp add: packed_def)
    from shapeD(9) [OF assms(1) this] have "gsoMaxFrames st * frameHdrLen c frameData \<le> dgram c"
      by (simp add: frameHdrLen_def split: if_splits)
    moreover have "k * frameHdrLen c frameData \<le> gsoMaxFrames st * frameHdrLen c frameData"
      using that by (rule mult_le_mono1)
    ultimately show ?thesis by (rule le_trans [rotated])
  qed
  show "k * frameHdrLen c frameData \<le> dgram c" using le assms(4) .
  show "packHdrOff st \<le> dgram c" using le [of "packFrames st"] assms(2,3) by (simp add: packed_def)
qed

lemma closePack_rel:
  assumes r: "rel gd c t l H F pend st"
  shows "rel gd c t l H F pend (closePackLocked st) \<and> packIdx (closePackLocked st) = None \<and>
    sendN (closePackLocked st) = sendN st"
proof (cases "packIdx st")
  case None
  then show ?thesis using r by (simp add: closePackLocked_def)
next
  case (Some i)
  let ?st = "closePackLocked st" and ?g = "uringSet st"
  have sh: "shape c st" and pe: "pending c st pend" and pa: "packed c st" and fl: "inflight c st F"
    using r by (simp_all add: rel_def)
  have i: "i < slots c" "i < sendN st" using pa pe Some by (auto simp: packed_def pending_def)
  have f: "sendBufSets ?st = sendBufSets st" "iovsPer ?st = iovsPer st" "retransmit ?st = retransmit st"
    "uringSet ?st = ?g" "sendN ?st = sendN st" "packIdx ?st = None" "uringMark ?st = uringMark st"
    "gsoMaxFrames ?st = gsoMaxFrames st" "gsoSize ?st = gsoSize st" "inKernel ?st = inKernel st"
    "handed ?st = handed st" "paceLog ?st = paceLog st" "sendDatagrams ?st = sendDatagrams st"
    "sendUDPBytes ?st = sendUDPBytes st" "sendWireBytes ?st = sendWireBytes st" "sendPaceClass ?st = sendPaceClass st"
    "length (sendLens ?st) = length (sendLens st)" "uring ?st = uring st"
    using Some by (simp_all add: closePackLocked_def setEP_def Let_def)
  have iov: "Iov (sendEPs ?st g) = Iov (sendEPs st g)"
    "Iovlen (sendEPs ?st g) = (if g = ?g then (Iovlen (activeEP st))[i := 2 * packFrames st] else Iovlen (sendEPs st g))" for g
    using Some by (simp_all add: closePackLocked_def setEP_def Let_def activeEP_def)
  have cnt: "iovCount ?st j = iovCount st j" if "j < sendN st" for j
    using that i shape_set [OF sh] Some f(4,6) iov(2) by (auto simp: iovCount_def activeEP_def setok_def nth_list_update)
  have "setok c (iovsPer st) (activeBufs ?st) (activeEP ?st)"
    using shape_set [OF sh] by (simp add: setok_def activeBufs_def activeEP_def f iov)
  then have "shape c ?st"
    using f Some by (intro shape_active [OF sh]) (auto simp: fixedPart_def closePackLocked_def setEP_def Let_def)
  moreover have "pending c ?st pend"
  proof -
    have "slotok ?st ?g j (iovCount ?st j) (dgram c) (images (pend ! j)) \<and>
      refs ?st ?g j (iovCount ?st j) = refs st ?g j (iovCount st j)" if j: "j < sendN st" for j
    proof -
      have "slotok st ?g j (iovCount st j) (if packIdx st = Some j then packHdrOff st else dgram c) (images (pend ! j))"
        using pe j by (simp add: pending_def)
      then have "slotok st ?g j (iovCount st j) (dgram c) (images (pend ! j))"
        by (rule slotok_mono) (use packHdrOff_bound(2) [OF sh pa _ le_refl] in auto)
      note s = slotok_Iovlen [OF this f(1) iov(1) f(2,3)]
      show ?thesis unfolding cnt [OF j] using s by blast
    qed
    then show ?thesis using pe by (simp add: pending_def f)
  qed
  moreover have "packed c ?st" by (simp add: packed_def f)
  moreover have "accounted c ?st (concat pend)" using r by (simp add: rel_def accounted_def f split: option.splits)
  moreover have "inflight c ?st F"
  proof -
    have "1 - ?g \<noteq> ?g" by arith
    then have "Iovlen (sendEPs ?st (1 - ?g)) = Iovlen (sendEPs st (1 - ?g))" using iov(2) by simp
    moreover have "slotok ?st (1 - ?g) j n bd fs" if "slotok st (1 - ?g) j n bd fs" for j n bd fs
      by (rule slotok_Iovlen [OF that]) (simp_all add: f iov)
    ultimately show ?thesis using fl by (simp add: inflight_def f)
  qed
  moreover have "logged c ?st (H @ F)" "charged gd c ?st (concat (H @ F))"
    using r charged_log [OF f(12)] logged_log [OF f(11)] by (simp_all add: rel_def)
  ultimately show ?thesis using r f(3,5,6) by (simp add: rel_def)
qed

section \<open>Flushing\<close>

text \<open>Dropping the pending slots, with a new pacer log.\<close>

definition emptied :: "nat \<Rightarrow> paceReq list \<Rightarrow> sendState \<Rightarrow> sendState" where
  "emptied k rs st = resetBatchAccountingLocked (st\<lparr>flushNo := k, paceLog := rs, sendN := 0\<rparr>)"

lemma emptied_fields [simp]:
  "sendBufSets (emptied k rs st) = sendBufSets st" "sendEPs (emptied k rs st) = sendEPs st"
  "sendLens (emptied k rs st) = sendLens st" "sendN (emptied k rs st) = 0" "iovsPer (emptied k rs st) = iovsPer st"
  "sendWireBytes (emptied k rs st) = 0" "sendUDPBytes (emptied k rs st) = 0" "sendDatagrams (emptied k rs st) = 0"
  "sendPaceClass (emptied k rs st) = paceBulk" "uring (emptied k rs st) = uring st" "uringSet (emptied k rs st) = uringSet st"
  "uringMark (emptied k rs st) = uringMark st" "gsoSize (emptied k rs st) = gsoSize st"
  "gsoMaxFrames (emptied k rs st) = gsoMaxFrames st" "packIdx (emptied k rs st) = packIdx st"
  "retransmit (emptied k rs st) = retransmit st" "handed (emptied k rs st) = handed st" "paceLog (emptied k rs st) = rs"
  "inKernel (emptied k rs st) = inKernel st"
  by (simp_all add: emptied_def resetBatchAccountingLocked_def)

lemma Cost_nonneg: "0 \<le> Cost a n"
  by (simp add: Cost_def Let_def)

lemma shape_fields:
  assumes "shape c st" "fixedPart st' = fixedPart st" "sendBufSets st' = sendBufSets st" "sendEPs st' = sendEPs st"
  shows "shape c st'"
  by (rule shape_active [OF assms(1,2)])
     (use assms shape_set [OF assms(1)] fixedPartD(2) [OF assms(2)] in \<open>simp_all add: activeBufs_def activeEP_def\<close>)

lemma inflight_fields:
  assumes "inflight c st F" "sendBufSets st' = sendBufSets st" "sendEPs st' = sendEPs st" "iovsPer st' = iovsPer st"
    "retransmit st' = retransmit st" "inKernel st' = inKernel st" "uringSet st' = uringSet st" "uring st' = uring st" "uringMark st' = uringMark st"
  shows "inflight c st' F"
  using assms slotok_fields [OF _ assms(2-5)] by (simp add: inflight_def)

lemma emptied_rel:
  assumes r: "rel gd c t l H F pend st" and pk: "packIdx st = None"
    and ch: "charged gd c (emptied k rs st) (concat (H @ F))"
  shows "rel gd c t l H F [] (emptied k rs st)"
proof -
  have "shape c (emptied k rs st)"
    by (rule shape_fields [of c st]) (use r in \<open>simp_all add: rel_def fixedPart_def\<close>)
  moreover have "inflight c (emptied k rs st) F"
    by (rule inflight_fields [of c st]) (use r in \<open>simp_all add: rel_def\<close>)
  moreover have "accounted c (emptied k rs st) []"
    using r Cost_nonneg [of _ "dgram c"] by (auto simp: rel_def accounted_def add_pos_nonneg split: option.splits)
  ultimately show ?thesis
    using r ch by (simp add: rel_def pending_def packed_def pk logged_def)
qed

text \<open>Handing the first \<open>m\<close> pending messages to the kernel.\<close>

lemma pending_messages:
  assumes "pending c st pend" "packIdx st = None" "m \<le> sendN st"
  shows "map (message st (uringSet st)) [0..<m] = map (concat \<circ> images) (take m pend)"
proof (rule nth_equalityI)
  fix i assume "i < length (map (message st (uringSet st)) [0..<m])"
  with assms have "i < sendN st" "i < m" "i < length pend" by (auto simp: pending_def)
  moreover from this assms have "slotok st (uringSet st) i (Iovlen (activeEP st) ! i) (dgram c) (images (pend ! i))"
    by (simp add: pending_def iovCount_def)
  ultimately show "map (message st (uringSet st)) [0..<m] ! i = map (concat \<circ> images) (take m pend) ! i"
    by (simp add: message_def slotok_def activeEP_def)
qed (use assms in \<open>simp add: pending_def\<close>)

lemma message_fields:
  "sendBufSets st' = sendBufSets st \<Longrightarrow> sendEPs st' = sendEPs st \<Longrightarrow> iovsPer st' = iovsPer st \<Longrightarrow>
   retransmit st' = retransmit st \<Longrightarrow> message st' g i = message st g i"
proof -
  assume a: "sendBufSets st' = sendBufSets st" "sendEPs st' = sendEPs st" "iovsPer st' = iovsPer st"
    "retransmit st' = retransmit st"
  then have "iovBytes st' g = iovBytes st g" by (intro ext) (simp add: iovBytes_def split: iovBase.split)
  then show ?thesis using a by (simp add: message_def gather_def slotIovs_def)
qed

lemma pending_segs:
  assumes "pending c st pend"
  shows "\<forall>m \<in> set pend. segs (dgram c) (images m)"
  using assms by (auto simp: pending_def in_set_conv_nth)

lemma drainFirst_held:
  assumes "qok t l q" "S \<subseteq> held q" "S \<inter> set (take m (pendingFree q)) = {}"
  shows "stable S q (drainPendingFreeFirst m q)"
proof -
  let ?q = "drainPendingFreeFirst m q"
  have p: "pendingFree ?q = drop m (pendingFree q)"
    by (simp add: drainPendingFreeFirst_def Let_def)
  have "qheap ?q = qheap q" "chain ?q = chain q"
    by (simp_all add: drainPendingFreeFirst_def Let_def chain_def)
  then have "held ?q = set (map (\<lambda>p. dataOf (qheap q p)) (chain q) @ drop m (pendingFree q))"
    by (simp add: held_def inUse_def p)
  moreover have "set (pendingFree q) = set (take m (pendingFree q)) \<union> set (drop m (pendingFree q))"
    by (metis append_take_drop_id set_append)
  ultimately have "S \<subseteq> held ?q" using assms(2,3) by (auto simp: held_def inUse_def)
  then show ?thesis using drainPendingFreeFirst_spec [OF assms(1)] by (simp add: stable_def)
qed

text \<open>What the kernel answers: the ring accepts and completes submissions, and, in a good run, nothing fails.\<close>

definition ringOK :: "(nat \<Rightarrow> kernelRes) \<Rightarrow> bool" where
  "ringOK K \<longleftrightarrow> (\<forall>i. kSubmit (K i) = 0 \<and> kWait (K i) = 0)"

definition goodK :: "(nat \<Rightarrow> kernelRes) \<Rightarrow> bool" where
  "goodK K \<longleftrightarrow> (\<forall>i. \<not> kShutdown (K i) \<and> kGrant (K i) \<and> kErrno (K i) = 0 \<and> kCollect (K i) = 0)"

text \<open>The \<open>sendmmsg\<close> call: the messages are read during the call, so the freed buffers can be recycled after it.\<close>

lemma mmsg_rel:
  assumes r: "rel gd0 c t l H F [] st" and F: "\<not> uring st" and m: "map (message st (uringSet st)) [0..<n] = map (concat \<circ> images) ms"
    and segs: "\<forall>m \<in> set ms. segs (dgram c) (images m)" and ch: "charged gd c st (concat (H @ ms))"
  shows "rel gd c t l (H @ ms) [] [] ((hand (uringSet st) n st)\<lparr>retransmit := drainPendingFree (retransmit st)\<rparr>)"
proof -
  let ?st = "(hand (uringSet st) n st)\<lparr>retransmit := drainPendingFree (retransmit st)\<rparr>"
  have F0: "F = []" using r F by (auto simp: rel_def inflight_def)
  have "qok t l (drainPendingFree (retransmit st))" using r drainPendingFree_spec by (auto simp: rel_def)
  moreover have "shape c ?st"
    by (rule shape_fields [of c st]) (use r in \<open>simp_all add: rel_def fixedPart_def hand_def\<close>)
  moreover have "accounted c ?st []" using r by (simp add: rel_def accounted_def hand_def split: option.splits)
  moreover have "logged c ?st (H @ ms)" using r m segs F0 by (auto simp: rel_def logged_def hand_def)
  moreover have "charged gd c ?st (concat (H @ ms))" using ch charged_log [of ?st st] by (simp add: hand_def)
  ultimately show ?thesis
    using r F F0 by (auto simp: rel_def pending_def packed_def inflight_def hand_def split: option.splits)
qed

text \<open>The io_uring submission: the messages become the ones in flight, the other set is complete and becomes
  the active one, and only buffers that no message in flight refers to are recycled.\<close>

lemma uring_rel:
  assumes r: "rel gd0 c t l H F [] st" and u: "uring st" "packIdx st = None"
    and n: "length ms = n" "n \<le> slots c"
    and sl: "\<And>i. i < n \<Longrightarrow> slotok st (uringSet st) i (Iovlen (activeEP st) ! i) (dgram c) (images (ms ! i)) \<and>
        refs st (uringSet st) i (Iovlen (activeEP st) ! i) \<inter> set (take (uringMark st) (pendingFree (retransmit st))) = {}"
    and m: "map (message st (uringSet st)) [0..<n] = map (concat \<circ> images) ms"
    and segs: "\<forall>m \<in> set ms. segs (dgram c) (images m)" and ch: "charged gd c st (concat (H @ F @ ms))"
    and k: "kSubmit k = 0" "kWait k = 0"
  shows "rel gd c t l (H @ F) ms [] (snd (flushSendUringLocked k n st)) \<and>
    fst (flushSendUringLocked k n st) = errnoErr (kCollect k)"
proof -
  let ?g = "uringSet st" and ?q = "drainPendingFreeFirst (uringMark st) (retransmit st)"
  let ?st = "snd (flushSendUringLocked k n st)"
  have q: "qok t l (retransmit st)" and sh: "shape c st" using r by (simp_all add: rel_def)
  have g: "?g < 2" using shapeD(4) [OF sh] .
  then have g2: "1 - (1 - ?g) = ?g" "1 - ?g \<noteq> ?g" by arith+
  have f: "sendBufSets ?st = sendBufSets st" "sendEPs ?st = sendEPs st" "iovsPer ?st = iovsPer st" "retransmit ?st = ?q"
    "uringSet ?st = 1 - ?g" "inKernel ?st = (inKernel st)(?g := n, 1 - ?g := 0)" "uring ?st = uring st" "sendN ?st = sendN st"
    "packIdx ?st = None" "handed ?st = handed st @ map (message st ?g) [0..<n]" "paceLog ?st = paceLog st"
    "gsoMaxFrames ?st = gsoMaxFrames st" "gsoSize ?st = gsoSize st" "sendLens ?st = sendLens st"
    "sendDatagrams ?st = sendDatagrams st" "sendUDPBytes ?st = sendUDPBytes st" "sendWireBytes ?st = sendWireBytes st"
    "sendPaceClass ?st = sendPaceClass st"
    "uringMark ?st = length (pendingFree ?q)"
    using k u by (simp_all add: flushSendUringLocked_def Let_def hand_def pendingFreeLen_def)
  have "qok t l ?q" using drainPendingFreeFirst_spec [OF q] by blast
  moreover have "shape c ?st"
    using sh g unfolding shape_def f by auto
  moreover have "inflight c ?st ms"
  proof -
    have "slotok ?st ?g i (Iovlen (sendEPs st ?g) ! i) (dgram c) (images (ms ! i))" if "i < n" for i
    proof (rule slotok_cong)
      let ?k = "Iovlen (sendEPs st ?g) ! i"
      show "slotok st ?g i ?k (dgram c) (images (ms ! i))" using sl [OF that] by (simp add: activeEP_def)
      show "stable (refs st ?g i ?k) (retransmit st) (retransmit ?st)"
        unfolding f(4) using sl [OF that] by (intro drainFirst_held [OF q] refs_held) (auto simp: activeEP_def)
    qed (simp_all add: f slotIovs_def)
    then show ?thesis using n u(1) g2 by (simp add: inflight_def f)
  qed
  moreover have "accounted c ?st []" using r by (simp add: rel_def accounted_def f split: option.splits)
  moreover have "logged c ?st ((H @ F) @ ms)" using r m segs by (auto simp: rel_def logged_def f)
  moreover have "charged gd c ?st (concat ((H @ F) @ ms))" using ch charged_log [OF f(11)] by simp
  moreover have "pending c ?st []" using r by (simp add: rel_def pending_def f)
  ultimately show ?thesis
    using k by (simp add: rel_def f(4) packed_def f(9)) (simp add: flushSendUringLocked_def Let_def)
qed

lemma costOf_append: "costOf p (xs @ ys) cls = costOf p xs cls + costOf p ys cls"
  by (simp add: costOf_def)

lemma costOf_uniform:
  "\<forall>it \<in> set its. fst it = k \<Longrightarrow>
   costOf p its cls = (if cls = k then \<Sum>it \<leftarrow> its. Cost (accounting p) (length (snd it)) else 0)"
  by (induction its) (auto simp: costOf_def)

definition paceVisit :: "config \<Rightarrow> sendState \<Rightarrow> paceReq list" where
  "paceVisit c st = (if wirePacer c = None then [] else [\<lparr>prWire = sendWireBytes st, prUDP = sendUDPBytes st,
     prDatagrams = sendDatagrams st, prClass = sendPaceClass st\<rparr>])"

lemma charged_visit:
  assumes "charged gd c st its" "accounted c st pend" "paceLog st' = paceLog st @ paceVisit c st"
  shows "charged gd c st' (its @ pend)" "charged False c st' its'"
proof -
  show "charged gd c st' (its @ pend)"
  proof (cases "wirePacer c")
    case (Some p)
    note a = assms(2) [unfolded accounted_def Some option.case]
    have "chargedTo (paceLog st @ paceVisit c st) cls = costOf p (its @ pend) cls" if "chargedTo (paceLog st) = costOf p its" for cls
      using that a Some costOf_uniform [of pend "sendPaceClass st" p cls]
      by (simp add: costOf_append chargedTo_def paceVisit_def fun_eq_iff)
    then show ?thesis using assms(1,3) a Some by (auto simp: charged_def paceVisit_def)
  qed (simp add: charged_def)
  show "charged False c st' its'" using assms
    by (auto simp: charged_def accounted_def paceVisit_def split: option.splits)
qed

lemma flush_eq:
  "flushSendLocked c K st0 =
     (let st = closePackLocked st0; r = K (flushNo st); n = sendN st; log = paceLog st @ paceVisit c st;
          stR = emptied (flushNo st + 1) log st in
      if n = 0 then (None, emptied (flushNo st) (paceLog st) st)
      else if kShutdown r then (Some ErrClosed, emptied (flushNo st + 1) (paceLog st) st)
      else if wirePacer c \<noteq> None \<and> \<not> kGrant r then (Some ErrClosed, stR)
      else if uring st then flushSendUringLocked r n stR
      else (errnoErr (kErrno r),
            (hand (uringSet st) (if kErrno r = 0 then n else min (kTaken r) n) stR)
              \<lparr>retransmit := drainPendingFree (retransmit st)\<rparr>))"
proof -
  have e: "st\<lparr>flushNo := flushNo st, paceLog := paceLog st, sendN := 0\<rparr> = st" if "sendN st = 0" for st :: sendState
    using that by (cases st) simp
  show ?thesis
    by (simp add: flushSendLocked_def Let_def emptied_def e paceVisit_def resetBatchAccountingLocked_def hand_def
        split del: if_split cong: if_cong) (simp add: e message_def gather_def)
qed

lemma flush_rel:
  assumes r0: "rel gd c t l H F pend st0" and ring: "ringOK K" and gd: "gd \<longrightarrow> goodK K"
    and fl: "flushSendLocked c K st0 = (e, st')"
  shows "\<exists>m H' F'. rel gd c t l H' F' [] st' \<and> H' @ F' = H @ F @ take m pend \<and> packIdx st' = None \<and> sendN st' = 0 \<and>
    (gd \<longrightarrow> e = None \<and> length pend \<le> m)"
proof -
  define st where "st = closePackLocked st0"
  define k where "k = K (flushNo st)"
  define stR where "stR = emptied (flushNo st + 1) (paceLog st @ paceVisit c st) st"
  have r: "rel gd c t l H F pend st" "packIdx st = None" using closePack_rel [OF r0] by (simp_all add: st_def)
  have pe: "pending c st pend" "accounted c st (concat pend)" "charged gd c st (concat (H @ F))" and q: "qok t l (retransmit st)"
    using r(1) by (simp_all add: rel_def)
  have len: "length pend = sendN st" "sendN st \<le> slots c" using pe(1) by (auto simp: pending_def)
  have kr: "kSubmit k = 0" "kWait k = 0" using ring by (simp_all add: ringOK_def k_def)
  have kg: "\<not> kShutdown k" "kGrant k" "kErrno k = 0" "kCollect k = 0" if gd using gd that by (simp_all add: goodK_def k_def)
  have ch: "charged gd c stR (concat (H @ F) @ concat pend)" "charged False c stR x" for x
    using charged_visit [OF pe(3,2)] by (simp_all add: stR_def)
  have dn: ?thesis if "rel gd c t l H F [] st'" "packIdx st' = None" "sendN st' = 0" "gd \<Longrightarrow> e = None \<and> pend = []"
    using that by (intro exI [of _ 0] exI [of _ H] exI [of _ F]) auto
  have f: "flushSendLocked c K st0 =
    (if sendN st = 0 then (None, emptied (flushNo st) (paceLog st) st)
     else if kShutdown k then (Some ErrClosed, emptied (flushNo st + 1) (paceLog st) st)
     else if wirePacer c \<noteq> None \<and> \<not> kGrant k then (Some ErrClosed, stR)
     else if uring st then flushSendUringLocked k (sendN st) stR
     else (errnoErr (kErrno k), (hand (uringSet st) (if kErrno k = 0 then sendN st else min (kTaken k) (sendN st)) stR)
              \<lparr>retransmit := drainPendingFree (retransmit st)\<rparr>))"
    unfolding flush_eq Let_def st_def k_def stR_def by simp
  have msg: "map (message stR (uringSet st)) [0..<m] = map (concat \<circ> images) (take m pend)" if "m \<le> sendN st" for m
  proof -
    have "message stR g = message st g" for g by (intro ext message_fields) (simp_all add: stR_def)
    with pending_messages [OF pe(1) r(2) that] show ?thesis by simp
  qed
  have sg: "\<forall>x \<in> set (take m pend). segs (dgram c) (images x)" for m
    using pending_segs [OF pe(1)] by (meson in_set_takeD)
  have "rel False c t l H F pend st" using r(1) by (auto simp: rel_def charged_def split: option.splits)
  then have rR: "rel False c t l H F [] stR" unfolding stR_def
    by (rule emptied_rel) (use r(2) ch(2) in \<open>simp_all add: stR_def\<close>)
  consider "sendN st = 0" | "sendN st \<noteq> 0" "kShutdown k" | "sendN st \<noteq> 0" "\<not> kShutdown k" "wirePacer c \<noteq> None \<and> \<not> kGrant k"
    | "sendN st \<noteq> 0" "\<not> kShutdown k" "\<not> (wirePacer c \<noteq> None \<and> \<not> kGrant k)" "uring st"
    | "sendN st \<noteq> 0" "\<not> kShutdown k" "\<not> (wirePacer c \<noteq> None \<and> \<not> kGrant k)" "\<not> uring st" by blast
  then show ?thesis
  proof cases
    case 1
    then have "st' = emptied (flushNo st) (paceLog st) st" "e = None" using fl f by simp_all
    then show ?thesis using emptied_rel [OF r] pe(3) charged_log [of st' st] r(2) 1 len(1) by (intro dn) simp_all
  next
    case 2
    then have "st' = emptied (flushNo st + 1) (paceLog st) st" using fl f by simp
    then show ?thesis using emptied_rel [OF r] pe(3) charged_log [of st' st] r(2) 2 kg by (intro dn) simp_all
  next
    case 3
    then have s: "st' = stR" using fl f by simp
    have "\<not> gd" using 3 kg by blast
    then show ?thesis using rR r(2) by (intro dn) (simp_all add: s stR_def)
  next
    case 4
    have e4: "flushSendUringLocked k (sendN st) stR = (e, st')"
      using fl unfolding f if_not_P [OF 4(1)] if_not_P [OF 4(2)] if_not_P [OF 4(3)] if_P [OF 4(4)] .
    have sl: "slotok stR (uringSet stR) i (Iovlen (activeEP stR) ! i) (dgram c) (images (pend ! i)) \<and>
      refs stR (uringSet stR) i (Iovlen (activeEP stR) ! i) \<inter>
        set (take (uringMark stR) (pendingFree (retransmit stR))) = {}" if "i < sendN st" for i
    proof -
      have "slotok st (uringSet st) i (Iovlen (activeEP st) ! i) (dgram c) (images (pend ! i))"
        "refs st (uringSet st) i (Iovlen (activeEP st) ! i) \<inter> set (take (uringMark st) (pendingFree (retransmit st))) = {}"
        using pe(1) r(2) that by (simp_all add: pending_def iovCount_def)
      from slotok_fields [OF this(1), of stR] refs_fields [of stR st] this(2) show ?thesis
        by (simp add: stR_def activeEP_def)
    qed
    have "rel gd c t l (H @ F) pend [] (snd (flushSendUringLocked k (sendN st) stR)) \<and>
        fst (flushSendUringLocked k (sendN st) stR) = errnoErr (kCollect k)"
      by (rule uring_rel [OF rR]) (use 4 r(2) len sl msg [of "sendN st"] sg [of "sendN st"] ch(1) kr in \<open>simp_all add: stR_def\<close>)
    then have "rel gd c t l (H @ F) pend [] st'" "e = errnoErr (kCollect k)" using e4 by simp_all
    moreover have "packIdx st' = None" "sendN st' = 0"
      using e4 kr r(2) by (auto simp: flushSendUringLocked_def Let_def hand_def stR_def)
    ultimately show ?thesis
      using kg by (intro exI [of _ "length pend"] exI [of _ "H @ F"] exI [of _ pend]) (simp add: errnoErr_def)
  next
    case 5
    define m where "m = (if kErrno k = 0 then sendN st else min (kTaken k) (sendN st))"
    have s: "st' = (hand (uringSet st) m stR)\<lparr>retransmit := drainPendingFree (retransmit st)\<rparr>" "e = errnoErr (kErrno k)"
      using fl unfolding f if_not_P [OF 5(1)] if_not_P [OF 5(2)] if_not_P [OF 5(3)] if_not_P [OF 5(4)] m_def by simp_all
    have F: "F = []" using r(1) 5 by (simp add: rel_def inflight_def)
    have "charged gd c stR (concat (H @ take m pend))"
      using ch kg len F by (cases gd) (auto simp: m_def)
    then have "rel gd c t l (H @ take m pend) [] [] st'"
      unfolding s(1) using mmsg_rel [OF rR, of m "take m pend" gd] 5 msg [of m] sg [of m] by (simp add: stR_def m_def)
    moreover have "packIdx st' = None" "sendN st' = 0" unfolding s(1) using r(2) by (simp_all add: stR_def hand_def)
    moreover have "gd \<Longrightarrow> e = None \<and> length pend \<le> m" using kg len by (simp add: s m_def errnoErr_def)
    ultimately show ?thesis using F by (intro exI [of _ m] exI [of _ "H @ take m pend"] exI [of _ "[]"]) auto
  qed
qed

end
