(* ===== verification/BatchOps.thy ===== *)
theory BatchOps
  imports BatchInv
begin

text \<open>
  The slot operations keep the invariant: acquiring, committing by copy and by reference, and packing a
  frame into a GSO message. Each appends one item to the sequence of frames, or drops frames when a
  flush fails.
\<close>

section \<open>Outcomes\<close>

definition state :: "bool \<Rightarrow> config \<Rightarrow> time \<Rightarrow> sliceHdr list \<Rightarrow> item list \<Rightarrow> sendState \<Rightarrow> bool" where
  "state gd c t l T st \<longleftrightarrow> (\<exists>H F pend. rel gd c t l H F pend st \<and> \<not> pacingBatchFullLocked c st \<and> openok c st pend \<and>
     T = concat (H @ F) @ concat pend)"

definition outcome :: "bool \<Rightarrow> config \<Rightarrow> time \<Rightarrow> sliceHdr list \<Rightarrow> item list \<Rightarrow> err option \<times> sendState \<Rightarrow> bool" where
  "outcome gd c t l T res \<longleftrightarrow> (\<exists>T'. state gd c t l T' (snd res) \<and> subseq T' T \<and> (gd \<longrightarrow> fst res = None \<and> T' = T))"

lemma outcome_state: "state gd c t l T st \<Longrightarrow> outcome gd c t l T (None, st)"
  by (auto simp: outcome_def)

lemma notfull_empty: "rel gd c t l H F [] st \<Longrightarrow> \<not> pacingBatchFullLocked c st"
  by (auto simp: rel_def accounted_def pacingBatchFullLocked_def split: option.splits)

lemma subseq_take_concat: "subseq (concat (take m xss)) (concat xss)"
proof -
  have "concat xss = concat (take m xss) @ concat (drop m xss)" by (simp flip: concat_append)
  then show ?thesis by (metis list_emb_prefix subseq_order.order_refl)
qed

lemma flush_state:
  assumes "rel gd c t l H F pend st" "ringOK K" "gd \<longrightarrow> goodK K"
  shows "outcome gd c t l (concat (H @ F) @ concat pend) (flushSendLocked c K st) \<and>
    sendN (snd (flushSendLocked c K st)) = 0 \<and> packIdx (snd (flushSendLocked c K st)) = None"
proof -
  obtain e st' where f: "flushSendLocked c K st = (e, st')" by fastforce
  from flush_rel [OF assms f] obtain m H' F' where
    r: "rel gd c t l H' F' [] st'" "H' @ F' = H @ F @ take m pend" "packIdx st' = None" "sendN st' = 0"
      "gd \<longrightarrow> e = None \<and> length pend \<le> m" by blast
  have "state gd c t l (concat (H @ F) @ concat (take m pend)) st'"
    unfolding state_def using r(1-3) notfull_empty [OF r(1)]
    by (intro exI [of _ H'] exI [of _ F'] exI [of _ "[]"]) (simp add: openok_def flip: concat_append)
  moreover have "subseq (concat (H @ F) @ concat (take m pend)) (concat (H @ F) @ concat pend)"
    by (intro list_emb_append_mono subseq_order.order_refl subseq_take_concat)
  ultimately have "outcome gd c t l (concat (H @ F) @ concat pend) (e, st')"
    unfolding outcome_def using r(5) by (intro exI [of _ "concat (H @ F) @ concat (take m pend)"]) auto
  then show ?thesis using f r by simp
qed

section \<open>Accounting\<close>

lemma account_fields [simp]:
  "sendBufSets (accountDatagramLocked c n cls st) = sendBufSets st" "sendEPs (accountDatagramLocked c n cls st) = sendEPs st"
  "sendLens (accountDatagramLocked c n cls st) = sendLens st" "sendN (accountDatagramLocked c n cls st) = sendN st"
  "iovsPer (accountDatagramLocked c n cls st) = iovsPer st" "uring (accountDatagramLocked c n cls st) = uring st"
  "uringSet (accountDatagramLocked c n cls st) = uringSet st" "uringMark (accountDatagramLocked c n cls st) = uringMark st"
  "gsoSize (accountDatagramLocked c n cls st) = gsoSize st" "gsoMaxFrames (accountDatagramLocked c n cls st) = gsoMaxFrames st"
  "packIdx (accountDatagramLocked c n cls st) = packIdx st" "packFrames (accountDatagramLocked c n cls st) = packFrames st"
  "packHdrOff (accountDatagramLocked c n cls st) = packHdrOff st" "retransmit (accountDatagramLocked c n cls st) = retransmit st"
  "handed (accountDatagramLocked c n cls st) = handed st" "paceLog (accountDatagramLocked c n cls st) = paceLog st"
  "inKernel (accountDatagramLocked c n cls st) = inKernel st"
  by (simp_all add: accountDatagramLocked_def Let_def split: option.split)

lemma Cost_mono: "m \<le> n \<Longrightarrow> Cost a m \<le> Cost a n"
  by (auto simp: Cost_def Let_def)

lemma account_one:
  assumes a: "accounted c st its" and st': "sendDatagrams st' = sendDatagrams st" "sendUDPBytes st' = sendUDPBytes st"
      "sendWireBytes st' = sendWireBytes st" "sendPaceClass st' = sendPaceClass st"
    and nf: "\<not> pacingBatchFullLocked c st" and n: "length img \<le> dgram c"
    and cls: "wirePacer c \<noteq> None \<Longrightarrow> 0 < sendDatagrams st \<Longrightarrow> sendPaceClass st = cls"
  shows "accounted c (accountDatagramLocked c (length img) cls st') (its @ [(cls, img)])"
proof (cases "wirePacer c")
  case (Some p)
  note b = a [unfolded accounted_def Some option.case]
  have "sendPaceClass (accountDatagramLocked c (length img) cls st') = cls"
    using cls Some st' by (cases "sendDatagrams st = 0") (auto simp: accountDatagramLocked_def Let_def)
  moreover have "fst it = cls" if "it \<in> set its" for it
    using b cls Some that by (cases its) auto
  moreover have "Cost (accounting p) (length img) \<le> Cost (accounting p) (dgram c)" using n by (rule Cost_mono)
  moreover have "sendWireBytes st < burstBytes p" using nf Some by (simp add: pacingBatchFullLocked_def)
  ultimately show ?thesis using b Some st'
    by (auto simp: accounted_def accountDatagramLocked_def Let_def)
qed (simp add: accounted_def)

section \<open>Changing one slot of the active set\<close>

definition onlySlot :: "nat \<Rightarrow> sendState \<Rightarrow> sendState \<Rightarrow> bool" where
  "onlySlot idx st st' \<longleftrightarrow> fixedPart st' = fixedPart st \<and> retransmit st' = retransmit st \<and> uringMark st' = uringMark st \<and>
     inKernel st' = inKernel st \<and> handed st' = handed st \<and> paceLog st' = paceLog st \<and> uring st' = uring st \<and>
     (\<forall>g. g \<noteq> uringSet st \<longrightarrow> sendBufSets st' g = sendBufSets st g \<and> sendEPs st' g = sendEPs st g) \<and>
     (\<forall>i. i \<noteq> idx \<longrightarrow> activeBufs st' ! i = activeBufs st ! i \<and> Iovlen (activeEP st') ! i = Iovlen (activeEP st) ! i \<and>
        (\<forall>n \<le> iovsPer st. slotIovs st' (uringSet st) i n = slotIovs st (uringSet st) i n))"

lemma onlySlotD:
  assumes "onlySlot idx st st'"
  shows "fixedPart st' = fixedPart st" "retransmit st' = retransmit st" "uringMark st' = uringMark st"
    "inKernel st' = inKernel st" "handed st' = handed st" "paceLog st' = paceLog st" "uring st' = uring st"
    "g \<noteq> uringSet st \<Longrightarrow> sendBufSets st' g = sendBufSets st g" "g \<noteq> uringSet st \<Longrightarrow> sendEPs st' g = sendEPs st g"
    "i \<noteq> idx \<Longrightarrow> activeBufs st' ! i = activeBufs st ! i" "i \<noteq> idx \<Longrightarrow> Iovlen (activeEP st') ! i = Iovlen (activeEP st) ! i"
    "i \<noteq> idx \<Longrightarrow> n \<le> iovsPer st \<Longrightarrow> slotIovs st' (uringSet st) i n = slotIovs st (uringSet st) i n"
  using assms unfolding onlySlot_def by blast+

lemma onlySlot_other:
  assumes "onlySlot idx st st'" "i \<noteq> idx" "slotok st (uringSet st) i n bd fs"
  shows "slotok st' (uringSet st) i n bd fs" "refs st' (uringSet st) i n = refs st (uringSet st) i n"
proof -
  note o = onlySlotD [OF assms(1)] note f = fixedPartD [OF o(1)]
  have n: "n \<le> iovsPer st" using assms(3) by (simp add: slotok_def)
  note e = o(12) [OF assms(2) n]
  show "slotok st' (uringSet st) i n bd fs"
  proof (rule slotok_cong [OF assms(3) e f(3)])
    show "take bd (sendBufSets st' (uringSet st) ! i) = take bd (sendBufSets st (uringSet st) ! i)"
      using o(10) [OF assms(2)] f(2) by (simp add: activeBufs_def)
    show "stable (refs st (uringSet st) i n) (retransmit st) (retransmit st')"
      using refs_held [OF assms(3)] o(2) by (simp add: stable_refl)
  qed
  show "refs st' (uringSet st) i n = refs st (uringSet st) i n" using e by (simp add: refs_def)
qed

lemma onlySlot_inflight:
  assumes "onlySlot idx st st'" "inflight c st F"
  shows "inflight c st' F"
proof -
  note o = onlySlotD [OF assms(1)] note f = fixedPartD [OF o(1)]
  let ?g = "1 - uringSet st"
  have g: "?g \<noteq> uringSet st" by arith
  have "slotok st' ?g i n bd fs" if "slotok st ?g i n bd fs" for i n bd fs
  proof (rule slotok_cong [OF that])
    show "slotIovs st' ?g i n = slotIovs st ?g i n" using o(9) [OF g] f(3) by (simp add: slotIovs_def)
    show "stable (refs st ?g i n) (retransmit st) (retransmit st')" using refs_held [OF that] o(2) by (simp add: stable_refl)
  qed (use o(8) [OF g] f(3) in simp_all)
  then show ?thesis using assms(2) unfolding inflight_def o(2,3,4,7) f(2) o(9) [OF g] by blast
qed

lemma add_items:
  assumes r: "rel gd c t l H F pend st" and os: "onlySlot idx st st'"
    and sh: "setok c (iovsPer st) (activeBufs st') (activeEP st')"
    and n: "length pend' = sendN st'" "sendN st' \<le> slots c"
    and oth: "\<And>i. i < sendN st' \<Longrightarrow> i \<noteq> idx \<Longrightarrow> i < sendN st \<and> pend' ! i = pend ! i \<and> packIdx st \<noteq> Some i \<and> packIdx st' \<noteq> Some i"
    and new: "slotok st' (uringSet st) idx (iovCount st' idx) (if packIdx st' = Some idx then packHdrOff st' else dgram c) (images (pend' ! idx))"
      "segs (dgram c) (images (pend' ! idx))"
      "refs st' (uringSet st) idx (iovCount st' idx) \<inter> set (take (uringMark st) (pendingFree (retransmit st))) = {}"
    and pk: "packed c st'" and ac: "accounted c st' (concat pend')"
  shows "rel gd c t l H F pend' st'"
proof -
  note o = onlySlotD [OF os] note f = fixedPartD [OF o(1)]
  have shp: "shape c st'" by (rule shape_active [OF _ o(1) _ sh]) (use r o(8,9) in \<open>simp_all add: rel_def\<close>)
  have "pending c st' pend'"
    unfolding pending_def
  proof (intro conjI allI impI n)
    fix i assume i: "i < sendN st'"
    let ?bd = "if packIdx st' = Some i then packHdrOff st' else dgram c"
    have "slotok st' (uringSet st) i (iovCount st' i) ?bd (images (pend' ! i)) \<and> segs (dgram c) (images (pend' ! i)) \<and>
      refs st' (uringSet st) i (iovCount st' i) \<inter> set (take (uringMark st) (pendingFree (retransmit st))) = {}"
    proof (cases "i = idx")
      case False
      note ot = oth [OF i False]
      have cnt: "iovCount st' i = iovCount st i" using ot o(11) [OF False] by (simp add: iovCount_def)
      have p: "slotok st (uringSet st) i (iovCount st i) (dgram c) (images (pend ! i))" "segs (dgram c) (images (pend ! i))"
        "refs st (uringSet st) i (iovCount st i) \<inter> set (take (uringMark st) (pendingFree (retransmit st))) = {}"
        using r ot by (auto simp: rel_def pending_def)
      show ?thesis using onlySlot_other [OF os False p(1)] p(2,3) ot cnt by simp
    qed (use new in simp)
    then show "slotok st' (uringSet st') i (iovCount st' i) ?bd (images (pend' ! i))" "segs (dgram c) (images (pend' ! i))"
      "refs st' (uringSet st') i (iovCount st' i) \<inter> set (take (uringMark st') (pendingFree (retransmit st'))) = {}"
      unfolding f(2) o(2,3) by blast+
  qed
  moreover have "inflight c st' F" using onlySlot_inflight [OF os] r by (simp add: rel_def)
  moreover have "logged c st' (H @ F)" "charged gd c st' (concat (H @ F))"
    using r charged_log [OF o(6)] logged_log [OF o(5)] by (simp_all add: rel_def)
  ultimately show ?thesis using r shp pk ac o(2) by (simp add: rel_def)
qed

text \<open>Updates of one slot's buffer and iovecs are of this kind.\<close>

lemma onlySlot_upd:
  assumes sh: "shape c st" and idx: "idx < slots c"
    and fx: "fixedPart st' = fixedPart st" "retransmit st' = retransmit st" "uringMark st' = uringMark st"
      "inKernel st' = inKernel st" "handed st' = handed st" "paceLog st' = paceLog st" "uring st' = uring st"
    and oth: "\<And>g. g \<noteq> uringSet st \<Longrightarrow> sendBufSets st' g = sendBufSets st g \<and> sendEPs st' g = sendEPs st g"
    and buf: "activeBufs st' = (activeBufs st)[idx := b]" and bl: "length b = dgram c"
    and iov: "Iov (activeEP st') = (Iov (activeEP st))[idx * iovsPer st + k := u, idx * iovsPer st + Suc k := v]"
      "Suc k < iovsPer st" "k = 0 \<Longrightarrow> ibase u = IovSlot idx 0"
    and len: "Iovlen (activeEP st') = (Iovlen (activeEP st))[idx := m]"
  shows "onlySlot idx st st' \<and> setok c (iovsPer st) (activeBufs st') (activeEP st') \<and>
    slotIovs st' (uringSet st) idx k = slotIovs st (uringSet st) idx k \<and>
    slotIovs st' (uringSet st) idx (Suc (Suc k)) = slotIovs st (uringSet st) idx k @ [u, v]"
proof -
  let ?P = "iovsPer st" and ?xs = "Iov (activeEP st)"
  note s = shape_set [OF sh, unfolded setok_def]
  have f: "uringSet st' = uringSet st" "iovsPer st' = ?P" using fixedPartD [OF fx(1)] by simp_all
  have ep: "sendEPs st' (uringSet st) = activeEP st'" "sendEPs st (uringSet st) = activeEP st" using f by (simp_all add: activeEP_def)
  have sl: "slotIovs st' (uringSet st) i n = slotIovs st (uringSet st) i n" if "i \<noteq> idx" "n \<le> ?P" for i n
  proof -
    have "take n (drop (i * ?P) (?xs[idx * ?P + k := u, idx * ?P + Suc k := v])) = take n (drop (i * ?P) ?xs)"
      by (rule trans [OF slot_upd_other [OF that] slot_upd_other [OF that]]) (use iov(2) in simp_all)
    then show ?thesis by (simp only: slotIovs_def f(2) ep iov(1))
  qed
  have k: "slotIovs st' (uringSet st) idx k = slotIovs st (uringSet st) idx k"
    unfolding slotIovs_def f(2) ep iov(1)
    by (rule trans [OF slot_upd_beyond slot_upd_beyond]) simp_all
  have k2: "slotIovs st' (uringSet st) idx (Suc (Suc k)) = slotIovs st (uringSet st) idx k @ [u, v]"
    using slot_grow [OF idx iov(2), of ?xs u v] s by (simp add: slotIovs_def f(2) ep iov(1))
  have base: "ibase (Iov (activeEP st') ! (i * ?P)) = IovSlot i 0" if i: "i < slots c" for i
  proof -
    have "i * ?P \<noteq> idx * ?P + Suc k" "i * ?P = idx * ?P + k \<longleftrightarrow> i = idx \<and> k = 0"
    proof -
      have "(i * ?P) mod ?P = 0" "(idx * ?P + k) mod ?P = k" "(idx * ?P + Suc k) mod ?P = Suc k" using iov(2) by simp_all
      then show "i * ?P \<noteq> idx * ?P + Suc k" "i * ?P = idx * ?P + k \<longleftrightarrow> i = idx \<and> k = 0"
        using iov(2) by (metis nat.distinct(1), metis add_0_right less_zeroE mult_cancel2 nat_neq_iff)
    qed
    moreover have "Suc i * ?P \<le> slots c * ?P" using i by (intro mult_le_mono1) simp
    then have "i * ?P < length ?xs" using s iov(2) i by simp
    ultimately show ?thesis using s i iov(1,3) by (auto simp: nth_list_update)
  qed
  have "length (activeBufs st' ! i) = dgram c" if "i < slots c" for i
    using s bl that buf by (cases "i = idx") auto
  then have "setok c ?P (activeBufs st') (activeEP st')" using s base buf iov(1) len by (simp add: setok_def)
  moreover have "onlySlot idx st st'" unfolding onlySlot_def using fx oth sl buf len by simp
  ultimately show ?thesis using k k2 by blast
qed

section \<open>Acquiring a slot\<close>

definition ready :: "bool \<Rightarrow> config \<Rightarrow> time \<Rightarrow> sliceHdr list \<Rightarrow> paceClass \<Rightarrow> item list \<Rightarrow> sendState \<Rightarrow> bool" where
  "ready gd c t l cls T st \<longleftrightarrow> (\<exists>H F pend. rel gd c t l H F pend st \<and> \<not> pacingBatchFullLocked c st \<and>
     T = concat (H @ F) @ concat pend \<and> packIdx st = None \<and> sendN st < slots c \<and>
     (wirePacer c \<noteq> None \<longrightarrow> 0 < sendDatagrams st \<longrightarrow> sendPaceClass st = cls))"

lemma full_close [simp]: "pacingBatchFullLocked c (closePackLocked st) = pacingBatchFullLocked c st"
  by (simp add: pacingBatchFullLocked_def closePackLocked_def Let_def setEP_def split: option.split)

lemma split_state:
  assumes "state gd c t l T st" "ringOK K" "gd \<longrightarrow> goodK K"
    "splitPacingClassLocked c K cls (closePackLocked st) = (e, st')"
  shows "outcome gd c t l T (e, st') \<and> packIdx st' = None \<and>
    (wirePacer c \<noteq> None \<longrightarrow> 0 < sendDatagrams st' \<longrightarrow> sendPaceClass st' = cls)"
proof -
  let ?st = "closePackLocked st"
  from assms(1) obtain H F pend where r: "rel gd c t l H F pend st" "\<not> pacingBatchFullLocked c st"
    "T = concat (H @ F) @ concat pend" by (auto simp: state_def)
  note cr = closePack_rel [OF r(1)]
  show ?thesis
  proof (cases "wirePacer c \<noteq> None \<and> 0 < sendDatagrams ?st \<and> sendPaceClass ?st \<noteq> cls")
    case True
    then have f: "flushSendLocked c K ?st = (e, st')" using assms(4) by (simp add: splitPacingClassLocked_def)
    from flush_state [of gd c t l H F pend ?st K] cr assms(2,3) r(3) f
    have o: "outcome gd c t l T (e, st')" "packIdx st' = None" "sendN st' = 0" by simp_all
    have "sendDatagrams st' = 0" if "wirePacer c \<noteq> None"
      using o(1,3) that by (auto simp: outcome_def state_def rel_def accounted_def pending_def)
    then show ?thesis using o by auto
  next
    case False
    then have s: "e = None" "st' = ?st" using assms(4) by (auto simp: splitPacingClassLocked_def)
    have "state gd c t l T ?st" unfolding state_def
      using cr r by (intro exI [of _ H] exI [of _ F] exI [of _ pend]) (simp add: openok_def)
    then show ?thesis using s cr False by (auto intro: outcome_state)
  qed
qed

lemma outcome_trans:
  assumes "outcome gd c t l T (e, st)" "\<And>T'. state gd c t l T' st \<Longrightarrow> outcome gd c t l (T' @ its) res"
    "\<And>T'. state gd c t l T' st \<Longrightarrow> gd \<Longrightarrow> e = None"
  shows "outcome gd c t l (T @ its) res"
proof -
  from assms(1) obtain T' where T: "state gd c t l T' st" "subseq T' T" "gd \<longrightarrow> T' = T" by (auto simp: outcome_def)
  from assms(2) [OF T(1)] obtain T'' where U: "state gd c t l T'' (snd res)" "subseq T'' (T' @ its)" "gd \<longrightarrow> fst res = None \<and> T'' = T' @ its"
    by (auto simp: outcome_def)
  have "subseq (T' @ its) (T @ its)" using T(2) by simp
  then have "subseq T'' (T @ its)" using U(2) by (rule subseq_order.order_trans [rotated])
  then show ?thesis using T(3) U by (auto simp: outcome_def)
qed

lemma outcome_drop: "outcome gd c t l T (e, st) \<Longrightarrow> \<not> gd \<Longrightarrow> outcome gd c t l (T @ its) (e', st)"
  by (auto simp: outcome_def intro: subseq_rev_drop_many)

lemma acquire_cases [consumes 3]:
  assumes s: "state gd c t l T st" and K: "ringOK K" "gd \<longrightarrow> goodK K"
  obtains (err) e st' where "acquireSendSlot c K cls st = Some (Inl e, st')" "\<not> gd" "outcome gd c t l T (Some e, st')"
  | (slot) T' st' where "acquireSendSlot c K cls st = Some (Inr (sendN st'), st')" "ready gd c t l cls T' st'"
      "subseq T' T" "gd \<longrightarrow> T' = T"
proof -
  obtain e1 st1 where s1: "splitPacingClassLocked c K cls (closePackLocked st) = (e1, st1)" by fastforce
  note o1 = split_state [OF s K s1]
  show thesis
  proof (cases e1)
    case (Some er)
    then have "\<not> gd" using o1 by (auto simp: outcome_def)
    then show thesis using err [of er st1] s1 o1 Some by (simp add: acquireSendSlot_def)
  next
    case None
    from o1 obtain T1 where T1: "state gd c t l T1 st1" "subseq T1 T" "gd \<longrightarrow> T1 = T" by (auto simp: outcome_def)
    then obtain H F pend where r: "rel gd c t l H F pend st1" "\<not> pacingBatchFullLocked c st1"
      "T1 = concat (H @ F) @ concat pend" by (auto simp: state_def)
    have bufs: "length (activeBufs st'') = slots c" if "shape c st''" for st''
      using shape_set [OF that] by (simp add: setok_def)
    show thesis
    proof (cases "nat (batchSize c) \<le> sendN st1")
      case False
      then have lt: "sendN st1 < slots c" by (simp add: slots_def)
      moreover have "acquireSendSlot c K cls st = Some (Inr (sendN st1), st1)"
        using s1 None False lt bufs [of st1] r(1) by (simp add: acquireSendSlot_def rel_def)
      moreover have "ready gd c t l cls T1 st1" unfolding ready_def
        using r o1 lt by (intro exI [of _ H] exI [of _ F] exI [of _ pend]) simp
      ultimately show thesis using slot T1 by blast
    next
      case True
      obtain e2 st2 where s2: "flushSendLocked c K st1 = (e2, st2)" by fastforce
      from flush_state [OF r(1) K] s2 r(3) have o2: "outcome gd c t l T1 (e2, st2)" "sendN st2 = 0" "packIdx st2 = None" by simp_all
      then obtain T2 where T2: "state gd c t l T2 st2" "subseq T2 T1" "gd \<longrightarrow> e2 = None \<and> T2 = T1" by (auto simp: outcome_def)
      have sub: "subseq T2 T" using T1(2) T2(2) by (rule subseq_order.order_trans [rotated])
      show thesis
      proof (cases e2)
        case (Some er)
        then have "\<not> gd" using T2 by auto
        moreover have "outcome gd c t l T (Some er, st2)" using T2(1) sub \<open>\<not> gd\<close> by (auto simp: outcome_def)
        ultimately show thesis using err [of er st2] s1 s2 None True Some by (simp add: acquireSendSlot_def)
      next
        case e2: None
        from T2(1) obtain H' F' pend' where r2: "rel gd c t l H' F' pend' st2" "\<not> pacingBatchFullLocked c st2"
          "T2 = concat (H' @ F') @ concat pend'" by (auto simp: state_def)
        then have p: "pend' = []" using o2(2) by (simp add: rel_def pending_def)
        have lt: "sendN st2 < slots c" using r2(1) o2(2) shapeD(1) by (auto simp: rel_def)
        have "wirePacer c \<noteq> None \<longrightarrow> sendDatagrams st2 = 0" using r2(1) p by (auto simp: rel_def accounted_def)
        then have "ready gd c t l cls T2 st2" unfolding ready_def
          using r2 o2 lt by (intro exI [of _ H'] exI [of _ F'] exI [of _ pend']) simp
        moreover have "acquireSendSlot c K cls st = Some (Inr (sendN st2), st2)"
          using s1 s2 None True e2 lt bufs [of st2] r2(1) by (simp add: acquireSendSlot_def rel_def)
        ultimately show thesis using slot sub T1 T2 by blast
      qed
    qed
  qed
qed

section \<open>Committing\<close>

lemma flushIfFull_outcome:
  assumes "rel gd c t l H F pend st" "ringOK K" "gd \<longrightarrow> goodK K" "packIdx st = None"
  shows "outcome gd c t l (concat (H @ F) @ concat pend) (flushIfFull c K st)"
proof (cases "nat (batchSize c) \<le> sendN st \<or> pacingBatchFullLocked c st")
  case True
  then show ?thesis using flush_state [OF assms(1-3)] by (simp add: flushIfFull_def)
next
  case False
  then have "state gd c t l (concat (H @ F) @ concat pend) st" unfolding state_def
    using assms(1,4) by (intro exI [of _ H] exI [of _ F] exI [of _ pend]) (simp add: openok_def)
  then show ?thesis using False by (simp add: flushIfFull_def outcome_state)
qed

text \<open>A new slot at the end of the batch, holding one frame.\<close>

lemma new_slot:
  assumes rd: "rel gd c t l H F pend st" "packIdx st = None" "sendN st < slots c"
    and os: "onlySlot (sendN st) st st'" "setok c (iovsPer st) (activeBufs st') (activeEP st')"
    and st': "sendN st' = Suc (sendN st)" "packIdx st' = None"
    and sl: "slotok st' (uringSet st) (sendN st) (Iovlen (activeEP st') ! sendN st) (dgram c) [snd it]"
      "refs st' (uringSet st) (sendN st) (Iovlen (activeEP st') ! sendN st) \<inter> set (take (uringMark st) (pendingFree (retransmit st))) = {}"
    and it: "0 < length (snd it)" "length (snd it) \<le> dgram c" and ac: "accounted c st' (concat pend @ [it])"
  shows "rel gd c t l H F (pend @ [[it]]) st'"
proof (rule add_items [OF rd(1) os])
  have len: "length pend = sendN st" using rd(1) by (simp add: rel_def pending_def)
  have cnt: "iovCount st' (sendN st) = Iovlen (activeEP st') ! sendN st" using st' by (simp add: iovCount_def)
  show "length (pend @ [[it]]) = sendN st'" "sendN st' \<le> slots c" using len st' rd(3) by simp_all
  show "i < sendN st \<and> (pend @ [[it]]) ! i = pend ! i \<and> packIdx st \<noteq> Some i \<and> packIdx st' \<noteq> Some i"
    if "i < sendN st'" "i \<noteq> sendN st" for i using that st' rd(2) len by (simp add: nth_append)
  have nth: "(pend @ [[it]]) ! sendN st = [it]" using len by (simp add: nth_append)
  show "slotok st' (uringSet st) (sendN st) (iovCount st' (sendN st))
      (if packIdx st' = Some (sendN st) then packHdrOff st' else dgram c) (images ((pend @ [[it]]) ! sendN st))"
    using sl(1) st' nth cnt by simp
  show "segs (dgram c) (images ((pend @ [[it]]) ! sendN st))" using nth it by (simp add: segs_single)
  show "refs st' (uringSet st) (sendN st) (iovCount st' (sendN st)) \<inter> set (take (uringMark st) (pendingFree (retransmit st))) = {}"
    using sl(2) cnt by simp
  show "packed c st'" using st' by (simp add: packed_def)
  show "accounted c st' (concat (pend @ [[it]]))" using ac by simp
qed

lemma slotIovs_take: "m \<le> n \<Longrightarrow> slotIovs st g i m = take m (slotIovs st g i n)"
  by (simp add: slotIovs_def min_def)

lemma commit_outcome:
  assumes rd: "ready gd c t l cls T st" and K: "ringOK K" "gd \<longrightarrow> goodK K"
    and b: "length b = dgram c" "img = take n b" "length img = n" "0 < n" "n \<le> dgram c"
  shows "outcome gd c t l (T @ [(cls, img)]) (commitSendSlot c K (sendN st) n cls (setBuf (sendN st) b st))"
proof -
  let ?i = "sendN st" and ?g = "uringSet st" and ?P = "iovsPer st"
  from rd obtain H F pend where r: "rel gd c t l H F pend st" "\<not> pacingBatchFullLocked c st"
    "T = concat (H @ F) @ concat pend" "packIdx st = None" "?i < slots c"
    "wirePacer c \<noteq> None \<Longrightarrow> 0 < sendDatagrams st \<Longrightarrow> sendPaceClass st = cls" by (auto simp: ready_def)
  have sh: "shape c st" using r(1) by (simp add: rel_def)
  have P: "2 \<le> ?P" using shapeD(5,6) [OF sh] by simp
  have l0: "length (activeBufs st) = slots c" "length (Iovlen (activeEP st)) = slots c" "length (Iov (activeEP st)) = slots c * ?P"
    "ibase (Iov (activeEP st) ! (?i * ?P)) = IovSlot ?i 0" using shape_set [OF sh] r(5) by (simp_all add: setok_def)
  define u where "u = (Iov (activeEP st) ! (?i * ?P))\<lparr>ilen := n\<rparr>"
  define v where "v = Iov (activeEP st) ! (?i * ?P + Suc 0)"
  define ep where "ep = (activeEP st)\<lparr>Iov := (Iov (activeEP st))[?i * ?P := u], Iovlen := (Iovlen (activeEP st))[?i := 1]\<rparr>"
  define st2 where "st2 = (setEP ep (setBuf ?i b st))\<lparr>sendLens := (sendLens st)[?i := n], sendN := Suc ?i\<rparr>"
  define st1 where "st1 = accountDatagramLocked c n cls st2"
  have cm: "commitSendSlot c K ?i n cls (setBuf ?i b st) = flushIfFull c K st1"
    by (simp add: commitSendSlot_def st1_def st2_def ep_def u_def Let_def setBuf_def activeEP_def setEP_def)
  have f: "activeBufs st1 = (activeBufs st)[?i := b]" "Iovlen (activeEP st1) = (Iovlen (activeEP st))[?i := 1]"
    "Iov (activeEP st1) = (Iov (activeEP st))[?i * ?P + 0 := u, ?i * ?P + Suc 0 := v]"
    by (simp_all add: st1_def st2_def ep_def setEP_def setBuf_def activeBufs_def activeEP_def v_def
        list_update_swap [of "?i * ?P" "Suc (?i * ?P)"])
  have os: "onlySlot ?i st st1 \<and> setok c ?P (activeBufs st1) (activeEP st1) \<and> slotIovs st1 ?g ?i 0 = slotIovs st ?g ?i 0 \<and>
    slotIovs st1 ?g ?i (Suc (Suc 0)) = slotIovs st ?g ?i 0 @ [u, v]"
    by (rule onlySlot_upd [OF sh r(5) _ _ _ _ _ _ _ _ f(1) b(1) f(3) _ _ f(2)])
       (use P l0 in \<open>simp_all add: st1_def st2_def fixedPart_def setEP_def setBuf_def u_def\<close>)
  have "slotIovs st ?g ?i 0 = []" by (simp add: slotIovs_def)
  then have "slotIovs st1 ?g ?i (Suc (Suc 0)) = [u, v]" using os by simp
  then have iv: "slotIovs st1 ?g ?i (Suc 0) = [u]" using slotIovs_take [of "Suc 0" "Suc (Suc 0)" st1 ?g ?i] by simp
  have u1: "iovBytes st1 ?g u = img" using f(1) r(5) l0 b by (simp add: iovBytes_def u_def slice_def st1_def st2_def setBuf_def setEP_def activeBufs_def)
  have n1: "Iovlen (activeEP st1) ! ?i = Suc 0" using f(2) r(5) l0 by simp
  have "rel gd c t l H F (pend @ [[(cls, img)]]) st1"
  proof (rule new_slot [OF r(1,4,5)])
    show "onlySlot ?i st st1" "setok c ?P (activeBufs st1) (activeEP st1)" using os by simp_all
    show "slotok st1 ?g ?i (Iovlen (activeEP st1) ! ?i) (dgram c) [snd (cls, img)]"
      unfolding n1 using iv u1 P b l0 by (simp add: slotok_def gather_def iovok_def u_def st1_def st2_def setEP_def setBuf_def)
    show "refs st1 ?g ?i (Iovlen (activeEP st1) ! ?i) \<inter> set (take (uringMark st) (pendingFree (retransmit st))) = {}"
      unfolding n1 using iv l0 by (simp add: refs_def u_def)
    have "accounted c st1 (concat pend @ [(cls, img)])" unfolding st1_def b(3) [symmetric]
      by (rule account_one) (use r b in \<open>simp_all add: rel_def st2_def setEP_def setBuf_def\<close>)
    then show "accounted c st1 (concat pend @ [(cls, img)])" .
  qed (use b r in \<open>simp_all add: st1_def st2_def setEP_def setBuf_def\<close>)
  moreover have "packIdx st1 = None" using r(4) by (simp add: st1_def st2_def setEP_def setBuf_def)
  ultimately have "outcome gd c t l (concat (H @ F) @ concat (pend @ [[(cls, img)]])) (flushIfFull c K st1)"
    by (intro flushIfFull_outcome [OF _ K])
  then show ?thesis unfolding cm r(3) by simp
qed

text \<open>A slice that may be sent by reference: in use, with its bytes in memory, and not about to be recycled.\<close>

definition sendable :: "sendState \<Rightarrow> sliceHdr \<Rightarrow> bytes \<Rightarrow> bool" where
  "sendable st sl bs \<longleftrightarrow> sl \<in> held (retransmit st) \<and> sl \<notin> set (take (uringMark st) (pendingFree (retransmit st))) \<and>
     sliceRead sl (arena (retransmit st)) = bs \<and> slen sl = length bs"

lemma payloadIov_ok:
  assumes "sendable st sl bs" "retransmit st' = retransmit st"
  shows "iovBytes st' g (payloadIov sl) = bs" "iovok (retransmit st') i bd (payloadIov sl)"
    "ibase (payloadIov sl) = IovArena x \<Longrightarrow> x \<notin> set (take (uringMark st) (pendingFree (retransmit st)))"
  using assms by (auto simp: sendable_def iovBytes_def payloadIov_def iovok_def sliceRead_def split: if_splits)

lemma zeroCopy_outcome:
  assumes rd: "ready gd c t l cls T st" and K: "ringOK K" "gd \<longrightarrow> goodK K"
    and b: "length b = dgram c" "hdr = take n b" "length hdr = n" "0 < n" "n + slen sl \<le> dgram c" and s: "sendable st sl bs"
  shows "outcome gd c t l (T @ [(cls, hdr @ bs)]) (commitSendSlotZeroCopy c K (sendN st) n sl cls (setBuf (sendN st) b st))"
proof -
  let ?i = "sendN st" and ?g = "uringSet st" and ?P = "iovsPer st" and ?v = "payloadIov sl"
  from rd obtain H F pend where r: "rel gd c t l H F pend st" "\<not> pacingBatchFullLocked c st"
    "T = concat (H @ F) @ concat pend" "packIdx st = None" "?i < slots c"
    "wirePacer c \<noteq> None \<Longrightarrow> 0 < sendDatagrams st \<Longrightarrow> sendPaceClass st = cls" by (auto simp: ready_def)
  have sh: "shape c st" using r(1) by (simp add: rel_def)
  have P: "2 \<le> ?P" using shapeD(5,6) [OF sh] by simp
  have l0: "length (activeBufs st) = slots c" "length (Iovlen (activeEP st)) = slots c" "length (Iov (activeEP st)) = slots c * ?P"
    "ibase (Iov (activeEP st) ! (?i * ?P)) = IovSlot ?i 0" using shape_set [OF sh] r(5) by (simp_all add: setok_def)
  have ln: "slen sl = length bs" using s by (simp add: sendable_def)
  define u where "u = (Iov (activeEP st) ! (?i * ?P))\<lparr>ilen := n\<rparr>"
  define ep where "ep = (activeEP st)\<lparr>Iov := (Iov (activeEP st))[?i * ?P := u, ?i * ?P + 1 := ?v], Iovlen := (Iovlen (activeEP st))[?i := 2]\<rparr>"
  define st2 where "st2 = (setEP ep (setBuf ?i b st))\<lparr>sendLens := (sendLens st)[?i := n + slen sl], sendN := Suc ?i\<rparr>"
  define st1 where "st1 = accountDatagramLocked c (n + slen sl) cls st2"
  have cm: "commitSendSlotZeroCopy c K ?i n sl cls (setBuf ?i b st) = flushIfFull c K st1"
    by (simp add: commitSendSlotZeroCopy_def st1_def st2_def ep_def u_def Let_def setBuf_def activeEP_def setEP_def)
  have f: "activeBufs st1 = (activeBufs st)[?i := b]" "Iovlen (activeEP st1) = (Iovlen (activeEP st))[?i := 2]"
    "Iov (activeEP st1) = (Iov (activeEP st))[?i * ?P + 0 := u, ?i * ?P + Suc 0 := ?v]"
    by (simp_all add: st1_def st2_def ep_def setEP_def setBuf_def activeBufs_def activeEP_def)
  have os: "onlySlot ?i st st1 \<and> setok c ?P (activeBufs st1) (activeEP st1) \<and> slotIovs st1 ?g ?i 0 = slotIovs st ?g ?i 0 \<and>
    slotIovs st1 ?g ?i (Suc (Suc 0)) = slotIovs st ?g ?i 0 @ [u, ?v]"
    by (rule onlySlot_upd [OF sh r(5) _ _ _ _ _ _ _ _ f(1) b(1) f(3) _ _ f(2)])
       (use P l0 in \<open>simp_all add: st1_def st2_def fixedPart_def setEP_def setBuf_def u_def\<close>)
  have "slotIovs st ?g ?i 0 = []" by (simp add: slotIovs_def)
  then have iv: "slotIovs st1 ?g ?i 2 = [u, ?v]" using os by (simp add: numeral_2_eq_2)
  have q: "retransmit st1 = retransmit st" by (simp add: st1_def st2_def setEP_def setBuf_def)
  note pv = payloadIov_ok [OF s q]
  have u1: "iovBytes st1 ?g u = hdr" using f(1) r(5) l0 b by (simp add: iovBytes_def u_def slice_def st1_def st2_def setBuf_def setEP_def activeBufs_def)
  have n1: "Iovlen (activeEP st1) ! ?i = 2" using f(2) r(5) l0 by simp
  have "rel gd c t l H F (pend @ [[(cls, hdr @ bs)]]) st1"
  proof (rule new_slot [OF r(1,4,5)])
    show "onlySlot ?i st st1" "setok c ?P (activeBufs st1) (activeEP st1)" using os by simp_all
    have "iovsPer st1 = ?P" by (simp add: st1_def st2_def setEP_def setBuf_def)
    then show "slotok st1 ?g ?i (Iovlen (activeEP st1) ! ?i) (dgram c) [snd (cls, hdr @ bs)]"
      unfolding n1 using iv u1 P b(5) l0 pv(1,2) by (simp add: slotok_def gather_def) (simp add: iovok_def u_def)
    show "refs st1 ?g ?i (Iovlen (activeEP st1) ! ?i) \<inter> set (take (uringMark st) (pendingFree (retransmit st))) = {}"
      unfolding n1 using iv l0 pv(3) by (auto simp: refs_def u_def)
    have "n + slen sl = length (hdr @ bs)" using b(3) ln by simp
    then show "accounted c st1 (concat pend @ [(cls, hdr @ bs)])" unfolding st1_def
      by (simp only:) (rule account_one, use r b ln in \<open>simp_all add: rel_def st2_def setEP_def setBuf_def\<close>)
  qed (use b r ln in \<open>simp_all add: st1_def st2_def setEP_def setBuf_def\<close>)
  moreover have "packIdx st1 = None" using r(4) by (simp add: st1_def st2_def setEP_def setBuf_def)
  ultimately have "outcome gd c t l (concat (H @ F) @ concat (pend @ [[(cls, hdr @ bs)]])) (flushIfFull c K st1)"
    by (intro flushIfFull_outcome [OF _ K])
  then show ?thesis unfolding cm r(3) by simp
qed

end
