(* ===== verification/BatchPack.thy ===== *)
theory BatchPack
  imports BatchOps
begin

text \<open>
  GSO packing and the senders: a frame joins the open message or opens a new one, and every sender of
  the connection queues exactly the wire image of its frame.
\<close>

section \<open>Headers\<close>

definition hdrImage :: "config \<Rightarrow> u8 \<Rightarrow> u32 \<Rightarrow> u32 \<Rightarrow> nat \<Rightarrow> bytes" where
  "hdrImage c ft stid sq n =
     header_bytes ft stid sq (of_nat (frameHdrLen c ft - frameHeaderSize + n)) @ replicate (frameHdrLen c ft - frameHeaderSize) 0"

lemma frameHdrLen_ge: "frameHeaderSize \<le> frameHdrLen c ft"
  by (simp add: frameHdrLen_def)

lemma length_hdrImage [simp]: "length (hdrImage c ft stid sq n) = frameHdrLen c ft"
  using frameHdrLen_ge [of c ft] by (simp add: hdrImage_def)

lemma writeFrameHdr_eq:
  assumes "frameHdrLen c ft \<le> length buf"
  shows "writeFrameHdr c buf ft stid sq n = Some (hdrImage c ft stid sq n @ drop (frameHdrLen c ft) buf, frameHdrLen c ft)"
proof -
  let ?k = "frameHdrLen c ft - frameHeaderSize"
  define w where "w = (of_nat (?k + n) :: u32)"
  let ?h = "header_bytes ft stid sq w"
  have le: "frameHeaderSize \<le> length buf" using assms frameHdrLen_ge [of c ft] by simp
  have "put_bytes (?h @ drop frameHeaderSize buf) frameHeaderSize (replicate ?k 0)
    = Some ((?h @ replicate ?k 0) @ drop (length (replicate ?k (0::byte))) (drop frameHeaderSize buf))"
    by (rule put_bytes_append) (use assms in simp_all)
  then show ?thesis
    unfolding writeFrameHdr_def hdrImage_def Let_def w_def [symmetric] encodeHeader_eq [OF le]
    using frameHdrLen_ge [of c ft] by simp
qed

section \<open>Packing\<close>

lemma pack_one:
  fixes st0 :: sendState and c :: config
  defines "hl \<equiv> frameHdrLen c frameData"
  assumes r: "rel gd c t l H F pend st0" "\<not> pacingBatchFullLocked c st0"
      "wirePacer c \<noteq> None \<Longrightarrow> 0 < sendDatagrams st0 \<Longrightarrow> sendPaceClass st0 = paceBulk"
    and st1: "st1 = st0\<lparr>packIdx := Some idx, sendN := Suc idx, packFrames := pf, packBytes := pb, packHdrOff := pf * hl\<rparr>"
    and idx: "idx < slots c" "2 \<le> gsoMaxFrames st0" "pf < gsoMaxFrames st0"
    and prior: "\<forall>f \<in> set (images prior). length f = dgram c" "slotok st0 (uringSet st0) idx (2 * pf) (pf * hl) (images prior)"
      "refs st0 (uringSet st0) idx (2 * pf) \<inter> set (take (uringMark st0) (pendingFree (retransmit st0))) = {}"
    and pend': "length pend' = Suc idx" "pend' ! idx = prior @ [it]" "concat pend' = concat pend @ [it]"
      "\<And>i. i < idx \<Longrightarrow> i < sendN st0 \<and> pend' ! i = pend ! i \<and> packIdx st0 \<noteq> Some i"
    and it: "it = (paceBulk, hdrImage c frameData stid sq (slen sl) @ bs)" "sendable st0 sl bs" "hl + slen sl \<le> dgram c"
  shows "\<exists>st2. packFrame c frameData stid sq sl idx st1 = Some (hl, st2) \<and> rel gd c t l H F pend' st2 \<and> packIdx st2 = Some idx \<and>
    packFrames st2 = Suc pf \<and> gsoMaxFrames st2 = gsoMaxFrames st0 \<and> gsoSize st2 = gsoSize st0"
proof -
  let ?g = "uringSet st0" and ?P = "iovsPer st0" and ?o = "pf * hl" and ?buf = "activeBufs st0 ! idx" and ?v = "payloadIov sl"
  let ?h = "hdrImage c frameData stid sq (slen sl)"
  have sh: "shape c st0" using r(1) by (simp add: rel_def)
  have lh: "length ?h = hl" by (simp add: hl_def)
  have l0: "length (activeBufs st0) = slots c" "length ?buf = dgram c" "length (Iovlen (activeEP st0)) = slots c"
    using shape_set [OF sh] idx by (simp_all add: setok_def)
  have "Suc pf * hl \<le> gsoMaxFrames st0 * hl" using idx(3) by (intro mult_le_mono1) simp
  moreover have "gsoMaxFrames st0 * hl \<le> dgram c" using shapeD(9) [OF sh idx(2)] by (simp add: hl_def frameHdrLen_def split: if_splits)
  ultimately have off: "?o + hl \<le> dgram c" by simp
  define b where "b = take ?o ?buf @ ?h @ drop (?o + hl) ?buf"
  define u where "u = \<lparr>ibase = IovSlot idx ?o, ilen = hl\<rparr>"
  define ep where "ep = (activeEP st0)\<lparr>Iov := (Iov (activeEP st0))[idx * ?P + 2 * pf := u, idx * ?P + 2 * pf + 1 := ?v]\<rparr>"
  define st2' where "st2' = (setEP ep (setBuf idx b st1))\<lparr>packFrames := Suc pf, packHdrOff := ?o + hl, packBytes := pb + hl + slen sl\<rparr>"
  define st2 where "st2 = accountDatagramLocked c (hl + slen sl) paceBulk st2'"
  have lb: "length b = dgram c" using off l0 lh by (simp add: b_def)
  have same: "activeBufs st1 = activeBufs st0" "activeEP st1 = activeEP st0" by (simp_all add: st1 activeBufs_def activeEP_def)
  have w: "writeFrameHdr c (drop ?o ?buf) frameData stid sq (slen sl) = Some (?h @ drop (?o + hl) ?buf, hl)"
    using writeFrameHdr_eq [of c frameData "drop ?o ?buf"] off l0 by (simp add: hl_def add.commute)
  have p: "packFrame c frameData stid sq sl idx st1 = Some (hl, st2)"
    unfolding packFrame_def same using idx l0 off w
    by (simp add: st1 st2_def st2'_def ep_def u_def b_def Let_def setBuf_def setEP_def activeBufs_def activeEP_def)
  have f: "activeBufs st2 = (activeBufs st0)[idx := b]" "Iovlen (activeEP st2) = (Iovlen (activeEP st0))[idx := Iovlen (activeEP st0) ! idx]"
    "Iov (activeEP st2) = (Iov (activeEP st0))[idx * ?P + 2 * pf := u, idx * ?P + Suc (2 * pf) := ?v]"
    by (simp_all add: st2_def st2'_def ep_def setEP_def setBuf_def activeBufs_def activeEP_def st1)
  have kP: "Suc (2 * pf) < ?P" using idx(3) shapeD(5) [OF sh] by simp
  have os: "onlySlot idx st0 st2 \<and> setok c ?P (activeBufs st2) (activeEP st2) \<and> slotIovs st2 ?g idx (2 * pf) = slotIovs st0 ?g idx (2 * pf) \<and>
    slotIovs st2 ?g idx (Suc (Suc (2 * pf))) = slotIovs st0 ?g idx (2 * pf) @ [u, ?v]"
    by (rule onlySlot_upd [OF sh idx(1) _ _ _ _ _ _ _ _ f(1) lb f(3) kP _ f(2)])
       (simp_all add: st2_def st2'_def fixedPart_def setEP_def setBuf_def u_def st1)
  have q: "retransmit st2 = retransmit st0" "iovsPer st2 = ?P" "sendBufSets st2 ?g ! idx = b"
    using f(1) idx l0 by (simp_all add: st2_def st2'_def setEP_def setBuf_def st1 activeBufs_def)
  have old: "slotok st2 ?g idx (2 * pf) ?o (images prior)"
  proof (rule slotok_cong [OF prior(2) _ q(2)])
    have "take ?o b = take ?o ?buf" using off l0 by (simp add: b_def)
    then show "take ?o (sendBufSets st2 ?g ! idx) = take ?o (sendBufSets st0 ?g ! idx)" by (simp add: q activeBufs_def)
    show "stable (refs st0 ?g idx (2 * pf)) (retransmit st0) (retransmit st2)" using refs_held [OF prior(2)] q by (simp add: stable_refl)
  qed (use os in simp)
  note pv = payloadIov_ok [OF it(2) q(1)]
  have "slice b ?o (?o + hl) = ?h" using off l0 lh by (simp add: b_def slice_mid)
  then have u1: "iovBytes st2 ?g u = ?h" using q by (simp add: iovBytes_def u_def)
  have new: "slotok st2 ?g idx (Suc (Suc (2 * pf))) (?o + hl) (images (prior @ [it]))"
    using old os u1 pv(1,2) kP slotok_mono [OF old, of "?o + hl"] unfolding slotok_def gather_def
    by (auto simp: q(2) it(1)) (simp add: u_def iovok_def)
  have cnt: "iovCount st2 idx = Suc (Suc (2 * pf))" "packIdx st2 = Some idx" "packHdrOff st2 = ?o + hl" "packFrames st2 = Suc pf" "sendN st2 = Suc idx"
    "gsoMaxFrames st2 = gsoMaxFrames st0" "gsoSize st2 = gsoSize st0"
    by (simp_all add: iovCount_def st2_def st2'_def setEP_def setBuf_def st1)
  have n: "length (snd it) = hl + slen sl" using it lh by (simp add: sendable_def)
  have "rel gd c t l H F pend' st2"
  proof (rule add_items [OF r(1)])
    show "onlySlot idx st0 st2" "setok c ?P (activeBufs st2) (activeEP st2)" using os by simp_all
    show "length pend' = sendN st2" "sendN st2 \<le> slots c" using pend'(1) cnt idx by simp_all
    show "i < sendN st0 \<and> pend' ! i = pend ! i \<and> packIdx st0 \<noteq> Some i \<and> packIdx st2 \<noteq> Some i" if "i < sendN st2" "i \<noteq> idx" for i
      using that pend'(4) [of i] cnt by auto
    show "slotok st2 ?g idx (iovCount st2 idx) (if packIdx st2 = Some idx then packHdrOff st2 else dgram c) (images (pend' ! idx))"
      using new cnt pend'(2) by simp
    show "segs (dgram c) (images (pend' ! idx))"
      using segs_snoc [OF prior(1), of "snd it"] n it(3) frameHdrLen_ge [of c frameData] by (simp add: pend'(2) hl_def frameHeaderSize_def)
    show "refs st2 ?g idx (iovCount st2 idx) \<inter> set (take (uringMark st0) (pendingFree (retransmit st0))) = {}"
      unfolding cnt refs_def using os prior(3) pv(3) by (auto simp: refs_def u_def)
    show "packed c st2" using cnt idx by (simp add: packed_def hl_def)
    have "accounted c st2 (concat pend @ [(paceBulk, snd it)])" unfolding st2_def n [symmetric]
      by (rule account_one) (use r n it(3) in \<open>simp_all add: rel_def st2'_def setEP_def setBuf_def st1\<close>)
    then show "accounted c st2 (concat pend')" using pend'(3) it(1) by simp
  qed
  then show ?thesis using p cnt by (intro exI [of _ st2]) simp
qed

section \<open>What a flush leaves of the queue\<close>

definition recycled :: "retransmitQueue \<Rightarrow> retransmitQueue \<Rightarrow> bool" where
  "recycled q q' \<longleftrightarrow> (\<exists>a pf. q' = q\<lparr>arena := a, pendingFree := pf\<rparr> \<and> amem a = amem (arena q) \<and> set pf \<subseteq> set (pendingFree q))"

lemma recycled_refl: "recycled q q"
  unfolding recycled_def by (intro exI [of _ "arena q"] exI [of _ "pendingFree q"]) (cases q, simp)

lemma recycled_trans: "recycled p q \<Longrightarrow> recycled q r \<Longrightarrow> recycled p r"
  unfolding recycled_def by fastforce

lemma amem_puts: "amem (fold arenaPut xs a) = amem a"
  by (induction xs arbitrary: a) (auto simp: arenaPut_def)

lemma recycled_drain: "recycled q (drainPendingFree q)" "recycled q (drainPendingFreeFirst m q)"
proof -
  have "recycled q (q\<lparr>arena := fold arenaPut xs (arena q), pendingFree := drop n (pendingFree q)\<rparr>)" for xs n
    unfolding recycled_def
    by (intro exI [of _ "fold arenaPut xs (arena q)"] exI [of _ "drop n (pendingFree q)"]) (simp add: amem_puts set_drop_subset)
  from this [where xs = "pendingFree q" and n = "length (pendingFree q)"] this
  show "recycled q (drainPendingFree q)" "recycled q (drainPendingFreeFirst m q)"
    by (simp_all add: drainPendingFree_def drainPendingFreeFirst_def Let_def)
qed

lemma closePack_keeps [simp]:
  "retransmit (closePackLocked st) = retransmit st" "gsoMaxFrames (closePackLocked st) = gsoMaxFrames st"
  by (simp_all add: closePackLocked_def Let_def setEP_def split: option.split)

lemma uring_keeps:
  "recycled (retransmit st) (retransmit (snd (flushSendUringLocked r n st)))"
  "gsoMaxFrames (snd (flushSendUringLocked r n st)) = gsoMaxFrames st"
  by (simp_all add: flushSendUringLocked_def Let_def hand_def recycled_refl recycled_drain)

lemma flush_keeps:
  "recycled (retransmit st) (retransmit (snd (flushSendLocked c K st)))"
  "gsoMaxFrames (snd (flushSendLocked c K st)) = gsoMaxFrames st"
proof -
  have "recycled (retransmit st) (retransmit (snd (flushSendUringLocked r n (emptied k rs (closePackLocked st)))))"
    "gsoMaxFrames (snd (flushSendUringLocked r n (emptied k rs (closePackLocked st)))) = gsoMaxFrames st" for r n k rs
    using uring_keeps [where st = "emptied k rs (closePackLocked st)" and r = r and n = n] by simp_all
  then show "recycled (retransmit st) (retransmit (snd (flushSendLocked c K st)))"
    "gsoMaxFrames (snd (flushSendLocked c K st)) = gsoMaxFrames st"
    by (simp_all add: flush_eq Let_def recycled_refl recycled_drain hand_def)
qed

lemma split_keeps:
  "recycled (retransmit st) (retransmit (snd (splitPacingClassLocked c K cls st)))"
  "gsoMaxFrames (snd (splitPacingClassLocked c K cls st)) = gsoMaxFrames st"
  by (simp_all add: splitPacingClassLocked_def flush_keeps recycled_refl)

lemma acquire_keeps:
  assumes "acquireSendSlot c K cls st = Some (r, st')"
  shows "recycled (retransmit st) (retransmit st')"
proof -
  obtain e1 st1 where s1: "splitPacingClassLocked c K cls (closePackLocked st) = (e1, st1)" by fastforce
  obtain e2 st2 where s2: "flushSendLocked c K st1 = (e2, st2)" by fastforce
  have k: "recycled (retransmit st) (retransmit st1)" "recycled (retransmit st1) (retransmit st2)"
    using split_keeps(1) [of "closePackLocked st" c K cls] flush_keeps(1) [of st1 c K] s1 s2 by simp_all
  have "st' = st1 \<or> st' = st2" using assms s1 s2 by (auto simp: acquireSendSlot_def split: option.splits if_splits)
  then show ?thesis using k recycled_trans by blast
qed

text \<open>The slice of an outstanding frame.\<close>

definition sendLive :: "retransmitQueue \<Rightarrow> sliceHdr \<Rightarrow> bytes \<Rightarrow> bool" where
  "sendLive q sl bs \<longleftrightarrow> sl \<in> (\<lambda>p. dataOf (qheap q p)) ` set (chain q) \<and> sl \<notin> set (pendingFree q) \<and>
     sliceRead sl (arena q) = bs \<and> slen sl = length bs"

lemma sendLive_recycled: "sendLive q sl bs \<Longrightarrow> recycled q q' \<Longrightarrow> sendLive q' sl bs"
  by (auto simp: sendLive_def recycled_def chain_def sliceRead_def)

lemma sendLive_sendable: "sendLive (retransmit st) sl bs \<Longrightarrow> sendable st sl bs"
  by (auto simp: sendLive_def sendable_def held_def inUse_def dest: in_set_takeD)

section \<open>The queueing functions\<close>

definition queued :: "bool \<Rightarrow> config \<Rightarrow> time \<Rightarrow> sliceHdr list \<Rightarrow> item list \<Rightarrow> (err option \<times> sendState) option \<Rightarrow> bool" where
  "queued gd c t l T res \<longleftrightarrow> (\<exists>r. res = Some r \<and> outcome gd c t l T r)"

lemma outcome_sub:
  assumes "outcome gd c t l T' res" "subseq T' T" "gd \<longrightarrow> T' = T"
  shows "outcome gd c t l T res"
  using assms subseq_order.order_trans unfolding outcome_def by metis

text \<open>An encoder that fills a datagram buffer with a frame.\<close>

definition encodes :: "config \<Rightarrow> (bytes \<Rightarrow> (bytes \<times> nat) option) \<Rightarrow> bytes \<Rightarrow> bool" where
  "encodes c enc img \<longleftrightarrow> 0 < length img \<and> length img \<le> dgram c \<and>
     (\<forall>buf. length buf = dgram c \<longrightarrow> enc buf = Some (img @ drop (length img) buf, length img))"

lemma queueEncoded_queued:
  assumes s: "state gd c t l T st" and K: "ringOK K" "gd \<longrightarrow> goodK K" and e: "encodes c enc img"
  shows "queued gd c t l (T @ [(cls, img)]) (queueEncoded c K cls enc st)"
  using s K
proof (cases rule: acquire_cases [where cls = cls])
  case (err er st')
  then show ?thesis using outcome_drop [OF err(3,2)] by (auto simp: queued_def queueEncoded_def)
next
  case (slot T' st')
  let ?b = "activeBufs st' ! sendN st'"
  have lb: "length ?b = dgram c"
    using slot(2) shape_set [of c st'] by (auto simp: ready_def rel_def setok_def)
  then have en: "enc ?b = Some (img @ drop (length img) ?b, length img)" using e by (simp add: encodes_def)
  have "outcome gd c t l (T' @ [(cls, img)]) (commitSendSlot c K (sendN st') (length img) cls (setBuf (sendN st') (img @ drop (length img) ?b) st'))"
    by (rule commit_outcome [OF slot(2) K]) (use e lb in \<open>simp_all add: encodes_def\<close>)
  moreover have "subseq (T' @ [(cls, img)]) (T @ [(cls, img)])" using slot(3) by simp
  ultimately show ?thesis using slot(1,4) en outcome_sub by (fastforce simp: queued_def queueEncoded_def)
qed

lemma queueZeroCopy_queued:
  assumes s: "state gd c t l T st" and K: "ringOK K" "gd \<longrightarrow> goodK K" and sl: "sendLive (retransmit st) sl bs"
    and fit: "frameHdrLen c ft + length bs \<le> dgram c"
  shows "queued gd c t l (T @ [(cls, hdrImage c ft stid sq (length bs) @ bs)]) (queueZeroCopy c K cls ft stid sq sl st)"
  using s K
proof (cases rule: acquire_cases [where cls = cls])
  case (err er st')
  then show ?thesis using outcome_drop [OF err(3,2)] by (auto simp: queued_def queueZeroCopy_def)
next
  case (slot T' st')
  let ?b = "activeBufs st' ! sendN st'" and ?n = "frameHdrLen c ft" and ?h = "hdrImage c ft stid sq (slen sl)"
  have lb: "length ?b = dgram c"
    using slot(2) shape_set [of c st'] by (auto simp: ready_def rel_def setok_def)
  have n: "slen sl = length bs" using sl by (simp add: sendLive_def)
  have w: "writeFrameHdr c ?b ft stid sq (slen sl) = Some (?h @ drop ?n ?b, ?n)"
    using lb fit by (intro writeFrameHdr_eq) simp
  have "sendable st' sl bs" using sendLive_recycled [OF sl acquire_keeps [OF slot(1)]] by (rule sendLive_sendable)
  then have "outcome gd c t l (T' @ [(cls, ?h @ bs)]) (commitSendSlotZeroCopy c K (sendN st') ?n sl cls (setBuf (sendN st') (?h @ drop ?n ?b) st'))"
    using lb fit n frameHdrLen_ge [of c ft]
    by (intro zeroCopy_outcome [OF slot(2) K]) (simp_all add: frameHeaderSize_def)
  moreover have "subseq (T' @ [(cls, ?h @ bs)]) (T @ [(cls, ?h @ bs)])" using slot(3) by simp
  ultimately show ?thesis using slot(1,4) w n outcome_sub by (fastforce simp: queued_def queueZeroCopy_def)
qed

lemma pendingD:
  assumes "pending c st pend" "i < sendN st"
  shows "slotok st (uringSet st) i (iovCount st i) (if packIdx st = Some i then packHdrOff st else dgram c) (images (pend ! i))"
    "refs st (uringSet st) i (iovCount st i) \<inter> set (take (uringMark st) (pendingFree (retransmit st))) = {}"
  using assms by (simp_all add: pending_def)

text \<open>The open message, or a new one after the batch has been flushed if it was full.\<close>

lemma openPack_queued:
  assumes s: "state gd c t l T st" and K: "ringOK K" "gd \<longrightarrow> goodK K" and gso: "2 \<le> gsoMaxFrames st"
    and cls: "wirePacer c \<noteq> None \<Longrightarrow> 0 < sendDatagrams st \<Longrightarrow> sendPaceClass st = paceBulk"
    and sl: "sendLive (retransmit st) sl bs" and fit: "frameHdrLen c frameData + length bs \<le> dgram c"
    and o: "openPack c K st = (None, st1)"
  shows "\<exists>H F pend idx st2 T'. packIdx st1 = Some idx \<and>
    packFrame c frameData stid sq sl idx st1 = Some (frameHdrLen c frameData, st2) \<and> rel gd c t l H F pend st2 \<and>
    concat (H @ F) @ concat pend = T' @ [(paceBulk, hdrImage c frameData stid sq (length bs) @ bs)] \<and> subseq T' T \<and> (gd \<longrightarrow> T' = T) \<and>
    packIdx st2 = Some idx \<and> 2 \<le> gsoMaxFrames st2 \<and>
    (packFrames st2 < gsoMaxFrames st2 \<longrightarrow> dgram c \<le> frameHdrLen c frameData + length bs \<longrightarrow> openok c st2 pend)"
proof -
  let ?hl = "frameHdrLen c frameData" and ?it = "(paceBulk, hdrImage c frameData stid sq (slen sl) @ bs)"
  from s obtain H F pend where r: "rel gd c t l H F pend st" "\<not> pacingBatchFullLocked c st" "openok c st pend"
    "T = concat (H @ F) @ concat pend" by (auto simp: state_def)
  have n: "slen sl = length bs" using sl by (simp add: sendLive_def)
  show ?thesis
  proof (cases "packIdx st")
    case (Some idx)
    have st1: "st1 = st" using o Some by (simp add: openPack_def)
    have p: "Suc idx = sendN st" "packHdrOff st = packFrames st * ?hl" "sendN st \<le> slots c" "length pend = sendN st"
      using r(1) Some by (auto simp: rel_def packed_def pending_def)
    have op: "packFrames st < gsoMaxFrames st" "\<forall>f \<in> set (images (pend ! idx)). length f = dgram c"
      using r(3) Some by (simp_all add: openok_def)
    have sk: "slotok st (uringSet st) idx (2 * packFrames st) (packFrames st * ?hl) (images (pend ! idx))"
      "refs st (uringSet st) idx (2 * packFrames st) \<inter> set (take (uringMark st) (pendingFree (retransmit st))) = {}"
      using pendingD [of c st pend idx] r(1) Some p by (auto simp: rel_def iovCount_def)
    let ?pend = "pend[idx := pend ! idx @ [?it]]"
    have pl: "pend = butlast pend @ [pend ! idx]" using p by (metis append_butlast_last_id diff_Suc_1 last_conv_nth length_0_conv nat.distinct(1))
    have cc: "concat ?pend = concat pend @ [?it]"
    proof -
      have "?pend = butlast pend @ [pend ! idx @ [?it]]"
        using p pl by (metis diff_Suc_1 length_butlast list_update_length)
      then show ?thesis using pl by (metis append.assoc concat.simps(1,2) concat_append append.right_neutral)
    qed
    have e: "st = st\<lparr>packIdx := Some idx, sendN := Suc idx, packFrames := packFrames st, packBytes := packBytes st,
      packHdrOff := packFrames st * ?hl\<rparr>" using Some p by (cases st) simp
    have "\<exists>st2. packFrame c frameData stid sq sl idx st = Some (?hl, st2) \<and> rel gd c t l H F ?pend st2 \<and> packIdx st2 = Some idx \<and>
      packFrames st2 = Suc (packFrames st) \<and> gsoMaxFrames st2 = gsoMaxFrames st \<and> gsoSize st2 = gsoSize st"
      by (rule pack_one [OF r(1,2) _ e, where prior = "pend ! idx" and it = ?it and bs = bs])
         (use cls gso p op sk Some cc fit n sendLive_sendable [OF sl] in \<open>simp_all\<close>)
    then obtain st2 where s2: "packFrame c frameData stid sq sl idx st = Some (?hl, st2)" "rel gd c t l H F ?pend st2"
      "packIdx st2 = Some idx" "gsoMaxFrames st2 = gsoMaxFrames st" by blast
    have "openok c st2 ?pend" if "packFrames st2 < gsoMaxFrames st2" "dgram c \<le> ?hl + length bs"
      using that s2(3) op(2) p fit n by (auto simp: openok_def)
    then show ?thesis unfolding st1 using Some s2 cc r(4) gso n by fastforce
  next
    case None
    obtain st' e where st': "(if nat (batchSize c) \<le> sendN st then flushSendLocked c K st else (None, st)) = (e, st')" by fastforce
    have st1: "st1 = st'\<lparr>packIdx := Some (sendN st'), sendN := sendN st' + 1, packFrames := 0, packBytes := 0, packHdrOff := 0\<rparr>"
      using o None st' by (auto simp: openPack_def split: option.splits)
    have "outcome gd c t l T (None, st') \<and> packIdx st' = None \<and> recycled (retransmit st) (retransmit st') \<and>
      gsoMaxFrames st' = gsoMaxFrames st \<and> sendN st' < slots c \<and> (sendN st' \<noteq> 0 \<longrightarrow> st' = st)"
    proof (cases "nat (batchSize c) \<le> sendN st")
      case True
      have "e = None" using o None st' by (auto simp: openPack_def split: option.splits)
      moreover have "0 < slots c" using r(1) shapeD(1) by (auto simp: rel_def)
      ultimately show ?thesis using flush_state [OF r(1) K] flush_keeps [where st = st and c = c and K = K] st' True r(4) by simp
    next
      case False
      then show ?thesis using st' None s by (auto simp: slots_def recycled_refl intro: outcome_state)
    qed
    then have f: "outcome gd c t l T (None, st')" "packIdx st' = None" "recycled (retransmit st) (retransmit st')"
      "gsoMaxFrames st' = gsoMaxFrames st" "sendN st' < slots c" "sendN st' \<noteq> 0 \<Longrightarrow> st' = st" by blast+
    from f(1) obtain T' where T': "state gd c t l T' st'" "subseq T' T" "gd \<longrightarrow> T' = T" by (auto simp: outcome_def)
    then obtain H' F' pend' where r': "rel gd c t l H' F' pend' st'" "\<not> pacingBatchFullLocked c st'"
      "T' = concat (H' @ F') @ concat pend'" by (auto simp: state_def)
    have len: "length pend' = sendN st'" using r'(1) by (simp add: rel_def pending_def)
    have cls': "sendPaceClass st' = paceBulk" if "wirePacer c \<noteq> None" "0 < sendDatagrams st'"
    proof (cases "sendN st' = 0")
      case True
      then have "sendDatagrams st' = 0" using r'(1) len that(1) by (auto simp: rel_def accounted_def)
      then show ?thesis using that by simp
    next
      case False
      with f(6) have "st' = st" by blast
      then show ?thesis using cls that by simp
    qed
    have sb: "sendable st' sl bs" using sendLive_recycled [OF sl f(3)] by (rule sendLive_sendable)
    have "\<exists>st2. packFrame c frameData stid sq sl (sendN st') st1 = Some (?hl, st2) \<and> rel gd c t l H' F' (pend' @ [[?it]]) st2 \<and>
      packIdx st2 = Some (sendN st') \<and> packFrames st2 = Suc 0 \<and> gsoMaxFrames st2 = gsoMaxFrames st' \<and> gsoSize st2 = gsoSize st'"
      by (rule pack_one [OF r'(1,2), where pf = 0 and prior = "[]" and it = ?it and bs = bs and pb = 0])
         (use cls' gso f(2,4,5) len sb fit n in \<open>simp_all add: st1 slotok_def slotIovs_def gather_def refs_def nth_append\<close>)
    then obtain st2 where s2: "packFrame c frameData stid sq sl (sendN st') st1 = Some (?hl, st2)" "rel gd c t l H' F' (pend' @ [[?it]]) st2"
      "packIdx st2 = Some (sendN st')" "gsoMaxFrames st2 = gsoMaxFrames st'" by blast
    have "openok c st2 (pend' @ [[?it]])" if "packFrames st2 < gsoMaxFrames st2" "dgram c \<le> ?hl + length bs"
      using that s2(3) len fit n by (auto simp: openok_def nth_append)
    moreover have "packIdx st1 = Some (sendN st')" using st1 by simp
    ultimately show ?thesis using s2 r'(3) T' gso f(4) n by fastforce
  qed
qed

end
