(* ===== verification/BatchRun.thy ===== *)
theory BatchRun
  imports BatchPack
begin

text \<open>
  The send path as a system: the calls a connection makes, the frames they are meant to put on the wire,
  and the theorems that relate the two for every sequence of calls.
\<close>

section \<open>GSO frames\<close>

lemma openPack_error:
  assumes s: "state gd c t l T st" and K: "ringOK K" "gd \<longrightarrow> goodK K" and o: "openPack c K st = (Some er, st1)"
  shows "outcome gd c t l T (Some er, st1) \<and> \<not> gd"
proof -
  from s obtain H F pend where r: "rel gd c t l H F pend st" "T = concat (H @ F) @ concat pend" by (auto simp: state_def)
  have "flushSendLocked c K st = (Some er, st1)" using o by (auto simp: openPack_def split: if_splits option.splits prod.splits)
  with flush_state [OF r(1) K] r(2) have "outcome gd c t l T (Some er, st1)" by simp
  then show ?thesis by (auto simp: outcome_def)
qed

lemma gso_bulk_queued:
  fixes bs stid sq
  defines "it \<equiv> \<lambda>c. (paceBulk, hdrImage c frameData stid sq (length bs) @ bs)"
  assumes s: "state gd c t l T st" and K: "ringOK K" "gd \<longrightarrow> goodK K" and gso: "2 \<le> gsoMaxFrames st"
    and cls: "wirePacer c \<noteq> None \<Longrightarrow> 0 < sendDatagrams st \<Longrightarrow> sendPaceClass st = paceBulk"
    and sl: "sendLive (retransmit st) sl bs" and fit: "frameHdrLen c frameData + length bs \<le> dgram c"
  shows "queued gd c t l (T @ [it c])
    (case openPack c K st of
       (Some er, st1) \<Rightarrow> Some (Some er, st1)
     | (None, st1) \<Rightarrow> do {
         idx \<leftarrow> packIdx st1;
         (hdrLen, st2) \<leftarrow> packFrame c frameData stid sq sl idx st1;
         let full = (gsoSize st2 \<le> hdrLen + slen sl);
         Some (if gsoMaxFrames st2 \<le> packFrames st2 \<or> \<not> full \<or> pacingBatchFullLocked c st2
               then flushIfFull c K (closePackLocked st2) else (None, st2))
       })"
proof -
  obtain e st1 where o: "openPack c K st = (e, st1)" by fastforce
  show ?thesis
  proof (cases e)
    case (Some er)
    then show ?thesis using openPack_error [OF s K, of er st1] o outcome_drop by (fastforce simp: queued_def)
  next
    case None
    from openPack_queued [OF s K gso cls sl fit o [unfolded None], of stid sq] obtain H F pend idx st2 T' where
      p: "packIdx st1 = Some idx" "packFrame c frameData stid sq sl idx st1 = Some (frameHdrLen c frameData, st2)"
        "rel gd c t l H F pend st2" "concat (H @ F) @ concat pend = T' @ [it c]" "subseq T' T" "gd \<longrightarrow> T' = T"
        "2 \<le> gsoMaxFrames st2"
        "packFrames st2 < gsoMaxFrames st2 \<longrightarrow> dgram c \<le> frameHdrLen c frameData + length bs \<longrightarrow> openok c st2 pend"
      unfolding it_def by blast
    have n: "slen sl = length bs" using sl by (simp add: sendLive_def)
    have g: "gsoSize st2 = dgram c" using p(3,7) shapeD(8) by (auto simp: rel_def)
    let ?cl = "gsoMaxFrames st2 \<le> packFrames st2 \<or> \<not> gsoSize st2 \<le> frameHdrLen c frameData + slen sl \<or> pacingBatchFullLocked c st2"
    let ?res = "if ?cl then flushIfFull c K (closePackLocked st2) else (None, st2)"
    have oc: "outcome gd c t l (T' @ [it c]) ?res"
    proof (cases ?cl)
      case True
      then show ?thesis
        using flushIfFull_outcome [OF _ K, where st = "closePackLocked st2"] closePack_rel [OF p(3)] p(4) by fastforce
    next
      case False
      then have "state gd c t l (T' @ [it c]) st2" unfolding state_def
        using p(3,4,8) g n by (intro exI [of _ H] exI [of _ F] exI [of _ pend]) (simp only: not_le not_less de_Morgan_disj, simp)
      then show ?thesis using False by (simp add: outcome_state)
    qed
    have "subseq (T' @ [it c]) (T @ [it c])" using p(5) by simp
    from outcome_sub [OF oc this] p(6) have "outcome gd c t l (T @ [it c]) ?res" by simp
    then show ?thesis using o None p(1,2) by (simp add: queued_def Let_def)
  qed
qed

lemma queueFrameGSO_queued:
  assumes s: "state gd c t l T st" and K: "ringOK K" "gd \<longrightarrow> goodK K" and gso: "2 \<le> gsoMaxFrames st"
    and sl: "sendLive (retransmit st) sl bs" and fit: "frameHdrLen c frameData + length bs \<le> dgram c"
  shows "queued gd c t l (T @ [(paceBulk, hdrImage c frameData stid sq (length bs) @ bs)])
    (queueFrameGSOLocked c K frameData stid sq sl st)"
proof (cases "wirePacer c \<noteq> None \<and> 0 < sendDatagrams st \<and> sendPaceClass st \<noteq> paceBulk")
  case False
  then show ?thesis
    using gso_bulk_queued [OF s K gso _ sl fit, of stid sq] unfolding queueFrameGSOLocked_def if_not_P [OF False] by auto
next
  case True
  let ?it = "(paceBulk, hdrImage c frameData stid sq (length bs) @ bs)"
  obtain e st' where sp: "splitPacingClassLocked c K paceBulk (closePackLocked st) = (e, st')" by fastforce
  note o = split_state [OF s K sp]
  have k: "recycled (retransmit st) (retransmit st')" "gsoMaxFrames st' = gsoMaxFrames st"
    using split_keeps [where st = "closePackLocked st" and c = c and K = K and cls = paceBulk] sp by simp_all
  show ?thesis
  proof (cases e)
    case (Some er)
    then have "\<not> gd" using o by (auto simp: outcome_def)
    then show ?thesis unfolding queueFrameGSOLocked_def if_P [OF True] sp
      using Some o outcome_drop by (fastforce simp: queued_def)
  next
    case None
    from o obtain T' where T': "state gd c t l T' st'" "subseq T' T" "gd \<longrightarrow> T' = T" by (auto simp: outcome_def)
    have "queued gd c t l (T' @ [?it]) (queueFrameGSOLocked c K frameData stid sq sl st)"
      unfolding queueFrameGSOLocked_def if_P [OF True] sp None prod.case option.case
      by (rule gso_bulk_queued [OF T'(1) K]) (use o k gso fit sendLive_recycled [OF sl k(1)] in simp_all)
    moreover have "subseq (T' @ [?it]) (T @ [?it])" using T'(2) by simp
    ultimately show ?thesis using T'(3) outcome_sub unfolding queued_def by fastforce
  qed
qed

section \<open>Changes of the retransmission queue\<close>

text \<open>A change that keeps the buffers in use and only appends to the buffers waiting to be recycled.\<close>

definition grows :: "retransmitQueue \<Rightarrow> retransmitQueue \<Rightarrow> bool" where
  "grows q q' \<longleftrightarrow> stable (held q) q q' \<and> (\<exists>ys. pendingFree q' = pendingFree q @ ys)"

lemma slotok_queue:
  assumes "slotok st g i n bd fs" "grows (retransmit st) q"
  shows "slotok (st\<lparr>retransmit := q\<rparr>) g i n bd fs" "refs (st\<lparr>retransmit := q\<rparr>) g i n = refs st g i n"
proof -
  show "slotok (st\<lparr>retransmit := q\<rparr>) g i n bd fs"
    by (rule slotok_cong [OF assms(1)])
       (use assms(2) stable_sub [OF _ refs_held [OF assms(1)]] in \<open>simp_all add: slotIovs_def grows_def\<close>)
qed (simp add: refs_def slotIovs_def)

lemma rel_queue:
  assumes r: "rel gd c t l H F pend st" and q: "grows (retransmit st) q" "qok t' l' q"
  shows "rel gd c t' l' H F pend (st\<lparr>retransmit := q\<rparr>)"
proof -
  let ?st = "st\<lparr>retransmit := q\<rparr>"
  have m: "uringMark st \<le> length (pendingFree (retransmit st))" and fl: "inflight c st F" and pe: "pending c st pend"
    using r by (auto simp: rel_def inflight_def)
  obtain ys where ys: "pendingFree q = pendingFree (retransmit st) @ ys" using q by (auto simp: grows_def)
  then have tk: "take (uringMark st) (pendingFree q) = take (uringMark st) (pendingFree (retransmit st))" using m by simp
  have cnt: "iovCount ?st i = iovCount st i" for i by (simp add: iovCount_def activeEP_def)
  have "shape c ?st" by (rule shape_fields [of c st]) (use r in \<open>simp_all add: rel_def fixedPart_def\<close>)
  moreover have "pending c ?st pend"
  proof -
    have "slotok ?st (uringSet st) i (iovCount st i) (if packIdx st = Some i then packHdrOff st else dgram c) (images (pend ! i)) \<and>
      refs ?st (uringSet st) i (iovCount st i) = refs st (uringSet st) i (iovCount st i)" if "i < sendN st" for i
      using slotok_queue [OF pendingD(1) [OF pe that] q(1)] by blast
    then show ?thesis using pe by (simp add: pending_def cnt tk split del: if_split cong: if_cong)
  qed
  moreover have "inflight c ?st F" using fl slotok_queue(1) [OF _ q(1)] ys by (simp add: inflight_def)
  moreover have "packed c ?st" "accounted c ?st (concat pend)" "logged c ?st (H @ F)" "charged gd c ?st (concat (H @ F))"
    using r by (simp_all add: rel_def packed_def accounted_def logged_def charged_def split: option.splits)
  ultimately show ?thesis using q(2) by (simp add: rel_def)
qed

lemma state_queue:
  assumes "state gd c t l T st" "grows (retransmit st) q" "qok t' l' q"
  shows "state gd c t' l' T (st\<lparr>retransmit := q\<rparr>)"
proof -
  from assms(1) obtain H F pend where "rel gd c t l H F pend st" "\<not> pacingBatchFullLocked c st" "openok c st pend"
    "T = concat (H @ F) @ concat pend" by (auto simp: state_def)
  then show ?thesis unfolding state_def using rel_queue [OF _ assms(2,3)]
    by (intro exI [of _ H] exI [of _ F] exI [of _ pend])
       (simp add: openok_def pacingBatchFullLocked_def split: option.splits)
qed

text \<open>The slice \<open>add\<close> returns belongs to the new frame and to nothing else.\<close>

lemma queueAdd_live:
  assumes ok: "qok t l q" and e: "t \<le> now" "retransmitKey stid sq \<notin> fKey ` set (frames q)"
    and r: "queueAdd now ft stid sq bs q = (sl, q')"
  shows "sendLive q' sl bs \<and> grows q q' \<and> qok now l q'"
proof -
  note a = queueAdd_spec [OF ok e r]
  let ?u = "inUse [] q (chain q)" and ?u' = "inUse [] q' (chain q')"
  have d: "distinct (inUse [] q'' (chain q''))" if "qok t'' l'' q''" for t'' l'' q''
  proof -
    have "distinct (map sbuf (inUse l'' q'' (chain q'') @ afree (arena q'')))"
      using that by (auto simp: qok_def qinv_def owned_def)
    then have "distinct (map sbuf (inUse [] q'' (chain q'')))" by (auto simp: inUse_def)
    then show ?thesis by (simp add: distinct_map)
  qed
  have "length (chain q'') = length (frames q'')" if "qok t'' l'' q''" for t'' l'' q''
    using that frames_eq by (auto simp: qok_def)
  then have "length (chain q') = Suc (length (chain q))" using ok a by (metis length_append_singleton)
  then have len: "length ?u' = Suc (length ?u)" using a by (simp add: inUse_def)
  have "sl \<notin> set ?u"
  proof
    assume "sl \<in> set ?u"
    then have "set ?u' = set ?u" using a by auto
    then have "card (set ?u') = card (set ?u)" by simp
    then show False using distinct_card [OF d [OF ok]] distinct_card [OF d, of now l q'] a len by simp
  qed
  then have np: "sl \<notin> set (pendingFree q')" using a by (simp add: inUse_def)
  moreover have "sl \<in> set ?u'" using a by simp
  ultimately have "sl \<in> (\<lambda>p. dataOf (qheap q' p)) ` set (chain q')" by (auto simp: inUse_def)
  moreover have "slen sl = length bs"
  proof -
    obtain a1 where "arenaGet (length bs) (arena q) = (sl, a1)"
      using r by (auto simp: queueAdd_def Let_def split: prod.splits)
    then show ?thesis using arenaGet_owned ok by (auto simp: qok_def qinv_def)
  qed
  ultimately have "sendLive q' sl bs" using a np by (simp add: sendLive_def)
  moreover have "stable (held q) q q'"
    using a held_inUse [of q l] by (auto simp: stable_def held_def untouched_def)
  ultimately show ?thesis using a by (simp add: grows_def)
qed

section \<open>Encoders\<close>

text \<open>The reserved prefix of a DATA frame under FEC.\<close>

definition fecPrefix :: "config \<Rightarrow> u8 \<Rightarrow> bytes" where
  "fecPrefix c ft = replicate (frameHdrLen c ft - frameHeaderSize) 0"

lemma hdrImage_frame: "hdrImage c ft stid sq (length pl) @ pl = frame_bytes ft stid sq (fecPrefix c ft @ pl)"
  by (simp add: hdrImage_def frame_bytes_def fecPrefix_def)

lemma length_fecPrefix: "frameHeaderSize + length (fecPrefix c ft) = frameHdrLen c ft"
  using frameHdrLen_ge [of c ft] by (simp add: fecPrefix_def)

lemma encodes_frame:
  assumes "\<And>buf. length buf = dgram c \<Longrightarrow>
      enc buf = Some (frame_bytes ft stid sq pl @ drop (frameHeaderSize + length pl) buf, frameHeaderSize + length pl)"
    and "frameHeaderSize + length pl \<le> dgram c"
  shows "encodes c enc (frame_bytes ft stid sq pl)"
  using assms by (simp add: encodes_def frameHeaderSize_def)

lemma encodes_control:
  assumes "frameHeaderSize \<le> dgram c"
  shows "encodes c (encodeControl ft stid sq) (frame_bytes ft stid sq [])"
  by (rule encodes_frame) (use assms in \<open>simp_all add: encodeControl_def encodeHeader_eq frame_bytes_def\<close>)

lemma encodes_windowUpdate:
  assumes "frameHeaderSize + 8 \<le> dgram c"
  shows "encodes c (encodeWindowUpdate stid off) (frame_bytes frameWindowUpdate stid 0 (windowUpdatePayload off))"
proof (rule encodes_frame)
  fix buf :: bytes assume b: "length buf = dgram c"
  let ?h = "header_bytes frameWindowUpdate stid 0 8"
  have "put_bytes (?h @ drop frameHeaderSize buf) frameHeaderSize (be64 off)
    = Some ((?h @ be64 off) @ drop (length (be64 off)) (drop frameHeaderSize buf))"
    by (rule put_bytes_append) (use b assms in simp_all)
  then show "encodeWindowUpdate stid off buf = Some (frame_bytes frameWindowUpdate stid 0 (windowUpdatePayload off) @
      drop (frameHeaderSize + length (windowUpdatePayload off)) buf, frameHeaderSize + length (windowUpdatePayload off))"
    using b assms by (simp add: encodeWindowUpdate_def encodeHeader_eq frame_bytes_def windowUpdatePayload_def add.commute)
qed (use assms in \<open>simp add: windowUpdatePayload_def\<close>)

lemma encodes_seqList:
  assumes "frameHeaderSize + 8 + 4 * length seqs \<le> dgram c" "dgram c < 2 ^ 32"
  shows "encodes c (\<lambda>b. encodeSeqListFrame b ft stid cum seqs) (frame_bytes ft stid 0 (seqlist_bytes cum seqs))"
  by (rule encodes_frame) (use assms in \<open>simp_all add: encodeSeqListFrame_eq add.assoc\<close>)

lemma encodes_plain:
  assumes "frameHeaderSize + length pl \<le> dgram c" "dgram c < 2 ^ 32"
  shows "encodes c (\<lambda>b. encodeFrame b ft stid sq pl) (frame_bytes ft stid sq pl)"
  by (rule encodes_frame) (use assms in \<open>simp_all add: encodeFrame_eq\<close>)

lemma encodes_fec:
  assumes "frameHeaderSize + fecMetaLen + length xorData \<le> dgram c"
  shows "encodes c (encodeFec ft stid base cnt xorLen xorData) (frame_bytes ft stid base (be32 (fecMeta cnt xorLen) @ xorData))"
proof (rule encodes_frame)
  fix buf :: bytes assume b: "length buf = dgram c"
  define w where "w = (of_nat (fecMetaLen + length xorData) :: u32)"
  let ?h = "header_bytes ft stid base w" and ?m = "be32 (fecMeta cnt xorLen)"
  have le: "frameHeaderSize \<le> length buf" using b assms by simp
  have p: "put_bytes (?h @ drop frameHeaderSize buf) frameHeaderSize ?m
    = Some ((?h @ ?m) @ drop (length ?m) (drop frameHeaderSize buf))"
    by (rule put_bytes_append) (use b assms in \<open>simp_all add: fecMetaLen_def\<close>)
  have f: "frame_bytes ft stid base (?m @ xorData) = ?h @ ?m @ xorData"
    by (simp add: frame_bytes_def w_def fecMetaLen_def)
  have g: "go_copy ((?h @ ?m) @ drop (length ?m) (drop frameHeaderSize buf)) (frameHeaderSize + fecMetaLen) xorData
    = ?h @ ?m @ xorData @ drop (frameHeaderSize + fecMetaLen + length xorData) buf"
    using b assms by (subst go_copy_at) (simp_all add: fecMetaLen_def add_ac)
  show "encodeFec ft stid base cnt xorLen xorData buf = Some (frame_bytes ft stid base (?m @ xorData) @
      drop (frameHeaderSize + length (?m @ xorData)) buf, frameHeaderSize + length (?m @ xorData))"
    unfolding encodeFec_def w_def [symmetric] encodeHeader_eq [OF le] f using p g by (simp add: fecMetaLen_def add.assoc)
qed (use assms in \<open>simp add: fecMetaLen_def\<close>)

lemma encodes_resend:
  assumes "frameHdrLen c ft + length pl \<le> dgram c"
  shows "encodes c (encodeResend c ft stid sq pl) (frame_bytes ft stid sq (fecPrefix c ft @ pl))"
proof (rule encodes_frame)
  fix buf :: bytes assume b: "length buf = dgram c"
  have le: "frameHdrLen c ft \<le> length buf" using b assms by simp
  let ?h = "hdrImage c ft stid sq (length pl)"
  have "go_copy (?h @ drop (frameHdrLen c ft) buf) (frameHdrLen c ft) pl = (?h @ pl) @ drop (frameHdrLen c ft + length pl) buf"
    using b assms by (subst go_copy_at) (simp_all add: add.commute)
  moreover have n: "frameHeaderSize + length (fecPrefix c ft @ pl) = frameHdrLen c ft + length pl"
    using length_fecPrefix [of c ft] by simp
  ultimately show "encodeResend c ft stid sq pl buf = Some (frame_bytes ft stid sq (fecPrefix c ft @ pl) @
      drop (frameHeaderSize + length (fecPrefix c ft @ pl)) buf, frameHeaderSize + length (fecPrefix c ft @ pl))"
    unfolding n hdrImage_frame [symmetric] encodeResend_def writeFrameHdr_eq [OF le] by simp
qed (use assms length_fecPrefix [of c ft] in simp)

section \<open>Senders\<close>

lemma flushSend_queued:
  assumes "state gd c t l T st" "ringOK K" "gd \<longrightarrow> goodK K"
  shows "outcome gd c t l T (flushSend c K st) \<and> sendN (snd (flushSend c K st)) = 0"
  using assms flush_state [OF _ assms(2,3)] by (auto simp: state_def flushSend_def)

lemma thenFlush_queued:
  assumes "queued gd c t l T res" "ringOK K" "gd \<longrightarrow> goodK K"
  shows "queued gd c t l T (thenFlush c K res)"
proof -
  from assms(1) obtain e st where r: "res = Some (e, st)" "outcome gd c t l T (e, st)" by (auto simp: queued_def)
  then obtain T' where T': "state gd c t l T' st" "subseq T' T" "gd \<longrightarrow> e = None \<and> T' = T" by (auto simp: outcome_def)
  show ?thesis
  proof (cases e)
    case None
    have "outcome gd c t l T (flushSend c K st)"
      using outcome_sub [OF conjunct1 [OF flushSend_queued [OF T'(1) assms(2,3)]] T'(2)] T'(3) by simp
    then show ?thesis using r None by (simp add: thenFlush_def queued_def)
  qed (use r in \<open>simp add: thenFlush_def queued_def\<close>)
qed

lemma sendDataFrame_queued:
  assumes s: "state gd c t l T st" and K: "ringOK K" "gd \<longrightarrow> goodK K"
    and e: "t \<le> now" "retransmitKey stid sq \<notin> fKey ` set (frames (retransmit st))"
    and fit: "frameHdrLen c frameData + length pl \<le> dgram c"
  shows "queued gd c now l (T @ [(paceBulk, frame_bytes frameData stid sq (fecPrefix c frameData @ pl))]) (sendDataFrame c K now stid sq pl st)"
proof -
  obtain sl q where a: "queueAdd now frameData stid sq pl (retransmit st) = (sl, q)" by fastforce
  have "qok t l (retransmit st)" using s by (auto simp: state_def rel_def)
  note l = queueAdd_live [OF this e a]
  have s1: "state gd c now l T (st\<lparr>retransmit := q\<rparr>)" using state_queue [OF s] l by blast
  have "sendLive (retransmit (st\<lparr>retransmit := q\<rparr>)) sl pl" using l by simp
  note qd = queueFrameGSO_queued [OF s1 K _ this fit] queueZeroCopy_queued [OF s1 K this fit]
  show ?thesis unfolding hdrImage_frame [symmetric] using qd a by (simp add: sendDataFrame_def Let_def)
qed

lemma sendReliableFrame_queued:
  assumes s: "state gd c t l T st" and K: "ringOK K" "gd \<longrightarrow> goodK K"
    and e: "t \<le> now" "retransmitKey stid sq \<notin> fKey ` set (frames (retransmit st))"
    and fit: "frameHdrLen c ft + length pl \<le> dgram c"
  shows "queued gd c now l (T @ [(paceCritical, frame_bytes ft stid sq (fecPrefix c ft @ pl))]) (sendReliableFrame c K now ft stid sq pl st)"
proof -
  obtain sl q where a: "queueAdd now ft stid sq pl (retransmit st) = (sl, q)" by fastforce
  have "qok t l (retransmit st)" using s by (auto simp: state_def rel_def)
  note l = queueAdd_live [OF this e a]
  have s1: "state gd c now l T (st\<lparr>retransmit := q\<rparr>)" using state_queue [OF s] l by blast
  have "sendLive (retransmit (st\<lparr>retransmit := q\<rparr>)) sl pl" using l by simp
  from thenFlush_queued [OF queueZeroCopy_queued [OF s1 K this fit] K]
  show ?thesis unfolding hdrImage_frame [symmetric] using a by (simp add: sendReliableFrame_def Let_def)
qed

text \<open>The chunks of a gap report.\<close>

definition nackItem :: "u32 \<Rightarrow> u32 list \<Rightarrow> item" where
  "nackItem stid chunk = (paceCritical, frame_bytes frameNack stid 0 (seqlist_bytes 0 chunk))"

lemma nackLoop_outcome:
  assumes "state gd c t l T st" "ringOK K" "gd \<longrightarrow> goodK K" "0 < m" "frameHeaderSize + 8 + 4 * m \<le> dgram c" "dgram c < 2 ^ 32"
  shows "\<exists>r st'. seqListChunkLoop m (nackChunk c K stid) seqs (Some st) = (r, Some st') \<and> r \<noteq> Inl None \<and>
    outcome gd c t l (T @ map (nackItem stid) (chunks_of m seqs)) (case r of Inl e \<Rightarrow> e | Inr _ \<Rightarrow> None, st')"
  using assms(1,5)
proof (induction m seqs arbitrary: st T rule: chunks_of.induct)
  case (1 m seqs)
  show ?case
  proof (cases "seqs = [] \<or> m = 0")
    case True
    then show ?thesis using "1.prems"
      by (simp add: seqListChunkLoop.simps [of m] chunks_of.simps [of m] outcome_state)
  next
    case False
    let ?c = "take m seqs"
    have tk: "take (min (length seqs) m) seqs = ?c" "drop (min (length seqs) m) seqs = drop m seqs"
      by (simp_all add: min_def)
    have "queued gd c t l (T @ [nackItem stid ?c]) (queueNackFrame c K stid ?c st)"
      unfolding queueNackFrame_def nackItem_def
      by (rule queueEncoded_queued [OF "1.prems"(1) assms(2,3)], rule encodes_seqList) (use "1.prems"(2) assms(6) in \<open>auto simp: min_def\<close>)
    then obtain e st1 where q: "queueNackFrame c K stid ?c st = Some (e, st1)" "outcome gd c t l (T @ [nackItem stid ?c]) (e, st1)"
      by (auto simp: queued_def)
    have L: "seqListChunkLoop m (nackChunk c K stid) seqs (Some st) =
      (case nackChunk c K stid (Some st) ?c of (Inl e, s') \<Rightarrow> (Inl e, s') | (Inr _, s') \<Rightarrow> seqListChunkLoop m (nackChunk c K stid) (drop m seqs) s')"
      unfolding seqListChunkLoop.simps [of m _ seqs] if_not_P [OF False] Let_def tk ..
    have N: "nackChunk c K stid (Some st) ?c = (case e of Some er \<Rightarrow> (Inl (Some er), Some st1) | None \<Rightarrow> (Inr (), Some st1))"
      using q(1) by (simp add: nackChunk_def split: option.split)
    have C: "chunks_of m seqs = ?c # chunks_of m (drop m seqs)" using False by (subst chunks_of.simps) simp
    show ?thesis
    proof (cases e)
      case (Some er)
      then have "\<not> gd" using q(2) by (auto simp: outcome_def)
      from outcome_drop [OF q(2) this, of "map (nackItem stid) (chunks_of m (drop m seqs))" "Some er"]
      show ?thesis using L N Some by (simp add: C)
    next
      case None
      from q(2) obtain T' where T': "state gd c t l T' st1" "subseq T' (T @ [nackItem stid ?c])" "gd \<longrightarrow> T' = T @ [nackItem stid ?c]"
        by (auto simp: outcome_def)
      from "1.IH" [OF False T'(1) "1.prems"(2)] obtain r st' where
        ih: "seqListChunkLoop m (nackChunk c K stid) (drop m seqs) (Some st1) = (r, Some st')" "r \<noteq> Inl None"
          "outcome gd c t l (T' @ map (nackItem stid) (chunks_of m (drop m seqs))) (case r of Inl e \<Rightarrow> e | Inr _ \<Rightarrow> None, st')" by blast
      have "subseq (T' @ map (nackItem stid) (chunks_of m (drop m seqs))) ((T @ [nackItem stid ?c]) @ map (nackItem stid) (chunks_of m (drop m seqs)))"
        using T'(2) by (rule list_emb_append_mono) simp
      from outcome_sub [OF ih(3) this] T'(3) show ?thesis using L N None ih by (simp add: C)
    qed
  qed
qed

lemma sendNackFrames_queued:
  assumes s: "state gd c t l T st" and K: "ringOK K" "gd \<longrightarrow> goodK K" and m: "12 \<le> maxPayload c" "dgram c < 2 ^ 32"
  shows "queued gd c t l (T @ map (nackItem stid) (chunks_of (nat (maxAckSeqsPerFrame (maxPayload c))) seqs)) (sendNackFrames c K stid seqs st)"
proof -
  let ?m = "nat (maxAckSeqsPerFrame (maxPayload c))"
  have pos: "0 < maxAckSeqsPerFrame (maxPayload c)" using m by (simp add: maxAckSeqsPerFrame_pos_iff)
  have "frameHeaderSize + 8 + 4 * ?m \<le> dgram c"
    using maxAckSeqsPerFrame_fits [OF m(1)] pos by (simp add: dgram_def maxDatagram_def)
  from nackLoop_outcome [OF s K _ this m(2), of stid seqs] pos obtain r st' where
    n: "seqListChunkLoop ?m (nackChunk c K stid) seqs (Some st) = (r, Some st')" "r \<noteq> Inl None"
      "outcome gd c t l (T @ map (nackItem stid) (chunks_of ?m seqs)) (case r of Inl e \<Rightarrow> e | Inr _ \<Rightarrow> None, st')" by auto
  then have q: "queued gd c t l (T @ map (nackItem stid) (chunks_of ?m seqs)) (Some (case r of Inl e \<Rightarrow> e | Inr _ \<Rightarrow> None, st'))"
    by (simp add: queued_def)
  show ?thesis
    using q thenFlush_queued [OF q K] n pos by (cases r) (auto simp: sendNackFrames_def thenFlush_def)
qed

end
