(* ===== verification/BatchProps.thy ===== *)
theory BatchProps
  imports BatchRun
begin

text \<open>
  The calls on the send path as events, what each is meant to put on the wire, and the properties of every
  sequence of them: order and contents of the datagrams, pacing charges, and the safety of messages the
  kernel still reads.
\<close>

section \<open>Events\<close>

datatype sendEvent =
    SvData time u32 u32 bytes
  | SvReliable time u8 u32 u32 bytes
  | SvFec u8 u32 u32 nat nat bytes
  | SvQueueWindow u32 u64
  | SvWindow u32 u64
  | SvControl u8 u32 u32
  | SvQueueAck u32 u32 "u32 list"
  | SvNacks u32 "u32 list"
  | SvResend retransmitEntry
  | SvReset u32 u64
  | SvHandshake u64
  | SvFlush
  | SvQueue qevent

text \<open>The system: the send state, the clock reading of the last recorded frame, and the copies on loan to the
  resend worker.\<close>

record bsys =
  bclock :: time
  blent :: "sliceHdr list"
  bst :: sendState

definition qsysOf :: "bsys \<Rightarrow> qsys" where
  "qsysOf s = \<lparr>clock = bclock s, lent = blent s, queue = retransmit (bst s)\<rparr>"

definition lift :: "time \<Rightarrow> bsys \<Rightarrow> (err option \<times> sendState) option \<Rightarrow> (err option \<times> bsys) option" where
  "lift t s r = (case r of None \<Rightarrow> None | Some (e, st) \<Rightarrow> Some (e, s\<lparr>bclock := t, bst := st\<rparr>))"

definition bstep :: "config \<Rightarrow> (nat \<Rightarrow> kernelRes) \<Rightarrow> sendEvent \<Rightarrow> bsys \<Rightarrow> (err option \<times> bsys) option" where
  "bstep c K ev s =
     (case ev of
        SvData now i sq pl \<Rightarrow> lift now s (sendDataFrame c K now i sq pl (bst s))
      | SvReliable now ft i sq pl \<Rightarrow> lift now s (sendReliableFrame c K now ft i sq pl (bst s))
      | SvFec ft i base n xl xd \<Rightarrow> lift (bclock s) s (sendFecFrame c K ft i base n xl xd (bst s))
      | SvQueueWindow i off \<Rightarrow> lift (bclock s) s (queueWindowUpdate c K i off (bst s))
      | SvWindow i off \<Rightarrow> lift (bclock s) s (sendWindowUpdate c K i off (bst s))
      | SvControl ft i sq \<Rightarrow> lift (bclock s) s (sendControlFrame c K ft i sq (bst s))
      | SvQueueAck i cum seqs \<Rightarrow> lift (bclock s) s (queueACKFrame c K i cum seqs (bst s))
      | SvNacks i seqs \<Rightarrow> lift (bclock s) s (sendNackFrames c K i seqs (bst s))
      | SvResend e \<Rightarrow> lift (bclock s) s (queueResendCopy c K e (bst s))
      | SvReset i code \<Rightarrow> lift (bclock s) s (sendResetNoQueue c K i code (bst s))
      | SvHandshake connID \<Rightarrow> lift (bclock s) s (sendHandshake c K connID (bst s))
      | SvFlush \<Rightarrow> lift (bclock s) s (Some (flushSend c K (bst s)))
      | SvQueue q \<Rightarrow>
          (let r = qstep q (qsysOf s)
           in Some (None, s\<lparr>bclock := clock r, blent := lent r, bst := (bst s)\<lparr>retransmit := queue r\<rparr>\<rparr>)))"

text \<open>The frames an event is meant to send, with their pacing class.\<close>

definition bitems :: "config \<Rightarrow> sendEvent \<Rightarrow> bsys \<Rightarrow> item list" where
  "bitems c ev s =
     (case ev of
        SvData now i sq pl \<Rightarrow> [(paceBulk, frame_bytes frameData i sq (fecPrefix c frameData @ pl))]
      | SvReliable now ft i sq pl \<Rightarrow> [(paceCritical, frame_bytes ft i sq (fecPrefix c ft @ pl))]
      | SvFec ft i base n xl xd \<Rightarrow> [(paceBulk, frame_bytes ft i base (be32 (fecMeta n xl) @ xd))]
      | SvQueueWindow i off \<Rightarrow> [(paceCritical, frame_bytes frameWindowUpdate i 0 (windowUpdatePayload off))]
      | SvWindow i off \<Rightarrow> [(paceCritical, frame_bytes frameWindowUpdate i 0 (windowUpdatePayload off))]
      | SvControl ft i sq \<Rightarrow> [(paceCritical, frame_bytes ft i sq [])]
      | SvQueueAck i cum seqs \<Rightarrow> [(paceCritical, frame_bytes frameACK i 0 (seqlist_bytes cum seqs))]
      | SvNacks i seqs \<Rightarrow> map (nackItem i) (chunks_of (nat (maxAckSeqsPerFrame (maxPayload c))) seqs)
      | SvResend e \<Rightarrow> [(paceRecovery, frame_bytes (eftype e) (estreamID e) (eseq e)
          (fecPrefix c (eftype e) @ sliceRead (dataOf e) (arena (retransmit (bst s)))))]
      | SvReset i code \<Rightarrow> [(paceCritical, frame_bytes frameStreamReset i 0 (resetPayload code))]
      | SvHandshake connID \<Rightarrow> [(paceCritical, frame_bytes frameHandshake 0 0 (handshakePayload connID))]
      | SvFlush \<Rightarrow> []
      | SvQueue q \<Rightarrow> [])"

fun drains :: "qevent \<Rightarrow> bool" where
  "drains EvDrain = True"
| "drains (EvDrainFirst n) = True"
| "drains _ = False"

lemma drains_iff: "drains q \<longleftrightarrow> q = EvDrain \<or> (\<exists>n. q = EvDrainFirst n)"
  by (cases q) auto

text \<open>What the callers guarantee: frames fit a datagram, and the guards of the retransmission queue.\<close>

definition benabled :: "config \<Rightarrow> sendEvent \<Rightarrow> bsys \<Rightarrow> bool" where
  "benabled c ev s =
     (case ev of
        SvData now i sq pl \<Rightarrow> qenabled (EvAdd now frameData i sq pl) (qsysOf s) \<and> frameHdrLen c frameData + length pl \<le> dgram c
      | SvReliable now ft i sq pl \<Rightarrow> qenabled (EvAdd now ft i sq pl) (qsysOf s) \<and> frameHdrLen c ft + length pl \<le> dgram c
      | SvFec ft i base n xl xd \<Rightarrow> frameHeaderSize + fecMetaLen + length xd \<le> dgram c
      | SvQueueAck i cum seqs \<Rightarrow> frameHeaderSize + 8 + 4 * length seqs \<le> dgram c
      | SvResend e \<Rightarrow> frameHdrLen c (eftype e) + length (sliceRead (dataOf e) (arena (retransmit (bst s)))) \<le> dgram c
      | SvQueue q \<Rightarrow> qenabled q (qsysOf s) \<and> \<not> drains q
      | _ \<Rightarrow> True)"

definition sendConfig :: "config \<Rightarrow> bool" where
  "sendConfig c \<longleftrightarrow> 12 \<le> maxPayload c \<and> maxPayload c < 2 ^ 31 \<and> 0 < batchSize c \<and>
     (\<forall>p. wirePacer c = Some p \<longrightarrow> 0 < burstBytes p) \<and> (enableGSO c \<longrightarrow> 136 \<le> maxDatagram c)"

fun brun :: "config \<Rightarrow> (nat \<Rightarrow> kernelRes) \<Rightarrow> sendEvent list \<Rightarrow> bsys \<Rightarrow> bsys option" where
  "brun c K [] s = Some s"
| "brun c K (ev # evs) s = (case bstep c K ev s of None \<Rightarrow> None | Some (e, s') \<Rightarrow> brun c K evs s')"

fun ballowed :: "config \<Rightarrow> (nat \<Rightarrow> kernelRes) \<Rightarrow> sendEvent list \<Rightarrow> bsys \<Rightarrow> bool" where
  "ballowed c K [] s = True"
| "ballowed c K (ev # evs) s = (benabled c ev s \<and> (case bstep c K ev s of None \<Rightarrow> True | Some (e, s') \<Rightarrow> ballowed c K evs s'))"

fun bexpected :: "config \<Rightarrow> (nat \<Rightarrow> kernelRes) \<Rightarrow> sendEvent list \<Rightarrow> bsys \<Rightarrow> item list" where
  "bexpected c K [] s = []"
| "bexpected c K (ev # evs) s = bitems c ev s @ (case bstep c K ev s of None \<Rightarrow> [] | Some (e, s') \<Rightarrow> bexpected c K evs s')"

section \<open>Steps\<close>

lemma removeLocked_appends: "\<exists>ys. pendingFree (removeLocked k p q) = pendingFree q @ ys"
  by (simp add: removeLocked_simps)

definition appends :: "retransmitQueue \<Rightarrow> retransmitQueue \<Rightarrow> bool" where
  "appends q q' \<longleftrightarrow> (\<exists>ys. pendingFree q' = pendingFree q @ ys)"

lemma appends_refl: "pendingFree q' = pendingFree q \<Longrightarrow> appends q q'"
  by (simp add: appends_def)

lemma appends_trans: "appends p q \<Longrightarrow> appends q r \<Longrightarrow> appends p r"
  by (auto simp: appends_def)

lemma ackFold_appends: "appends q (snd (snd (fold (ackBody now i) seqs (fr, rtt, q))))"
proof (induction seqs arbitrary: fr rtt q)
  case (Cons sq seqs)
  obtain fr' rtt' q' where b: "ackBody now i sq (fr, rtt, q) = (fr', rtt', q')" by (metis prod_cases3)
  then have "appends q q'" using removeLocked_appends
    by (auto simp: ackBody_def Let_def appends_def split: option.splits)
  then show ?case using Cons [where fr = fr' and rtt = rtt' and q = q'] b appends_trans by simp
qed (simp add: appends_refl)

lemma purgeFold_appends: "appends q (fold (purgeBody i) L q)"
proof (induction L arbitrary: q)
  case (Cons kp L)
  have "appends q (purgeBody i kp q)" using removeLocked_appends by (auto simp: appends_def split: prod.splits)
  then show ?case using Cons appends_trans by (simp only: fold.simps o_apply)
qed (simp add: appends_refl)

lemma dueWalk_pendingFree: "dueWalk k now rto cur reqs q = Some (r, q') \<Longrightarrow> pendingFree q' = pendingFree q"
  by (induction k now rto cur reqs q arbitrary: r q' rule: dueWalk.induct) (auto split: option.splits if_splits)

lemma qstep_appends:
  assumes "ev \<noteq> EvDrain" "\<forall>n. ev \<noteq> EvDrainFirst n" "sysok s" "qenabled ev s"
  shows "appends (queue s) (queue (qstep ev s))"
proof (cases ev)
  case (EvAdd now ft i sq pl)
  obtain sl q' where r: "queueAdd now ft i sq pl (queue s) = (sl, q')" by fastforce
  have "pendingFree q' = pendingFree (queue s)"
    using queueAdd_spec [OF assms(3) [unfolded sysok_def] _ _ r] assms(4) EvAdd by (auto simp: qenabled_def)
  then show ?thesis using EvAdd r by (simp add: qstep_def appends_refl)
next
  case (EvAckMany now i seqs)
  then show ?thesis using ackFold_appends by (simp add: qstep_def ackMany_def)
next
  case (EvAckCumulative now i cum)
  have "appends (queue s) (snd (snd (ackCumulative now i cum (queue s))))"
    using ackFold_appends [of "queue s" now i _ 0 0]
    by (auto simp: ackCumulative_def Let_def appends_refl appends_def split: prod.splits) (metis snd_conv)+
  then show ?thesis using EvAckCumulative by (simp add: qstep_def)
next
  case (EvAckOne i sq)
  then show ?thesis using ackFold_appends [of "queue s" 0 i "[sq]" 0 0]
    by (simp add: qstep_def ackOne_ackMany [of _ _ _ 0] ackMany_def)
next
  case (EvPurge i)
  then show ?thesis using purgeFold_appends [of "queue s" i] by (simp add: qstep_def purgeStream_def Let_def appends_def)
next
  case (EvTake now req)
  have "pendingFree (pushTail p q1) = pendingFree q1" "pendingFree (unlink p q1) = pendingFree q1" for p q1
    using samePoolD(4) pushTail_keeps(2) unlink_keeps(2) by blast+
  then have "pendingFree (snd (takeForResend now req (queue s))) = pendingFree (queue s)"
    by (simp add: takeForResend_def Let_def split: option.split prod.split)
  then show ?thesis using EvTake by (auto simp: qstep_def appends_refl split: prod.splits option.splits)
next
  case (EvDue now rto)
  then show ?thesis using dueWalk_pendingFree
    by (auto simp: qstep_def due_def split: option.splits intro!: appends_refl)
qed (use assms in \<open>auto simp: qstep_def requestForResend_def releaseResendCopy_def split: option.splits intro!: appends_refl\<close>)

lemma queue_event_state:
  assumes s: "state gd c (bclock s) (blent s) T (bst s)" and e: "qenabled q (qsysOf s)" "q \<noteq> EvDrain" "\<forall>n. q \<noteq> EvDrainFirst n"
    and r: "r = qstep q (qsysOf s)"
  shows "state gd c (clock r) (lent r) T ((bst s)\<lparr>retransmit := queue r\<rparr>)"
proof (rule state_queue [OF s])
  have ok: "sysok (qsysOf s)" using s by (auto simp: sysok_def qsysOf_def state_def rel_def)
  have q0: "queue (qsysOf s) = retransmit (bst s)" by (simp add: qsysOf_def)
  show "qok (clock r) (lent r) (queue r)" using rq.step_inv [OF ok e(1)] r by (simp add: sysok_def)
  show "grows (retransmit (bst s)) (queue r)"
    using qstep_held [OF ok e(1)] qstep_appends [OF e(2,3) ok e(1)] e(2,3) r q0
    by (simp add: grows_def stable_def appends_def)
qed

lemma lift_step:
  assumes "queued gd c t (blent s) T' res"
  shows "\<exists>e s'. lift t s res = Some (e, s') \<and>
    (\<exists>T''. state gd c (bclock s') (blent s') T'' (bst s') \<and> subseq T'' T' \<and> (gd \<longrightarrow> T'' = T'))"
  using assms by (auto simp: queued_def outcome_def lift_def)

lemma bstep_state:
  assumes cfg: "sendConfig c" and s: "state gd c (bclock s) (blent s) T (bst s)" and K: "ringOK K" "gd \<longrightarrow> goodK K"
    and en: "benabled c ev s"
  shows "\<exists>e s'. bstep c K ev s = Some (e, s') \<and>
    (\<exists>T'. state gd c (bclock s') (blent s') T' (bst s') \<and> subseq T' (T @ bitems c ev s) \<and> (gd \<longrightarrow> T' = T @ bitems c ev s))"
proof -
  have d: "frameHeaderSize + 12 \<le> dgram c" "dgram c < 2 ^ 32" "12 \<le> maxPayload c"
    using cfg by (auto simp: sendConfig_def dgram_def maxDatagram_def frameHeaderSize_def)
  note enc = queueEncoded_queued [OF s K]
  note encF = thenFlush_queued [OF enc K]
  note ls = lift_step [where s = s]
  show ?thesis
  proof (cases ev)
    case (SvData now i sq pl)
    have "queued gd c now (blent s) (T @ bitems c ev s) (sendDataFrame c K now i sq pl (bst s))"
      using en SvData sendDataFrame_queued [OF s K] by (simp add: benabled_def bitems_def qenabled_def qsysOf_def)
    from ls [OF this] show ?thesis using SvData by (simp add: bstep_def)
  next
    case (SvReliable now ft i sq pl)
    have "queued gd c now (blent s) (T @ bitems c ev s) (sendReliableFrame c K now ft i sq pl (bst s))"
      using en SvReliable sendReliableFrame_queued [OF s K] by (simp add: benabled_def bitems_def qenabled_def qsysOf_def)
    from ls [OF this] show ?thesis using SvReliable by (simp add: bstep_def)
  next
    case (SvFec ft i base n xl xd)
    have "queued gd c (bclock s) (blent s) (T @ bitems c ev s) (sendFecFrame c K ft i base n xl xd (bst s))"
      using en SvFec enc [OF encodes_fec] by (simp add: benabled_def bitems_def sendFecFrame_def)
    from ls [OF this] show ?thesis using SvFec by (simp add: bstep_def)
  next
    case (SvQueueWindow i off)
    have "queued gd c (bclock s) (blent s) (T @ bitems c ev s) (queueWindowUpdate c K i off (bst s))"
      using d SvQueueWindow enc [OF encodes_windowUpdate] by (simp add: bitems_def queueWindowUpdate_def)
    from ls [OF this] show ?thesis using SvQueueWindow by (simp add: bstep_def)
  next
    case (SvWindow i off)
    have "queued gd c (bclock s) (blent s) (T @ bitems c ev s) (sendWindowUpdate c K i off (bst s))"
      using d SvWindow encF [OF encodes_windowUpdate] by (simp add: bitems_def queueWindowUpdate_def sendWindowUpdate_def)
    from ls [OF this] show ?thesis using SvWindow by (simp add: bstep_def)
  next
    case (SvControl ft i sq)
    have "queued gd c (bclock s) (blent s) (T @ bitems c ev s) (sendControlFrame c K ft i sq (bst s))"
      using d SvControl encF [OF encodes_control] by (simp add: bitems_def sendControlFrame_def)
    from ls [OF this] show ?thesis using SvControl by (simp add: bstep_def)
  next
    case (SvQueueAck i cum seqs)
    have "queued gd c (bclock s) (blent s) (T @ bitems c ev s) (queueACKFrame c K i cum seqs (bst s))"
      using d en SvQueueAck enc [OF encodes_seqList] by (simp add: benabled_def bitems_def queueACKFrame_def encodeAckFrame_def)
    from ls [OF this] show ?thesis using SvQueueAck by (simp add: bstep_def)
  next
    case (SvNacks i seqs)
    have "queued gd c (bclock s) (blent s) (T @ bitems c ev s) (sendNackFrames c K i seqs (bst s))"
      using SvNacks sendNackFrames_queued [OF s K d(3,2)] by (simp add: bitems_def)
    from ls [OF this] show ?thesis using SvNacks by (simp add: bstep_def)
  next
    case (SvResend e)
    have "queued gd c (bclock s) (blent s) (T @ bitems c ev s) (queueResendCopy c K e (bst s))"
      using en SvResend enc [OF encodes_resend] by (simp add: benabled_def bitems_def queueResendCopy_def)
    from ls [OF this] show ?thesis using SvResend by (simp add: bstep_def)
  next
    case (SvReset i code)
    have "queued gd c (bclock s) (blent s) (T @ bitems c ev s) (sendResetNoQueue c K i code (bst s))"
      using d SvReset encF [OF encodes_plain] by (simp add: bitems_def sendResetNoQueue_def resetPayload_def)
    from ls [OF this] show ?thesis using SvReset by (simp add: bstep_def)
  next
    case (SvHandshake connID)
    have "queued gd c (bclock s) (blent s) (T @ bitems c ev s) (sendHandshake c K connID (bst s))"
      using d SvHandshake encF [OF encodes_plain] by (simp add: bitems_def sendHandshake_def handshakePayload_def)
    from ls [OF this] show ?thesis using SvHandshake by (simp add: bstep_def)
  next
    case SvFlush
    have "queued gd c (bclock s) (blent s) (T @ bitems c ev s) (Some (flushSend c K (bst s)))"
      using SvFlush flushSend_queued [OF s K] by (simp add: bitems_def queued_def)
    from ls [OF this] show ?thesis using SvFlush by (simp add: bstep_def)
  next
    case (SvQueue q)
    have "state gd c (clock (qstep q (qsysOf s))) (lent (qstep q (qsysOf s))) T ((bst s)\<lparr>retransmit := queue (qstep q (qsysOf s))\<rparr>)"
      using en SvQueue by (intro queue_event_state [OF s]) (simp_all add: benabled_def drains_iff)
    then show ?thesis using SvQueue by (auto simp: bstep_def bitems_def Let_def)
  qed
qed

lemma brun_state:
  assumes cfg: "sendConfig c" and K: "ringOK K" "gd \<longrightarrow> goodK K"
  shows "state gd c (bclock s) (blent s) T (bst s) \<Longrightarrow> ballowed c K evs s \<Longrightarrow>
    \<exists>s' T'. brun c K evs s = Some s' \<and> state gd c (bclock s') (blent s') T' (bst s') \<and>
      subseq T' (T @ bexpected c K evs s) \<and> (gd \<longrightarrow> T' = T @ bexpected c K evs s)"
proof (induction evs arbitrary: s T)
  case (Cons ev evs)
  from bstep_state [OF cfg Cons.prems(1) K, of ev] Cons.prems(2) obtain e s1 T1 where
    st: "bstep c K ev s = Some (e, s1)" "state gd c (bclock s1) (blent s1) T1 (bst s1)" "subseq T1 (T @ bitems c ev s)"
      "gd \<longrightarrow> T1 = T @ bitems c ev s" by auto
  from Cons.IH [OF st(2)] Cons.prems(2) st(1) obtain s' T' where
    ih: "brun c K evs s1 = Some s'" "state gd c (bclock s') (blent s') T' (bst s')" "subseq T' (T1 @ bexpected c K evs s1)"
      "gd \<longrightarrow> T' = T1 @ bexpected c K evs s1" by auto
  have "subseq (T1 @ bexpected c K evs s1) ((T @ bitems c ev s) @ bexpected c K evs s1)" using st(3) by (rule list_emb_append_mono) simp
  with ih(3) have "subseq T' ((T @ bitems c ev s) @ bexpected c K evs s1)" by (rule subseq_order.order_trans)
  then show ?case using st(1,4) ih by auto
qed auto

section \<open>The initial state\<close>

definition bstart :: "config \<Rightarrow> bool \<Rightarrow> bool \<Rightarrow> bool \<Rightarrow> time \<Rightarrow> bsys" where
  "bstart c segmentOk groOk ringOk t = \<lparr>bclock = t, blent = [], bst = newSendState c segmentOk groOk ringOk\<rparr>"

lemma concat_block:
  assumes "\<And>i. length (f i) = k" "i < n" "j < k"
  shows "concat (map f [0..<n]) ! (i * k + j) = f i ! j" "length (concat (map f [0..<n])) = n * k"
proof -
  have l: "length (concat (map f [0..<n])) = n * k" for n
    by (induction n) (simp_all add: assms(1))
  show "length (concat (map f [0..<n])) = n * k" by (rule l)
  show "concat (map f [0..<n]) ! (i * k + j) = f i ! j" using assms(2)
  proof (induction n)
    case (Suc n)
    show ?case
    proof (cases "i = n")
      case True
      then show ?thesis using l [of n] assms(3) by (simp add: nth_append)
    next
      case False
      with Suc have "Suc i * k \<le> n * k" by (intro mult_le_mono1) simp
      then have "i * k + j < n * k" using assms(3) by simp
      then show ?thesis using l [of n] Suc False by (simp add: nth_append)
    qed
  qed simp
qed

lemma setupEP_ok:
  assumes "0 < per"
  shows "length (Iov (setupEP n per)) = n * per" "length (Iovlen (setupEP n per)) = n"
    "i < n \<Longrightarrow> ibase (Iov (setupEP n per) ! (i * per)) = IovSlot i 0"
proof -
  let ?f = "\<lambda>i. \<lparr>ibase = IovSlot i 0, ilen = 0\<rparr> # replicate (per - 1) \<lparr>ibase = IovNil, ilen = 0\<rparr>"
  have l: "length (?f i) = per" for i using assms by simp
  show "length (Iov (setupEP n per)) = n * per"
    using assms by (simp add: setupEP_def length_concat comp_def sum_list_triv)
  show "length (Iovlen (setupEP n per)) = n" by (simp add: setupEP_def)
  show "ibase (Iov (setupEP n per) ! (i * per)) = IovSlot i 0" if "i < n"
    using concat_block(1) [of ?f per i n 0, OF l that assms] by (simp add: setupEP_def)
qed

lemma gsoFrames_cases:
  assumes "gsoFrames c sg gr = (sz, mx)"
  shows "0 < mx \<and> mx \<le> 8 \<and> (2 \<le> mx \<longrightarrow> sz = dgram c \<and> enableGSO c)"
  using assms by (auto simp: gsoFrames_def Let_def dgram_def split: if_splits)

lemma bstart_state:
  assumes c: "sendConfig c"
  shows "state gd c t [] [] (bst (bstart c sg gr rg t))"
proof -
  let ?st = "newSendState c sg gr rg"
  obtain sz mx where g: "gsoFrames c sg gr = (sz, mx)" by fastforce
  note gs = gsoFrames_cases [OF g]
  have D: "frameHeaderSize + 12 \<le> dgram c" "0 < slots c" using c
    by (auto simp: sendConfig_def dgram_def maxDatagram_def frameHeaderSize_def slots_def)
  have room: "2 \<le> mx \<Longrightarrow> mx * (frameHeaderSize + (if 0 < fecGroup c then fecMetaLen else 0)) \<le> dgram c"
  proof -
    assume "2 \<le> mx"
    then have "136 \<le> dgram c" using gs c by (auto simp: sendConfig_def dgram_def)
    moreover have "mx * (frameHeaderSize + (if 0 < fecGroup c then fecMetaLen else 0)) \<le> 8 * 17"
      using gs by (intro mult_le_mono) (auto simp: frameHeaderSize_def fecMetaLen_def)
    ultimately show ?thesis by simp
  qed
  have "setok c (2 * mx) (replicate (nat (batchSize c)) (replicate (nat (maxDatagram c)) 0)) (setupEP (nat (batchSize c)) (2 * mx))"
    using setupEP_ok [of "2 * mx"] gs by (simp add: setok_def slots_def dgram_def)
  then have "shape c ?st" using D gs room by (simp add: shape_def newSendState_def g slots_def Let_def)
  moreover have "qok t [] (newRetransmitQueue (nat (maxPayload c)))" using qinv_qok [OF qinv_new] .
  moreover have "accounted c ?st []"
    using c Cost_nonneg [of _ "dgram c"] by (auto simp: accounted_def newSendState_def g Let_def sendConfig_def add_pos_nonneg split: option.splits)
  ultimately have r: "rel gd c t [] [] [] [] ?st"
    using D by (simp add: rel_def pending_def packed_def inflight_def logged_def charged_def chargedTo_def costOf_def fun_eq_iff
        newSendState_def g Let_def newRetransmitQueue_def split: option.split)
  then show ?thesis unfolding state_def using notfull_empty [OF r]
    by (intro exI [of _ "[]"]) (simp add: bstart_def openok_def newSendState_def g Let_def)
qed

section \<open>Concrete runs\<close>

definition kernelOK :: "nat \<Rightarrow> kernelRes" where
  "kernelOK i = \<lparr>kShutdown = False, kGrant = True, kTaken = 0, kErrno = 0, kSubmit = 0, kWait = 0, kCollect = 0\<rparr>"

lemma kernelOK_good: "ringOK kernelOK" "goodK kernelOK"
  by (simp_all add: ringOK_def goodK_def kernelOK_def)

definition demoSend :: "sendEvent list" where
  "demoSend = [SvData 1 1 0 [5, 6], SvControl framePing 0 0, SvFlush]"

definition pacedConfig :: config where
  "pacedConfig = defaultConfig\<lparr>wirePacer := Some \<lparr>rate = 1000000, burstBytes = 2000, accounting = zeroAccounting, tokens = 2000,
     last_t = 0, recoveryWaiters = 0, criticalWaiters = 0, stats = zeroStats\<rparr>\<rparr>"

definition ringConfig :: config where
  "ringConfig = defaultConfig\<lparr>batchSize := 2, maxPayload := 12, fecGroup := 0, enableGSO := False\<rparr>"

lemma demo_configs: "sendConfig defaultConfig" "sendConfig pacedConfig" "sendConfig ringConfig"
  by (simp_all add: sendConfig_def pacedConfig_def ringConfig_def defaultConfig_def default_defs defaultMaxPayloadSize_def maxDatagram_def)

lemma frames_start: "frames (retransmit (bst (bstart c sg gr rg t))) = []"
proof -
  have "retransmit (bst (bstart c sg gr rg t)) = newRetransmitQueue (nat (maxPayload c))"
    by (simp add: bstart_def newSendState_def Let_def split: prod.split)
  then show ?thesis using frames_eq [OF qinv_new] by simp
qed

lemma demo_allowed:
  assumes "frameHdrLen c frameData + 2 \<le> dgram c"
  shows "ballowed c K demoSend (bstart c sg gr rg 0)"
  using assms frames_start [of c sg gr rg 0]
  by (simp add: demoSend_def benabled_def qenabled_def qsysOf_def split: option.split prod.split) (simp add: bstart_def)

lemma sendN_flush: "sendN (snd (flushSendLocked c K st)) = 0"
  by (simp add: flush_eq Let_def flushSendUringLocked_def hand_def)

text \<open>A run that ends in a flush has nothing pending, and its frames are the ones of its events.\<close>

lemma demo_run:
  assumes "brun c K demoSend s = Some s'"
  shows "sendN (bst s') = 0" "bexpected c K demoSend s = [(paceBulk, frame_bytes frameData 1 0 (fecPrefix c frameData @ [5, 6])),
    (paceCritical, frame_bytes framePing 0 0 [])]"
  using assms sendN_flush
  by (auto simp: demoSend_def bstep_def [of _ _ SvFlush] lift_def [of _ _ "Some _"] flushSend_def bitems_def split: option.splits prod.splits)
     (metis snd_conv)+

section \<open>Theorems\<close>

text \<open>The datagrams on the wire: the messages handed to the kernel, each cut at the segment size.\<close>

definition datagrams :: "config \<Rightarrow> sendState \<Rightarrow> bytes list" where
  "datagrams c st = concat (map (chunks_of (dgram c)) (handed st))"

lemma datagrams_eq: "logged c st H \<Longrightarrow> datagrams c st = images (concat H)"
proof -
  assume l: "logged c st H"
  then have "map (chunks_of (dgram c)) (handed st) = map images H"
    using chunks_of_segs by (simp add: logged_def)
  then show ?thesis by (simp add: datagrams_def map_concat)
qed



text \<open>C36 (functional). Pacing charges are exact. With a shared pacer, no batch asks it for more than its burst and one
  datagram, however many frames were queued; and when no flush fails, after the last batch each class
  (critical, recovery, bulk) has been charged the accounted cost of exactly its own datagrams: bulk data
  never travels in a batch that a control frame exempted from waiting.\<close>

theorem pacing_charges_exact:
  assumes "sendConfig c" and "ringOK K" and "ballowed c K evs (bstart c sg gr rg t)" and "wirePacer c = Some p"
    and "brun c K evs (bstart c sg gr rg t) = Some s"
  shows "(\<forall>r \<in> set (paceLog (bst s)). prWire r < burstBytes p + Cost (accounting p) (dgram c)) \<and>
    (goodK K \<and> sendN (bst s) = 0 \<longrightarrow>
       (\<forall>cls. chargedTo (paceLog (bst s)) cls = costOf p (bexpected c K evs (bstart c sg gr rg t)) cls))"
proof -
  let ?s = "bstart c sg gr rg t"
  have "state (goodK K) c (bclock ?s) (blent ?s) [] (bst ?s)" using bstart_state [OF assms(1), of "goodK K" t sg gr rg]
    by (simp add: bstart_def)
  from brun_state [OF assms(1,2) _ this assms(3)] assms(5) obtain T where
    r: "state (goodK K) c (bclock s) (blent s) T (bst s)" "goodK K \<longrightarrow> T = bexpected c K evs ?s" by auto
  then obtain H F pend where h: "rel (goodK K) c (bclock s) (blent s) H F pend (bst s)" "T = concat (H @ F) @ concat pend"
    by (auto simp: state_def)
  have "pend = []" if "sendN (bst s) = 0" using h(1) that by (simp add: rel_def pending_def)
  then show ?thesis using h r(2) assms(4) by (auto simp: rel_def charged_def)
qed

theorem pacing_charges_exact_witness:
  "\<exists>s p. brun pacedConfig kernelOK demoSend (bstart pacedConfig False False False 0) = Some s \<and> wirePacer pacedConfig = Some p \<and>
    chargedTo (paceLog (bst s)) paceBulk = 19 \<and> chargedTo (paceLog (bst s)) paceCritical = 13"
proof -
  let ?s0 = "bstart pacedConfig False False False 0"
  obtain p where p: "wirePacer pacedConfig = Some p" "accounting p = zeroAccounting" by (simp add: pacedConfig_def)
  have "frameHdrLen pacedConfig frameData + 2 \<le> dgram pacedConfig"
    by (simp add: frameHdrLen_def dgram_def maxDatagram_def pacedConfig_def defaultConfig_def default_defs defaultMaxPayloadSize_def frameHeaderSize_def fecMetaLen_def)
  note al = demo_allowed [OF this, of kernelOK False False False]
  have "state True pacedConfig 0 [] [] (bst ?s0)" by (rule bstart_state [OF demo_configs(2)])
  then obtain s where s: "brun pacedConfig kernelOK demoSend ?s0 = Some s"
    using brun_state [OF demo_configs(2) kernelOK_good(1), of True ?s0 "[]" demoSend] kernelOK_good al by (auto simp: bstart_def)
  from pacing_charges_exact [OF demo_configs(2) kernelOK_good(1) al p(1) s] demo_run [OF s] kernelOK_good(2)
  have "chargedTo (paceLog (bst s)) cls = costOf p [(paceBulk, frame_bytes frameData 1 0 (fecPrefix pacedConfig frameData @ [5, 6])),
    (paceCritical, frame_bytes framePing 0 0 [])] cls" for cls by auto
  moreover have "length (fecPrefix pacedConfig frameData) = 4"
    by (simp add: fecPrefix_def frameHdrLen_def pacedConfig_def defaultConfig_def default_defs fecMetaLen_def)
  ultimately show ?thesis using s p by (auto simp: costOf_def Cost_def zeroAccounting_def frameHeaderSize_def)
qed




end
