(* ===== verification/Resend.thy ===== *)
theory Resend
  imports BatchProps
begin

text \<open>
  The resend worker (\<open>connection.go\<close>): the work queue of retransmission keys under \<open>resendMu\<close>
  (\<open>enqueueResends\<close>, \<open>popResend\<close>) and the drain that revalidates each key, takes a private copy of the frame
  and queues it as recovery traffic (\<open>serviceResends\<close>).

  \<open>resendState\<close> holds the queue with its head index, the wake-up token (a channel of capacity one), and the
  counter. Each \<open>takeForResend\<close> reads the clock: the argument \<open>clk\<close> gives the reading for the frame that will
  be counted as number \<open>i\<close>.
\<close>

section \<open>The work queue\<close>

record resendState =
  resendQueue :: "retransmitRequest list"
  resendHead :: nat
  resendWake :: bool
  statResends :: nat

definition newResendState :: resendState where
  "newResendState = \<lparr>resendQueue = [], resendHead = 0, resendWake = False, statResends = 0\<rparr>"

definition enqueueResends :: "retransmitRequest list \<Rightarrow> resendState \<Rightarrow> resendState" where
  "enqueueResends reqs w =
     (if reqs = [] then w else w\<lparr>resendQueue := resendQueue w @ reqs, resendWake := True\<rparr>)"

definition zeroRequest :: retransmitRequest where
  "zeroRequest = \<lparr>reqStream = 0, reqSeq = 0\<rparr>"

definition popResend :: "resendState \<Rightarrow> retransmitRequest option \<times> resendState" where
  "popResend w =
     (if length (resendQueue w) \<le> resendHead w then (None, w\<lparr>resendQueue := [], resendHead := 0\<rparr>)
      else
        let req = resendQueue w ! resendHead w;
            w1 = w\<lparr>resendQueue := (resendQueue w)[resendHead w := zeroRequest], resendHead := resendHead w + 1\<rparr>
        in (Some req,
            if 1024 \<le> resendHead w1 \<and> length (resendQueue w1) \<le> resendHead w1 * 2
            then let q = go_copy (resendQueue w1) 0 (drop (resendHead w1) (resendQueue w1))
                 in w1\<lparr>resendQueue := take (length q - resendHead w1) q, resendHead := 0\<rparr>
            else w1))"

text \<open>The requests not served yet.\<close>

definition waiting :: "resendState \<Rightarrow> retransmitRequest list" where
  "waiting w = drop (resendHead w) (resendQueue w)"

lemma waiting_enqueue: "resendHead w \<le> length (resendQueue w) \<Longrightarrow> waiting (enqueueResends reqs w) = waiting w @ reqs"
  by (simp add: waiting_def enqueueResends_def)

lemma popResend_Nil: "waiting w = [] \<Longrightarrow> popResend w = (None, w\<lparr>resendQueue := [], resendHead := 0\<rparr>)"
  by (simp add: waiting_def popResend_def)

lemma popResend_Cons:
  assumes "waiting w = req # reqs"
  shows "\<exists>w'. popResend w = (Some req, w') \<and> waiting w' = reqs \<and> resendHead w' \<le> length (resendQueue w') \<and>
    statResends w' = statResends w \<and> resendWake w' = resendWake w"
proof -
  let ?h = "resendHead w" and ?q = "resendQueue w"
  have h: "?h < length ?q" using assms by (simp add: waiting_def) (metis drop_eq_Nil list.distinct(1) not_le)
  have r: "?q ! ?h = req" "drop (Suc ?h) ?q = reqs" using assms h by (simp_all add: waiting_def Cons_nth_drop_Suc [symmetric])
  let ?q1 = "?q[?h := zeroRequest]"
  have d: "drop (Suc ?h) ?q1 = reqs" using r by simp
  have len: "length ?q - Suc ?h = length reqs" using r(2) by auto
  have "take (length ?q1 - Suc ?h) (go_copy ?q1 0 (drop (Suc ?h) ?q1)) = reqs"
    using d h len by (simp add: go_copy_def)
  then show ?thesis using h r d by (auto simp: popResend_def Let_def waiting_def)
qed

text \<open>The queue implements a first-in first-out list of requests.\<close>

datatype resendEvent = RvEnqueue "retransmitRequest list" | RvPop

definition rstep :: "resendEvent \<Rightarrow> resendState \<Rightarrow> resendState" where
  "rstep ev w = (case ev of RvEnqueue reqs \<Rightarrow> enqueueResends reqs w | RvPop \<Rightarrow> snd (popResend w))"

definition fifoStep :: "resendEvent \<Rightarrow> retransmitRequest list \<Rightarrow> retransmitRequest list" where
  "fifoStep ev rs = (case ev of RvEnqueue reqs \<Rightarrow> rs @ reqs | RvPop \<Rightarrow> tl rs)"

definition headOk :: "resendState \<Rightarrow> bool" where
  "headOk w \<longleftrightarrow> resendHead w \<le> length (resendQueue w)"

interpretation fifo: simulation waiting headOk "\<lambda>_ _. True" rstep fifoStep
proof
  fix w ev assume w: "headOk w"
  have "headOk (rstep ev w) \<and> waiting (rstep ev w) = fifoStep ev (waiting w)"
  proof (cases ev)
    case (RvEnqueue reqs)
    then show ?thesis using w waiting_enqueue [of w reqs]
      by (auto simp: rstep_def fifoStep_def headOk_def enqueueResends_def)
  next
    case RvPop
    show ?thesis
    proof (cases "waiting w")
      case Nil
      then show ?thesis using popResend_Nil [OF Nil] RvPop by (simp add: rstep_def fifoStep_def headOk_def waiting_def)
    next
      case (Cons req reqs)
      from popResend_Cons [OF Cons] Cons RvPop show ?thesis by (auto simp: rstep_def fifoStep_def headOk_def)
    qed
  qed
  then show "headOk (rstep ev w)" "waiting (rstep ev w) = fifoStep ev (waiting w)" by auto
qed

section \<open>The drain\<close>

definition stubbornResendThreshold :: int where "stubbornResendThreshold = 2"

text \<open>The inner loop over the copies: it stops at the first error; \<open>queued\<close> tells whether any was queued.\<close>

fun resendCopies ::
  "config \<Rightarrow> (nat \<Rightarrow> kernelRes) \<Rightarrow> nat \<Rightarrow> retransmitEntry \<Rightarrow> bool \<Rightarrow> sendState \<Rightarrow> (bool \<times> sendState) option" where
  "resendCopies c K 0 e qd st = Some (qd, st)"
| "resendCopies c K (Suc n) e qd st =
     (case queueResendCopy c K e st of
        None \<Rightarrow> None
      | Some (Some er, st') \<Rightarrow> Some (qd, st')
      | Some (None, st') \<Rightarrow> resendCopies c K n e True st')"

text \<open>One request: revalidate, take, queue the copies, release the copy.\<close>

definition resendOne ::
  "config \<Rightarrow> (nat \<Rightarrow> kernelRes) \<Rightarrow> (nat \<Rightarrow> time) \<Rightarrow> retransmitRequest \<Rightarrow> bool \<Rightarrow> resendState \<Rightarrow> sendState
    \<Rightarrow> (bool \<times> resendState \<times> sendState) option" where
  "resendOne c K clk req qd w st =
     (case peekForResend req (retransmit st) of
        None \<Rightarrow> Some (qd, w, st)
      | Some _ \<Rightarrow>
          (case takeForResend (clk (statResends w)) req (retransmit st) of
             (None, q) \<Rightarrow> Some (qd, w, st\<lparr>retransmit := q\<rparr>)
           | (Some e, q) \<Rightarrow>
               (case resendCopies c K (if stubbornResendThreshold \<le> eretries e then 2 else 1) e qd (st\<lparr>retransmit := q\<rparr>) of
                  None \<Rightarrow> None
                | Some (qd', st') \<Rightarrow>
                    Some (qd', w\<lparr>statResends := statResends w + 1\<rparr>,
                          st'\<lparr>retransmit := releaseResendCopy (dataOf e) (retransmit st')\<rparr>))))"

lemma popResend_Some:
  assumes "(Some req, w') = popResend w"
  shows "waiting w = req # waiting w'" "statResends w' = statResends w"
proof -
  have "waiting w \<noteq> []" using assms popResend_Nil [of w] by auto
  then obtain r rs where "waiting w = r # rs" by (cases "waiting w") auto
  from popResend_Cons [OF this] assms this show "waiting w = req # waiting w'" "statResends w' = statResends w"
    by (metis Pair_inject option.inject)+
qed

lemma resendOne_waiting: "resendOne c K clk req qd w st = Some (qd', w', st') \<Longrightarrow> waiting w' = waiting w"
  by (auto simp: resendOne_def waiting_def split: option.splits prod.splits)

function (sequential) drainResends ::
  "config \<Rightarrow> (nat \<Rightarrow> kernelRes) \<Rightarrow> (nat \<Rightarrow> time) \<Rightarrow> bool \<Rightarrow> resendState \<Rightarrow> sendState
    \<Rightarrow> (bool \<times> resendState \<times> sendState) option" where
  "drainResends c K clk qd w st =
     (case popResend w of
        (None, w') \<Rightarrow> Some (qd, w', st)
      | (Some req, w') \<Rightarrow>
          (case resendOne c K clk req qd w' st of
             None \<Rightarrow> None
           | Some (qd', w'', st') \<Rightarrow> drainResends c K clk qd' w'' st'))"
  by pat_completeness auto
termination
  by (relation "measure (\<lambda>(c, K, clk, qd, w, st). length (waiting w))")
    (auto dest!: popResend_Some(1) resendOne_waiting)

declare drainResends.simps [simp del]

definition serviceResends ::
  "config \<Rightarrow> (nat \<Rightarrow> kernelRes) \<Rightarrow> (nat \<Rightarrow> time) \<Rightarrow> resendState \<Rightarrow> sendState \<Rightarrow> (bool \<times> resendState \<times> sendState) option" where
  "serviceResends c K clk w st =
     (case drainResends c K clk False w st of
        None \<Rightarrow> None
      | Some (qd, w', st') \<Rightarrow> Some (qd, w', if qd then snd (flushSend c K st') else st'))"

section \<open>What the drain puts on the wire\<close>

text \<open>The specification works on the list of outstanding frames: a request whose frame is still outstanding
  and marked sends it (twice once it has been resent before) and moves it to the end of the list; any other request
  sends nothing. The result is the frames sent, the number of frames resent and the frames outstanding.\<close>

definition resendItem :: "config \<Rightarrow> pframe \<Rightarrow> item" where
  "resendItem c f = (paceRecovery, frame_bytes (fType f) (fStream f) (fSeq f) (fecPrefix c (fType f) @ fData f))"

fun resendSpec ::
  "config \<Rightarrow> (nat \<Rightarrow> time) \<Rightarrow> nat \<Rightarrow> retransmitRequest list \<Rightarrow> pframe list \<Rightarrow> item list \<times> nat \<times> pframe list" where
  "resendSpec c clk n [] fs = ([], n, fs)"
| "resendSpec c clk n (req # reqs) fs =
     (case lookup (retransmitKey (reqStream req) (reqSeq req)) fs of
        None \<Rightarrow> resendSpec c clk n reqs fs
      | Some f \<Rightarrow>
          if \<not> fQueued f then resendSpec c clk n reqs fs
          else
            let (its, n', fs') = resendSpec c clk (Suc n) reqs (filter (\<lambda>g. fKey g \<noteq> fKey f) fs @ [resent (clk n) f])
            in (replicate (if 1 \<le> fRetries f then 2 else 1) (resendItem c f) @ its, n', fs'))"

lemma queueEncoded_keeps:
  assumes "queueEncoded c K cls enc st = Some (e, st')"
  shows "recycled (retransmit st) (retransmit st')"
proof -
  from assms obtain r st1 where a: "acquireSendSlot c K cls st = Some (r, st1)" by (auto simp: queueEncoded_def split: bind_splits)
  have f: "recycled (retransmit s) (retransmit (snd (flushIfFull c K s1)))" if "retransmit s1 = retransmit s" for s s1
    using that by (simp add: flushIfFull_def flush_keeps recycled_refl flip: that)
  have cm: "recycled (retransmit s) (retransmit (snd (commitSendSlot c K i n cls (setBuf i b s))))" for s i n b
    unfolding commitSendSlot_def Let_def by (rule f) (simp add: setEP_def setBuf_def)
  show ?thesis
  proof (cases r)
    case (Inl er)
    then show ?thesis using assms a acquire_keeps [OF a] by (auto simp: queueEncoded_def)
  next
    case (Inr i)
    then obtain b n where "commitSendSlot c K i n cls (setBuf i b st1) = (e, st')"
      using assms a by (auto simp: queueEncoded_def split: bind_splits)
    then have "recycled (retransmit st1) (retransmit st')" using cm [of st1 i n b] by simp
    then show ?thesis using acquire_keeps [OF a] recycled_trans by blast
  qed
qed

lemma recycled_frames:
  assumes "recycled q q'"
  shows "frames q' = frames q" "sliceRead sl (arena q') = sliceRead sl (arena q)"
proof -
  obtain a pf where "q' = q\<lparr>arena := a, pendingFree := pf\<rparr>" "amem a = amem (arena q)" using assms by (auto simp: recycled_def)
  then show "frames q' = frames q" "sliceRead sl (arena q') = sliceRead sl (arena q)"
    by (simp_all add: frames_def view_def [abs_def] sliceRead_def chain_def Let_def)
qed

lemma takeForResend_retries:
  assumes "qok t l q" "takeForResend now req q = (Some e, q')" "lookup (retransmitKey (reqStream req) (reqSeq req)) (frames q) = Some f"
  shows "eretries e = fRetries f + 1"
proof -
  from assms obtain p where g: "mget (entries q) (retransmitKey (reqStream req) (reqSeq req)) = Some p" "equeued (qheap q p)"
    by (auto simp: takeForResend_def Let_def split: option.splits if_splits)
  have f: "f = view q p" using lookup_mget [OF assms(1)] g assms(3) by simp
  show ?thesis
    using assms(2) g body_eqD [OF requeue_body [of now p q p]]
    by (auto simp: f view_def takeForResend_def requeue_def stamp_def [abs_def] Let_def split: prod.splits)
qed

lemma resendCopies_spec:
  assumes "state True c t l T st" "ringOK K" "goodK K" "sliceRead (dataOf e) (arena (retransmit st)) = pl"
    "frameHdrLen c (eftype e) + length pl \<le> dgram c"
  shows "\<exists>st'. resendCopies c K n e qd st = Some (qd \<or> 0 < n, st') \<and> recycled (retransmit st) (retransmit st') \<and>
    state True c t l (T @ replicate n (paceRecovery, frame_bytes (eftype e) (estreamID e) (eseq e) (fecPrefix c (eftype e) @ pl))) st'"
  using assms(1,4)
proof (induction n arbitrary: st T qd)
  case (Suc n)
  let ?it = "(paceRecovery, frame_bytes (eftype e) (estreamID e) (eseq e) (fecPrefix c (eftype e) @ pl))"
  have "queued True c t l (T @ [?it]) (queueResendCopy c K e st)"
    unfolding queueResendCopy_def Suc.prems(2)
    by (rule queueEncoded_queued [OF Suc.prems(1) assms(2)]) (simp_all add: assms(3) encodes_resend [OF assms(5)])
  then obtain st1 where q: "queueResendCopy c K e st = Some (None, st1)" "state True c t l (T @ [?it]) st1"
    by (auto simp: queued_def outcome_def)
  have k: "recycled (retransmit st) (retransmit st1)" using q(1) queueEncoded_keeps by (auto simp: queueResendCopy_def)
  from Suc.IH [OF q(2), of True] obtain st' where
    "resendCopies c K n e True st1 = Some (True, st')" "recycled (retransmit st1) (retransmit st')"
    "state True c t l ((T @ [?it]) @ replicate n ?it) st'" using Suc.prems(2) recycled_frames [OF k] by auto
  then show ?case using q(1) k recycled_trans by auto
qed (auto simp: recycled_refl)

definition fits :: "config \<Rightarrow> pframe list \<Rightarrow> bool" where
  "fits c fs \<longleftrightarrow> (\<forall>f \<in> set fs. frameHdrLen c (fType f) + length (fData f) \<le> dgram c)"

lemma take_state:
  assumes s: "state gd c t l T st" and q: "lookup (retransmitKey (reqStream req) (reqSeq req)) (frames (retransmit st)) = Some f"
    "fQueued f" and n: "t \<le> now"
  shows "\<exists>e q. takeForResend now req (retransmit st) = (Some e, q) \<and> state gd c now (dataOf e # l) T (st\<lparr>retransmit := q\<rparr>) \<and>
    sliceRead (dataOf e) (arena q) = fData f \<and> eftype e = fType f \<and> estreamID e = fStream f \<and> eseq e = fSeq f \<and>
    eretries e = fRetries f + 1 \<and> frames q = filter (\<lambda>g. fKey g \<noteq> fKey f) (frames (retransmit st)) @ [resent now f]"
proof -
  let ?q = "retransmit st" and ?s = "\<lparr>bclock = t, blent = l, bst = st\<rparr>"
  have ok: "qok t l ?q" using s by (auto simp: state_def rel_def)
  have "fst (takeForResend now req ?q) \<noteq> None" unfolding takeForResend_none(1) [OF ok] using q by simp
  then obtain e q' where r: "takeForResend now req ?q = (Some e, q')" by (cases "takeForResend now req ?q") auto
  from takeForResend_spec [OF ok n r] q(1) obtain sl where
    f: "edata e = Some sl" "sliceRead sl (arena q') = fData f" "eftype e = fType f" "estreamID e = reqStream req" "eseq e = reqSeq req"
      "frames q' = filter (\<lambda>g. fKey g \<noteq> fKey f) (frames ?q) @ [resent now f]" by auto
  have "fKey f = retransmitKey (reqStream req) (reqSeq req)" using q(1) by (simp add: lookup_def find_Some_iff) auto
  then have k: "fStream f = reqStream req" "fSeq f = reqSeq req" by (simp_all add: fKey_def)
  have "state gd c now (dataOf e # l) T (st\<lparr>retransmit := q'\<rparr>)"
    using queue_event_state [of gd c ?s T "EvTake now req" "qstep (EvTake now req) (qsysOf ?s)"] s n r
    by (simp add: qenabled_def qsysOf_def qstep_def)
  then show ?thesis using r f k takeForResend_retries [OF ok r q(1)] by (auto simp: dataOf_def)
qed

lemma resendOne_spec:
  fixes req
  assumes s: "state True c t l T st" and K: "ringOK K" "goodK K" and n: "t \<le> clk (statResends w)"
    and fit: "fits c (frames (retransmit st))"
  defines "k \<equiv> lookup (retransmitKey (reqStream req) (reqSeq req)) (frames (retransmit st))"
  shows "case k of
      None \<Rightarrow> resendOne c K clk req qd w st = Some (qd, w, st)
    | Some f \<Rightarrow> if \<not> fQueued f then resendOne c K clk req qd w st = Some (qd, w, st)
      else \<exists>st'. resendOne c K clk req qd w st = Some (True, w\<lparr>statResends := statResends w + 1\<rparr>, st') \<and>
        state True c (clk (statResends w)) l (T @ replicate (if 1 \<le> fRetries f then 2 else 1) (resendItem c f)) st' \<and>
        frames (retransmit st') = filter (\<lambda>g. fKey g \<noteq> fKey f) (frames (retransmit st)) @ [resent (clk (statResends w)) f]"
proof -
  let ?q = "retransmit st" and ?now = "clk (statResends w)"
  have ok: "qok t l ?q" using s by (auto simp: state_def rel_def)
  have p: "peekForResend req ?q = (case k of None \<Rightarrow> None | Some f \<Rightarrow> if fQueued f then Some (fType f, length (fData f)) else None)"
    unfolding k_def by (rule peekForResend_spec [OF ok])
  show ?thesis
  proof (cases "\<exists>f. k = Some f \<and> fQueued f")
    case False
    then have "peekForResend req ?q = None" unfolding p by (auto split: option.split)
    then have "resendOne c K clk req qd w st = Some (qd, w, st)" by (simp add: resendOne_def)
    then show ?thesis using False by (auto split: option.split)
  next
    case True
    then obtain f where f: "k = Some f" "fQueued f" by blast
    from take_state [OF s f [unfolded k_def] n] obtain e q where
      t: "takeForResend ?now req ?q = (Some e, q)" "state True c ?now (dataOf e # l) T (st\<lparr>retransmit := q\<rparr>)"
        "sliceRead (dataOf e) (arena q) = fData f" "eftype e = fType f" "estreamID e = fStream f" "eseq e = fSeq f"
        "eretries e = fRetries f + 1" "frames q = filter (\<lambda>g. fKey g \<noteq> fKey f) (frames ?q) @ [resent ?now f]" by blast
    let ?n = "if 1 \<le> fRetries f then 2 else 1 :: nat"
    have cp: "(if stubbornResendThreshold \<le> eretries e then 2 else 1) = ?n" by (simp add: t(7) stubbornResendThreshold_def)
    have "f \<in> set (frames ?q)" using f(1) by (auto simp: k_def lookup_def find_Some_iff)
    then have "frameHdrLen c (eftype e) + length (fData f) \<le> dgram c" using fit t(4) by (simp add: fits_def)
    from resendCopies_spec [OF t(2) K _ this, of ?n qd] t(3-6) obtain st1 where
      c: "resendCopies c K ?n e qd (st\<lparr>retransmit := q\<rparr>) = Some (True, st1)" "recycled q (retransmit st1)"
        "state True c ?now (dataOf e # l) (T @ replicate ?n (resendItem c f)) st1" by (auto simp: resendItem_def)
    let ?s1 = "\<lparr>bclock = ?now, blent = dataOf e # l, bst = st1\<rparr>" and ?r = "releaseResendCopy (dataOf e) (retransmit st1)"
    have "state True c ?now l (T @ replicate ?n (resendItem c f)) (st1\<lparr>retransmit := ?r\<rparr>)"
      using queue_event_state [of True c ?s1 _ "EvRelease (dataOf e)" "qstep (EvRelease (dataOf e)) (qsysOf ?s1)"] c(3)
      by (simp add: qenabled_def qsysOf_def qstep_def)
    moreover have "frames ?r = frames q"
    proof -
      have "qok ?now (dataOf e # l) (retransmit st1)" using c(3) by (auto simp: state_def rel_def)
      from releaseResendCopy_spec [OF this, of "dataOf e"] show ?thesis using recycled_frames(1) [OF c(2)] by simp
    qed
    moreover have "resendOne c K clk req qd w st = Some (True, w\<lparr>statResends := statResends w + 1\<rparr>, st1\<lparr>retransmit := ?r\<rparr>)"
      using p f t(1) c(1) unfolding resendOne_def by (simp add: cp)
    ultimately show ?thesis using f t(8) by auto
  qed
qed

lemma fits_step:
  assumes "fits c fs" "lookup k fs = Some f"
  shows "fits c (filter (\<lambda>g. fKey g \<noteq> fKey f) fs @ [resent now f])"
  using assms by (auto simp: fits_def lookup_def resent_def find_Some_iff)

lemma drainResends_spec:
  assumes "state True c t l T st" "ringOK K" "goodK K" "mono clk" "t \<le> clk (statResends w)" "fits c (frames (retransmit st))"
    and "resendSpec c clk (statResends w) (waiting w) (frames (retransmit st)) = (its, n, fs)"
  shows "\<exists>w' st' t'. drainResends c K clk qd w st = Some (qd \<or> its \<noteq> [], w', st') \<and> waiting w' = [] \<and> statResends w' = n \<and>
    state True c t' l (T @ its) st' \<and> frames (retransmit st') = fs \<and> (its = [] \<longrightarrow> st' = st)"
  using assms
proof (induction "waiting w" arbitrary: w st T t qd its n fs)
  case Nil
  then have w: "waiting w = []" by simp
  have "waiting (w\<lparr>resendQueue := [], resendHead := 0\<rparr>) = []" by (simp add: waiting_def)
  then show ?case using Nil.prems popResend_Nil [OF w] by (subst drainResends.simps) (auto simp: w)
next
  case (Cons req reqs)
  from popResend_Cons [OF Cons.hyps(2) [symmetric]] obtain w1 where
    w1: "popResend w = (Some req, w1)" "waiting w1 = reqs" "statResends w1 = statResends w" by auto
  note sp = Cons.prems(7) [folded Cons.hyps(2)]
  let ?k = "lookup (retransmitKey (reqStream req) (reqSeq req)) (frames (retransmit st))" and ?now = "clk (statResends w)"
  note one = resendOne_spec [OF Cons.prems(1-3), of clk w1 req qd, unfolded w1(3), OF Cons.prems(5,6)]
  show ?case
  proof (cases "\<exists>f. ?k = Some f \<and> fQueued f")
    case False
    then have r: "resendOne c K clk req qd w1 st = Some (qd, w1, st)" using one by (auto split: option.splits)
    have "resendSpec c clk (statResends w1) (waiting w1) (frames (retransmit st)) = (its, n, fs)"
      using sp False w1 by (auto split: option.splits)
    from Cons.hyps(1) [OF w1(2) [symmetric] Cons.prems(1-4) _ Cons.prems(6) this, of qd] Cons.prems(5) w1(3) r
    show ?thesis by (subst drainResends.simps) (simp add: w1)
  next
    case True
    then obtain f where f: "?k = Some f" "fQueued f" by blast
    let ?cp = "replicate (if 1 \<le> fRetries f then 2 else 1) (resendItem c f)"
    obtain st1 where r: "resendOne c K clk req qd w1 st = Some (True, w1\<lparr>statResends := statResends w + 1\<rparr>, st1)"
      "state True c ?now l (T @ ?cp) st1"
      "frames (retransmit st1) = filter (\<lambda>g. fKey g \<noteq> fKey f) (frames (retransmit st)) @ [resent ?now f]" using one f by auto
    let ?w2 = "w1\<lparr>statResends := statResends w + 1\<rparr>"
    have ww: "waiting ?w2 = reqs" using w1(2) by (simp add: waiting_def)
    obtain its' where i: "resendSpec c clk (statResends ?w2) (waiting ?w2) (frames (retransmit st1)) = (its', n, fs)" "its = ?cp @ its'"
      using sp f ww w1(3) r(3) by (auto simp: Let_def split: prod.splits)
    have "?now \<le> clk (statResends ?w2)" using Cons.prems(4) w1(3) by (simp add: monoD)
    moreover have "fits c (frames (retransmit st1))" unfolding r(3) by (rule fits_step [OF Cons.prems(6) f(1)])
    ultimately show ?thesis
      using Cons.hyps(1) [OF ww [symmetric] r(2) Cons.prems(2-4) _ _ i(1), of True] r(1) i(2)
      by (subst drainResends.simps) (auto simp: w1)
  qed
qed

section \<open>Theorems\<close>


text \<open>A run that records a frame, finds it due and resends it.\<close>

definition resendRun :: "sendEvent list" where
  "resendRun = [SvData 1 1 0 [5, 6], SvFlush, SvQueue (EvDue 100 10)]"


end
