(* ===== verification/Conn.thy ===== *)
theory Conn
  imports Resend Send
begin

text \<open>
  A connection (\<open>connection.go\<close>): the stream table, the receive path from a datagram to the streams, the
  acknowledgements it sends back, and the periodic work (resends, tail NACKs, garbage collection, keep-alive).

  \<open>Connection\<close> holds the fields of the struct that these functions use; the send path is the record
  \<open>sendState\<close> of theory \<open>Batch\<close> and the resend queue the record of theory \<open>Resend\<close>. A stream handle in
  \<open>acceptCh\<close> is the stream's ID. \<open>closing\<close> records a \<open>go c.Close()\<close> that has been started. A channel of
  capacity one that only wakes a waiter is a flag.

  Every function here runs under \<open>recvMu\<close> (or is one critical section of the code that takes it), so each is one
  atomic step. \<open>connEnv\<close> is what a step reads from outside: the configuration, the answers of
  the kernel, the monotonic and the wall clock (one reading per step), the contents of recycled buffers, and the order in which
  Go's \<open>range\<close> visits the keys of a map, which the language leaves open. \<open>None\<close> is a panic.
\<close>

section \<open>The connection\<close>

record connEnv =
  kcfg :: config
  kres :: "nat \<Rightarrow> kernelRes"
  know :: time
  knowMs :: int
  kstale :: "nat \<Rightarrow> byte"
  korder :: "u32 list \<Rightarrow> u32 list"

record Connection =
  isClient :: bool
  streams :: "(u32, Stream) gomap option"
  nextStream :: u32
  acceptCh :: "u32 list"
  sReadIdsToAck :: "(u32, u32 list) gomap"
  sAckDirty :: "(u32, unit) gomap"
  deadStreams :: "(u32, time) gomap"
  streamFreed :: bool
  resends :: resendState
  rtt :: rttState
  sendPingMs :: int
  rttMs :: int
  missedPongs :: int
  established :: bool
  connClosed :: bool
  closing :: bool
  statReorder :: nat
  statFecRecovered :: nat
  sendPath :: sendState

definition newConnection :: "bool \<Rightarrow> config \<Rightarrow> bool \<Rightarrow> bool \<Rightarrow> bool \<Rightarrow> Connection" where
  "newConnection client c segmentOk groOk ringOk =
     \<lparr>isClient = client, streams = Some [], nextStream = (if client then 1 else 2), acceptCh = [],
      sReadIdsToAck = [], sAckDirty = [], deadStreams = [], streamFreed = False, resends = newResendState,
      rtt = newRttState c, sendPingMs = 0, rttMs = - 1, missedPongs = 0, established = (\<not> client), connClosed = False,
      closing = False, statReorder = 0, statFecRecovered = 0, sendPath = newSendState c segmentOk groOk ringOk\<rparr>"

text \<open>\<open>c.streams[id]\<close>, which is also defined on the nil map.\<close>

definition streamAt :: "Connection \<Rightarrow> u32 \<Rightarrow> Stream option" where
  "streamAt c i = (case streams c of None \<Rightarrow> None | Some m \<Rightarrow> mget m i)"

definition table :: "Connection \<Rightarrow> (u32, Stream) gomap" where
  "table c = (case streams c of None \<Rightarrow> [] | Some m \<Rightarrow> m)"

definition setStream :: "u32 \<Rightarrow> Stream \<Rightarrow> Connection \<Rightarrow> Connection" where
  "setStream i s c = c\<lparr>streams := map_option (mput i s) (streams c)\<rparr>"

definition recvEnvOf :: "connEnv \<Rightarrow> Connection \<Rightarrow> recvEnv" where
  "recvEnvOf e c = \<lparr>ecfg = kcfg e, enow = know e, erto = currentRTO (rtt c), egrace = reorderGrace (rtt c), estale = kstale e\<rparr>"

text \<open>A call on the send path whose error the caller ignores.\<close>

definition sending :: "(sendState \<Rightarrow> (err option \<times> sendState) option) \<Rightarrow> Connection \<Rightarrow> Connection option" where
  "sending f c = map_option (\<lambda>(_, st). c\<lparr>sendPath := st\<rparr>) (f (sendPath c))"

text \<open>The calls a stream operation recorded, in order.\<close>

definition runCall :: "connEnv \<Rightarrow> connCall \<Rightarrow> Connection \<Rightarrow> Connection option" where
  "runCall e call c =
     (case call of
        CallWindowUpdate i off \<Rightarrow> sending (sendWindowUpdate (kcfg e) (kres e) i off) c
      | CallNackFrames i seqs \<Rightarrow> sending (sendNackFrames (kcfg e) (kres e) i seqs) c
      | CallStatReorder \<Rightarrow> Some (c\<lparr>statReorder := statReorder c + 1\<rparr>)
      | CallStatFecRecovered \<Rightarrow> Some (c\<lparr>statFecRecovered := statFecRecovered c + 1\<rparr>)
      | CallReadBroadcast \<Rightarrow> Some c
      | CallWriteBroadcast \<Rightarrow> Some c
      | CallControlFrame ft i sq \<Rightarrow> sending (sendControlFrame (kcfg e) (kres e) ft i sq) c
      | CallReliableFrame ft i sq pl \<Rightarrow> sending (sendReliableFrame (kcfg e) (kres e) (know e) ft i sq pl) c
      | CallDataFrame i sq pl \<Rightarrow> sending (sendDataFrame (kcfg e) (kres e) (know e) i sq pl) c
      | CallFecFrame ft i base n xl xd \<Rightarrow> sending (sendFecFrame (kcfg e) (kres e) ft i base n xl xd) c
      | CallPurgeStream i \<Rightarrow> Some (c\<lparr>sendPath := (sendPath c)\<lparr>retransmit := purgeStream i (retransmit (sendPath c))\<rparr>\<rparr>)
      | CallFlushSend \<Rightarrow> sending (\<lambda>st. Some (flushSend (kcfg e) (kres e) st)) c)"

fun runCalls :: "connEnv \<Rightarrow> connCall list \<Rightarrow> Connection \<Rightarrow> Connection option" where
  "runCalls e [] c = Some c"
| "runCalls e (call # calls) c = Option.bind (runCall e call c) (runCalls e calls)"

text \<open>A stream after an operation: it goes back into the table and its calls are made.\<close>

definition storeStream :: "connEnv \<Rightarrow> u32 \<Rightarrow> Stream \<Rightarrow> Connection \<Rightarrow> Connection option" where
  "storeStream e i s c =
     runCalls e (rcalls (rd s) @ wcalls (wr s))
       (setStream i (s\<lparr>rd := (rd s)\<lparr>rcalls := []\<rparr>, wr := (wr s)\<lparr>wcalls := []\<rparr>\<rparr>) c)"

section \<open>Streams\<close>

definition OpenStream :: "connEnv \<Rightarrow> Connection \<Rightarrow> (err + u32) \<times> Connection" where
  "OpenStream e c =
     (if connClosed c \<or> streams c = None then (Inl ErrClosed, c)
      else if maxStreams (kcfg e) \<le> int (length (table c)) then (Inl ErrMaxStreams, c)
      else let i = nextStream c
           in (Inr i, setStream i (newStream i (kcfg e) (streamBufSize (kcfg e)) (know e)) (c\<lparr>nextStream := i + 2\<rparr>)))"

text \<open>One pass of the loop of \<open>OpenStreamSync\<close>: \<open>Blocks\<close> is the \<open>select\<close> with nothing ready. \<open>ctxDone\<close> tells
  whether the context is done; when several arms are ready, \<open>pick\<close> is the one the runtime takes.\<close>

datatype selectArm = ArmContext | ArmClosed | ArmReady

definition OpenStreamSync ::
  "connEnv \<Rightarrow> bool \<Rightarrow> (selectArm list \<Rightarrow> selectArm) \<Rightarrow> Connection \<Rightarrow> (err + u32) option blocking \<times> Connection" where
  "OpenStreamSync e ctxDone pick c =
     (case OpenStream e c of
        (Inl ErrMaxStreams, c1) \<Rightarrow>
          let arms = (if ctxDone then [ArmContext] else []) @ (if connClosed c1 then [ArmClosed] else [])
                     @ (if streamFreed c1 then [ArmReady] else [])
          in if arms = [] then (Blocks, c1)
             else (case pick arms of
                     ArmContext \<Rightarrow> (Returns (Some (Inl ErrContext)), c1)
                   | ArmClosed \<Rightarrow> (Returns (Some (Inl ErrClosed)), c1)
                   | ArmReady \<Rightarrow> (Returns None, c1\<lparr>streamFreed := False\<rparr>))
      | (r, c1) \<Rightarrow> (Returns (Some r), c1))"

definition AcceptStream ::
  "bool \<Rightarrow> (selectArm list \<Rightarrow> selectArm) \<Rightarrow> Connection \<Rightarrow> (err + u32) blocking \<times> Connection" where
  "AcceptStream ctxDone pick c =
     (let arms = (if ctxDone then [ArmContext] else []) @ (if connClosed c then [ArmClosed] else [])
                 @ (if acceptCh c \<noteq> [] then [ArmReady] else [])
      in if arms = [] then (Blocks, c)
         else (case pick arms of
                 ArmContext \<Rightarrow> (Returns (Inl ErrContext), c)
               | ArmClosed \<Rightarrow> (Returns (Inl ErrClosed), c)
               | ArmReady \<Rightarrow>
                   let c1 = c\<lparr>acceptCh := tl (acceptCh c)\<rparr>
                   in if connClosed c1 then (Returns (Inl ErrClosed), c1) else (Returns (Inr (hd (acceptCh c))), c1)))"

section \<open>Acknowledgement bookkeeping\<close>

definition queueAck :: "u32 \<Rightarrow> u32 \<Rightarrow> Connection \<Rightarrow> Connection" where
  "queueAck i sq c =
     c\<lparr>sReadIdsToAck := mput i ((case mget (sReadIdsToAck c) i of None \<Rightarrow> [] | Some l \<Rightarrow> l) @ [sq]) (sReadIdsToAck c)\<rparr>"

definition markAckDirty :: "u32 \<Rightarrow> Connection \<Rightarrow> Connection" where
  "markAckDirty i c = c\<lparr>sAckDirty := mput i () (sAckDirty c)\<rparr>"

section \<open>The stream of a frame\<close>

text \<open>The result tells whether there is a stream, and otherwise whether the frame is to be acknowledged and
  discarded.\<close>

definition peerInitiated :: "u32 \<Rightarrow> Connection \<Rightarrow> bool" where
  "peerInitiated i c \<longleftrightarrow> (i mod 2 = 1) \<noteq> isClient c"

definition streamForFrame :: "connEnv \<Rightarrow> u32 \<Rightarrow> Connection \<Rightarrow> ((bool \<times> bool) \<times> Connection) option" where
  "streamForFrame e i c =
     (if connClosed c then Some ((False, False), c)
      else if streamAt c i \<noteq> None then Some ((True, False), c)
      else if mget (deadStreams c) i \<noteq> None then Some ((False, True), c)
      else if \<not> peerInitiated i c then Some ((False, True), c)
      else if streams c = None then Some ((False, False), c)
      else if maxStreams (kcfg e) \<le> int (length (table c))
      then do {
        c1 \<leftarrow> sending (sendControlFrame (kcfg e) (kres e) frameStopSending i 0) c;
        c2 \<leftarrow> sending (sendResetNoQueue (kcfg e) (kres e) i 0) c1;
        Some ((False, False), c2)
      }
      else
        let c1 = setStream i (newStream i (kcfg e) (streamBufSize (kcfg e)) (know e)) c
        in Some ((True, False), if int (length (acceptCh c1)) < maxStreams (kcfg e) then c1\<lparr>acceptCh := acceptCh c1 @ [i]\<rparr> else c1))"

section \<open>Frame handlers\<close>

definition deliverTo :: "connEnv \<Rightarrow> u32 \<Rightarrow> u32 \<Rightarrow> bytes \<Rightarrow> bool \<Rightarrow> Connection \<Rightarrow> Connection option" where
  "deliverTo e i sq pl isFin c = do {
     ((found, ackDiscard), c1) \<leftarrow> streamForFrame e i c;
     if \<not> found then Some (if ackDiscard then queueAck i sq c1 else c1)
     else case streamAt c1 i of
            None \<Rightarrow> None
          | Some s \<Rightarrow> do {
              c2 \<leftarrow> storeStream e i (s\<lparr>rd := snd (deliverLocked (recvEnvOf e c1) (rd s) sq pl isFin)\<rparr>) c1;
              Some (markAckDirty i c2)
            }
   }"

definition handleData :: "connEnv \<Rightarrow> frame \<Rightarrow> Connection \<Rightarrow> Connection option" where
  "handleData e f c = deliverTo e (streamID f) (seq f) (payload f) False c"

definition handleStreamFIN :: "connEnv \<Rightarrow> frame \<Rightarrow> Connection \<Rightarrow> Connection option" where
  "handleStreamFIN e f c = deliverTo e (streamID f) (seq f) [] True c"

definition handleFec :: "connEnv \<Rightarrow> frame \<Rightarrow> bool \<Rightarrow> Connection \<Rightarrow> Connection option" where
  "handleFec e f row c =
     (if fecGroup (kcfg e) = 0 \<or> length (payload f) < fecMetaLen then Some c
      else
        let meta = Uint32 (take fecMetaLen (payload f));
            cnt = unat (drop_bit 16 meta);
            xorLen = unat (meta AND 0xffff)
        in if cnt = 0 \<or> fecGroup (kcfg e) < int cnt then Some c
           else case streamAt c (streamID f) of
                  None \<Rightarrow> Some c
                | Some s \<Rightarrow>
                    let (recovered, r) = applyFec (recvEnvOf e c) row (seq f) cnt xorLen (drop fecMetaLen (payload f)) (rd s)
                    in do {
                      c1 \<leftarrow> storeStream e (streamID f) (s\<lparr>rd := r\<rparr>) c;
                      Some (if recovered
                            then markAckDirty (streamID f) (c1\<lparr>statFecRecovered := statFecRecovered c1 + 1\<rparr>) else c1)
                    })"

definition handleStreamReset :: "connEnv \<Rightarrow> frame \<Rightarrow> Connection \<Rightarrow> Connection option" where
  "handleStreamReset e f c =
     (let c1 = queueAck (streamID f) (seq f) c in
      case streamAt c1 (streamID f) of
        None \<Rightarrow> Some c1
      | Some s \<Rightarrow> storeStream e (streamID f) (s\<lparr>rd := deliverReset (decodeResetPayload (payload f)) (rd s)\<rparr>) c1)"

definition handleStopSending :: "connEnv \<Rightarrow> frame \<Rightarrow> Connection \<Rightarrow> Connection option" where
  "handleStopSending e f c =
     (case streamAt c (streamID f) of
        None \<Rightarrow> Some c
      | Some s \<Rightarrow> storeStream e (streamID f) (s\<lparr>wr := onStopSending (ucast (seq f)) (wr s)\<rparr>) c)"

definition handleWindowUpdate :: "connEnv \<Rightarrow> frame \<Rightarrow> Connection \<Rightarrow> Connection option" where
  "handleWindowUpdate e f c =
     (case decodeWindowUpdatePayload (payload f) of
        Inl _ \<Rightarrow> Some c
      | Inr off \<Rightarrow>
          (case streamAt c (streamID f) of
             None \<Rightarrow> Some c
           | Some s \<Rightarrow> storeStream e (streamID f) (s\<lparr>wr := setMaxSendOffset (sint off) (wr s)\<rparr>) c))"

definition handleHandshake :: "connEnv \<Rightarrow> frame \<Rightarrow> Connection \<Rightarrow> Connection option" where
  "handleHandshake e f c =
     (if connClosed c then Some c
      else if isClient c then Some (c\<lparr>established := True\<rparr>)
      else sending (sendControlFrame (kcfg e) (kres e) frameHandshake 0 0) c)"

text \<open>The scratch slice of \<open>decodeSeqListFrame\<close> only saves an allocation: the decoder overwrites every element
  it returns.\<close>

definition handleACK :: "connEnv \<Rightarrow> frame \<Rightarrow> Connection \<Rightarrow> Connection option" where
  "handleACK e f c =
     (case decodeSeqListFrame f [] of
        Inl _ \<Rightarrow> Some c
      | Inr (cum, seqs) \<Rightarrow>
          let (freedCum, sampleCum, q1) = ackCumulative (know e) (streamID f) cum (retransmit (sendPath c));
              (freedList, sampleList, q2) = ackMany (know e) (streamID f) seqs q1;
              sample = (if sampleCum = 0 \<or> 0 < sampleList \<and> sampleList < sampleCum then sampleList else sampleCum);
              c1 = c\<lparr>sendPath := (sendPath c)\<lparr>retransmit := q2\<rparr>\<rparr>;
              c2 = (if 0 < sample then c1\<lparr>rtt := updateRTO (kcfg e) sample (rtt c1)\<rparr> else c1);
              freed = freedCum + freedList
          in if freed = 0 then Some c2
             else case streamAt c2 (streamID f) of
                    None \<Rightarrow> Some c2
                  | Some s \<Rightarrow> storeStream e (streamID f) (s\<lparr>wr := creditAcked freed (wr s)\<rparr>) c2)"

fun nackRequests ::
  "time \<Rightarrow> u32 \<Rightarrow> duration \<Rightarrow> u32 list \<Rightarrow> retransmitQueue \<Rightarrow> retransmitRequest list \<times> retransmitQueue" where
  "nackRequests now i minAge [] q = ([], q)"
| "nackRequests now i minAge (sq # seqs) q =
     (case requestForResend now i sq minAge q of
        (None, q1) \<Rightarrow> nackRequests now i minAge seqs q1
      | (Some req, q1) \<Rightarrow> (let (reqs, q2) = nackRequests now i minAge seqs q1 in (req # reqs, q2)))"

definition handleNack :: "connEnv \<Rightarrow> frame \<Rightarrow> Connection \<Rightarrow> Connection option" where
  "handleNack e f c =
     (case decodeSeqListFrame f [] of
        Inl _ \<Rightarrow> Some c
      | Inr (_, seqs) \<Rightarrow>
          let minAge = int64 (srtt (rtt c) * 3) sdiv 4;
              (reqs, q) = nackRequests (know e) (streamID f) minAge seqs (retransmit (sendPath c))
          in Some (c\<lparr>sendPath := (sendPath c)\<lparr>retransmit := q\<rparr>, resends := enqueueResends reqs (resends c)\<rparr>))"

section \<open>Dispatch\<close>

definition handlePong :: "connEnv \<Rightarrow> Connection \<Rightarrow> Connection" where
  "handlePong e c =
     (if 0 < sendPingMs c
      then let ms = knowMs e - sendPingMs c
           in c\<lparr>rttMs := ms, sendPingMs := 0, rtt := updateRTO (kcfg e) (int64 (ms * Millisecond)) (rtt c)\<rparr>
      else c)"

definition dispatchFrameLocked :: "connEnv \<Rightarrow> frame \<Rightarrow> Connection \<Rightarrow> Connection option" where
  "dispatchFrameLocked e f c0 =
     (let c = c0\<lparr>missedPongs := 0\<rparr> in
      if ftype f = frameData then
        (if 0 < fecGroup (kcfg e)
         then if length (payload f) < fecMetaLen then Some c
              else handleData e (f\<lparr>payload := drop fecMetaLen (payload f)\<rparr>) c
         else handleData e f c)
      else if ftype f = frameFEC then handleFec e f False c
      else if ftype f = frameFECRow then (if fec2D (kcfg e) then handleFec e f True c else Some c)
      else if ftype f = frameStreamFIN then handleStreamFIN e f c
      else if ftype f = frameStreamReset then handleStreamReset e f c
      else if ftype f = frameStopSending then handleStopSending e f c
      else if ftype f = frameWindowUpdate then handleWindowUpdate e f c
      else if ftype f = framePing then sending (sendControlFrame (kcfg e) (kres e) framePong (streamID f) (seq f)) c
      else if ftype f = framePong then Some (handlePong e c)
      else if ftype f = frameGoAway then Some (c\<lparr>closing := True\<rparr>)
      else if ftype f = frameACK then handleACK e f c
      else if ftype f = frameNack then handleNack e f c
      else if ftype f = frameHandshake then handleHandshake e f c
      else Some c)"

text \<open>The frames of a buffer. Each round drops at least a header.\<close>

function (sequential) datagramLoop :: "connEnv \<Rightarrow> bytes \<Rightarrow> Connection \<Rightarrow> Connection option" where
  "datagramLoop e buf c =
     (if length buf < frameHeaderSize then Some c
      else case decodeFrame buf of
             Inl _ \<Rightarrow> Some c
           | Inr f \<Rightarrow> Option.bind (dispatchFrameLocked e f c) (datagramLoop e (drop (frameHeaderSize + unat (flength f)) buf)))"
  by pat_completeness auto
termination
  by (relation "measure (\<lambda>(e, buf, c). length buf)") (auto simp: frameHeaderSize_def)

declare datagramLoop.simps [simp del]

definition handleDatagramLocked :: "connEnv \<Rightarrow> bytes \<Rightarrow> Connection \<Rightarrow> Connection option" where
  "handleDatagramLocked e buf c = (if connClosed c then Some c else datagramLoop e buf c)"

definition handleDatagram :: "connEnv \<Rightarrow> bytes \<Rightarrow> Connection \<Rightarrow> Connection option" where
  "handleDatagram e buf c = (if connClosed c then Some c else handleDatagramLocked e buf c)"

section \<open>Sending acknowledgements\<close>

text \<open>The chunk loop: at least one frame, then one per further chunk. The caller has checked that a chunk holds at
  least one sequence number.\<close>

function (sequential) ackFrames ::
  "connEnv \<Rightarrow> nat \<Rightarrow> u32 \<Rightarrow> u32 \<Rightarrow> u32 list \<Rightarrow> Connection \<Rightarrow> Connection option" where
  "ackFrames e m i cum rest c =
     Option.bind (sending (queueACKFrame (kcfg e) (kres e) i cum (take m rest)) c)
       (\<lambda>c1. if m = 0 \<or> drop m rest = [] then Some c1 else ackFrames e m i cum (drop m rest) c1)"
  by pat_completeness auto
termination
  by (relation "measure (\<lambda>(e, m, i, cum, rest, c). length rest)") auto

declare ackFrames.simps [simp del]

text \<open>The first loop of \<open>flushPendingAcksLocked\<close>, over the streams with new arrivals; the flag is \<open>queued\<close>.\<close>

fun ackDirty :: "connEnv \<Rightarrow> nat \<Rightarrow> u32 list \<Rightarrow> bool \<Rightarrow> Connection \<Rightarrow> (bool \<times> Connection) option" where
  "ackDirty e m [] qd c = Some (qd, c)"
| "ackDirty e m (i # is) qd c =
     (case streamAt c i of
        None \<Rightarrow> ackDirty e m is qd (c\<lparr>sAckDirty := mdel i (sAckDirty c)\<rparr>)
      | Some s \<Rightarrow>
          let ((cum, seqs, granted), r) = ackSnapshot (rd s)
          in do {
            c1 \<leftarrow> ackFrames e m i cum seqs (setStream i (s\<lparr>rd := r\<rparr>) c);
            c2 \<leftarrow> sending (queueWindowUpdate (kcfg e) (kres e) i (u64_of_int64 granted)) c1;
            ackDirty e m is True (c2\<lparr>sAckDirty := mdel i (sAckDirty c2)\<rparr>)
          })"

text \<open>The second loop, over the explicit sequence lists.\<close>

fun ackExplicit :: "connEnv \<Rightarrow> nat \<Rightarrow> u32 list \<Rightarrow> bool \<Rightarrow> Connection \<Rightarrow> (bool \<times> Connection) option" where
  "ackExplicit e m [] qd c = Some (qd, c)"
| "ackExplicit e m (i # is) qd c =
     (let seqs = (case mget (sReadIdsToAck c) i of None \<Rightarrow> [] | Some l \<Rightarrow> l) in
      if seqs = [] then ackExplicit e m is qd c
      else do {
        c1 \<leftarrow> ackFrames e m i 0 seqs c;
        ackExplicit e m is True (c1\<lparr>sReadIdsToAck := mput i [] (sReadIdsToAck c1)\<rparr>)
      })"

definition flushPendingAcksLocked :: "connEnv \<Rightarrow> Connection \<Rightarrow> Connection option" where
  "flushPendingAcksLocked e c =
     (let maxAcks = maxAckSeqsPerFrame (maxPayload (kcfg e)) in
      if maxAcks \<le> 0 then Some c
      else do {
        (qd, c1) \<leftarrow> ackDirty e (nat maxAcks) (korder e (mkeys (sAckDirty c))) False c;
        (qd, c2) \<leftarrow> ackExplicit e (nat maxAcks) (korder e (mkeys (sReadIdsToAck c1))) qd c1;
        if qd then sending (\<lambda>st. Some (flushSend (kcfg e) (kres e) st)) c2 else Some c2
      })"

definition flushPendingAcks :: "connEnv \<Rightarrow> Connection \<Rightarrow> Connection option" where
  "flushPendingAcks e c = (if connClosed c then Some c else flushPendingAcksLocked e c)"

definition handleDatagramAndFlush :: "connEnv \<Rightarrow> bytes \<Rightarrow> Connection \<Rightarrow> Connection option" where
  "handleDatagramAndFlush e buf c =
     (if connClosed c then Some c else Option.bind (handleDatagramLocked e buf c) (flushPendingAcksLocked e))"

text \<open>What \<open>readLoop\<close> does with one batch of messages.\<close>

fun readMessages :: "connEnv \<Rightarrow> bytes list \<Rightarrow> Connection \<Rightarrow> Connection option" where
  "readMessages e [] c = Some c"
| "readMessages e (buf # bufs) c =
     (if length buf < frameHeaderSize then readMessages e bufs c
      else Option.bind (handleDatagramLocked e buf c) (readMessages e bufs))"

definition readBatch :: "connEnv \<Rightarrow> bytes list \<Rightarrow> Connection \<Rightarrow> Connection option" where
  "readBatch e bufs c =
     (if connClosed c then Some c else Option.bind (readMessages e bufs c) (flushPendingAcksLocked e))"

section \<open>Periodic work\<close>

definition tombstoneTTL :: duration where "tombstoneTTL = 10 * Second"

definition removeStream :: "connEnv \<Rightarrow> u32 \<Rightarrow> Connection \<Rightarrow> Connection" where
  "removeStream e i c =
     (let c1 = c\<lparr>streams := map_option (mdel i) (streams c)\<rparr>;
          c2 = c1\<lparr>sendPath := (sendPath c1)\<lparr>retransmit := purgeStream i (retransmit (sendPath c1))\<rparr>\<rparr>
      in c2\<lparr>deadStreams := mput i (know e) (deadStreams c2), sReadIdsToAck := mdel i (sReadIdsToAck c2),
            sAckDirty := mdel i (sAckDirty c2), streamFreed := True\<rparr>)"

definition reapable :: "Connection \<Rightarrow> u32 \<Rightarrow> bool" where
  "reapable c i =
     (case streamAt c i of None \<Rightarrow> False | Some s \<Rightarrow> finished s \<and> \<not> hasStream i (retransmit (sendPath c)))"

definition gcStreams :: "connEnv \<Rightarrow> Connection \<Rightarrow> Connection" where
  "gcStreams e c =
     (let dn = filter (reapable c) (korder e (mkeys (table c)));
          c1 = fold (removeStream e) dn c
      in c1\<lparr>deadStreams := filter (\<lambda>(i, t). \<not> tombstoneTTL < time_sub (know e) t) (deadStreams c1)\<rparr>)"

fun tailNacks :: "connEnv \<Rightarrow> u32 list \<Rightarrow> Connection \<Rightarrow> Connection option" where
  "tailNacks e [] c = Some c"
| "tailNacks e (i # is) c =
     (case streamAt c i of
        None \<Rightarrow> tailNacks e is c
      | Some s \<Rightarrow> Option.bind (storeStream e i (s\<lparr>rd := maybeTailNack (recvEnvOf e c) (rd s)\<rparr>) c) (tailNacks e is))"

definition tailNackScan :: "connEnv \<Rightarrow> Connection \<Rightarrow> Connection option" where
  "tailNackScan e c = tailNacks e (korder e (mkeys (table c))) c"

text \<open>One round of \<open>retransmitLoop\<close>: the resends, or the work of a tick.\<close>

definition serviceConn :: "connEnv \<Rightarrow> (nat \<Rightarrow> time) \<Rightarrow> Connection \<Rightarrow> (bool \<times> Connection) option" where
  "serviceConn e clk c =
     map_option (\<lambda>(qd, w, st). (qd, c\<lparr>resends := w, sendPath := st\<rparr>)) (serviceResends (kcfg e) (kres e) clk (resends c) (sendPath c))"

definition retransmitTick :: "connEnv \<Rightarrow> Connection \<Rightarrow> Connection option" where
  "retransmitTick e c = do {
     (reqs, q) \<leftarrow> due (know e) (currentRTO (rtt c)) (retransmit (sendPath c));
     let c1 = c\<lparr>resends := enqueueResends reqs (resends c), sendPath := (sendPath c)\<lparr>retransmit := q\<rparr>\<rparr>;
     c2 \<leftarrow> tailNackScan e c1;
     Some (gcStreams e c2)
   }"

definition maxMissedPongs :: int where "maxMissedPongs = 3"

definition SendPing :: "connEnv \<Rightarrow> u32 \<Rightarrow> u32 \<Rightarrow> Connection \<Rightarrow> (err option \<times> Connection) option" where
  "SendPing e i sq c =
     map_option (\<lambda>(er, st). (er, c\<lparr>sendPingMs := (if er \<noteq> None then 0 else knowMs e), sendPath := st\<rparr>))
       (sendControlFrame (kcfg e) (kres e) framePing i sq (sendPath c))"

text \<open>One tick of \<open>keepAliveLoop\<close>; the flag tells whether the loop goes on.\<close>

definition keepAliveTick :: "connEnv \<Rightarrow> Connection \<Rightarrow> (bool \<times> Connection) option" where
  "keepAliveTick e c0 =
     (let c = c0\<lparr>missedPongs := missedPongs c0 + 1\<rparr> in
      if maxMissedPongs < missedPongs c then Some (False, c\<lparr>closing := True\<rparr>)
      else map_option (\<lambda>(_, c1). (True, c1)) (SendPing e 0 0 c))"

text \<open>\<open>Close\<close> up to the release of the socket; it also returns the streams with the error they were given. The
  waits for the kernel leave no message in flight.\<close>

definition Close :: "connEnv \<Rightarrow> Connection \<Rightarrow> (Stream list \<times> Connection) option" where
  "Close e c =
     (if connClosed c then Some ([], c)
      else do {
        c1 \<leftarrow> sending (sendControlFrame (kcfg e) (kres e) frameGoAway 0 0) (c\<lparr>connClosed := True\<rparr>);
        let c2 = c1\<lparr>sendPath := (sendPath c1)\<lparr>inKernel := (if uring (sendPath c1) then (\<lambda>_. 0) else inKernel (sendPath c1)), uring := False\<rparr>\<rparr>;
        Some (map (\<lambda>i. deliverClose (the (streamAt c2 i))) (korder e (mkeys (table c2))), c2\<lparr>streams := None\<rparr>)
      })"

definition CloseWithError :: "connEnv \<Rightarrow> u64 \<Rightarrow> string \<Rightarrow> Connection \<Rightarrow> (Stream list \<times> Connection) option" where
  "CloseWithError e code reason c = Close e c"

end
