(* ===== verification/SendSafe.thy ===== *)
theory SendSafe
  imports Resend
begin

text \<open>
  The send path as a connection uses it: \<open>sok\<close> is the invariant between calls (the send state of theory \<open>BatchOps\<close>, no
  resend copy on loan, every recorded frame fits a datagram), and every call keeps it without a panic, whatever
  the kernel answers.
\<close>

definition sok :: "config \<Rightarrow> time \<Rightarrow> sendState \<Rightarrow> bool" where
  "sok c t st \<longleftrightarrow> (\<exists>T. state False c t [] T st) \<and> fits c (frames (retransmit st))"

section \<open>The recorded frames\<close>

lemma flushIfFull_keeps: "recycled (retransmit st) (retransmit (snd (flushIfFull c K st)))"
  by (simp add: flushIfFull_def flush_keeps recycled_refl)

lemma thenFlush_keeps:
  assumes "thenFlush c K res = Some (e, st')" "\<And>e1 st1. res = Some (e1, st1) \<Longrightarrow> recycled q (retransmit st1)"
  shows "recycled q (retransmit st')"
proof -
  from assms(1) obtain e1 st1 where r: "res = Some (e1, st1)" by (auto simp: thenFlush_def split: option.splits)
  then have "st' = st1 \<or> st' = snd (flushSend c K st1)" using assms(1) by (cases e1) (auto simp: thenFlush_def)
  then show ?thesis using assms(2) [OF r] flush_keeps(1) [of st1 c K] recycled_trans by (auto simp: flushSend_def)
qed

lemma zeroCopy_keeps:
  assumes "queueZeroCopy c K cls ft i sq sl st = Some (e, st')"
  shows "recycled (retransmit st) (retransmit st')"
proof -
  from assms obtain r st1 where a: "acquireSendSlot c K cls st = Some (r, st1)" by (auto simp: queueZeroCopy_def split: bind_splits)
  have cm: "recycled (retransmit s) (retransmit (snd (commitSendSlotZeroCopy c K j n sl cls (setBuf j b s))))" for s j n b
    unfolding commitSendSlotZeroCopy_def Let_def
    by (rule subst [of _ _ "\<lambda>q. recycled q _", OF _ flushIfFull_keeps]) (simp add: setEP_def setBuf_def)
  show ?thesis
  proof (cases r)
    case (Inl er)
    then show ?thesis using assms a acquire_keeps [OF a] by (auto simp: queueZeroCopy_def)
  next
    case (Inr j)
    then obtain b n where "commitSendSlotZeroCopy c K j n sl cls (setBuf j b st1) = (e, st')"
      using assms a by (auto simp: queueZeroCopy_def split: bind_splits)
    then have "recycled (retransmit st1) (retransmit st')" using cm [of st1 j n b] by simp
    then show ?thesis using acquire_keeps [OF a] recycled_trans by blast
  qed
qed

lemma packFrame_keeps: "packFrame c ft i sq sl idx st = Some (n, st') \<Longrightarrow> retransmit st' = retransmit st"
  by (auto simp: packFrame_def Let_def setEP_def setBuf_def split: if_splits bind_splits)

lemma openPack_keeps: "recycled (retransmit st) (retransmit (snd (openPack c K st)))"
  using flush_keeps(1) [of st c K] by (auto simp: openPack_def recycled_refl split: option.split prod.split)

lemma gso_keeps:
  assumes "queueFrameGSOLocked c K ft i sq sl st0 = Some (e, st')"
  shows "recycled (retransmit st0) (retransmit st')"
proof -
  define X where "X = (if wirePacer c \<noteq> None \<and> 0 < sendDatagrams st0 \<and> sendPaceClass st0 \<noteq> paceBulk
     then splitPacingClassLocked c K paceBulk (closePackLocked st0) else (None, st0))"
  obtain e1 st where x: "X = (e1, st)" by fastforce
  have k: "recycled (retransmit st0) (retransmit st)"
    using x split_keeps(1) [of "closePackLocked st0" c K paceBulk] by (auto simp: X_def recycled_refl split: if_splits)
  obtain e2 st1 where o: "openPack c K st = (e2, st1)" by fastforce
  then have k1: "recycled (retransmit st0) (retransmit st1)" using openPack_keeps [of st c K] k recycled_trans by fastforce
  note r = assms [unfolded queueFrameGSOLocked_def, folded X_def, unfolded x prod.case o]
  show ?thesis
  proof (cases "e1 = None \<and> e2 = None")
    case False
    then show ?thesis using r k k1 by (auto split: option.splits)
  next
    case True
    from r [unfolded conjunct1 [OF True] conjunct2 [OF True]] obtain idx n st2 where
      p: "packFrame c ft i sq sl idx st1 = Some (n, st2)"
        "(e, st') = flushIfFull c K (closePackLocked st2) \<or> (e, st') = (None, st2)"
      by (auto simp: Let_def split: bind_splits if_splits)
    then show ?thesis using packFrame_keeps [OF p(1)] flushIfFull_keeps [of "closePackLocked st2" c K] k1 recycled_trans
      by (metis closePack_keeps(1) snd_conv)
  qed
qed

lemma nackLoop_keeps:
  assumes "seqListChunkLoop m (nackChunk c K i) seqs (Some st) = (r, Some st')"
  shows "recycled (retransmit st) (retransmit st')"
  using assms
proof (induction m seqs arbitrary: st rule: chunks_of.induct)
  case (1 m seqs)
  show ?case
  proof (cases "seqs = [] \<or> m = 0")
    case True
    then show ?thesis using "1.prems" by (simp add: seqListChunkLoop.simps [of m] recycled_refl)
  next
    case False
    have tk: "take (min (length seqs) m) seqs = take m seqs" "drop (min (length seqs) m) seqs = drop m seqs"
      by (simp_all add: min_def)
    note L = "1.prems" [unfolded seqListChunkLoop.simps [of m _ seqs] if_not_P [OF False] Let_def tk]
    show ?thesis
    proof (cases "queueNackFrame c K i (take m seqs) st")
      case None
      then show ?thesis using L by (simp add: nackChunk_def)
    next
      case (Some x)
      then obtain e st1 where q: "queueNackFrame c K i (take m seqs) st = Some (e, st1)" by (cases x) auto
      then have k: "recycled (retransmit st) (retransmit st1)" using queueEncoded_keeps by (auto simp: queueNackFrame_def)
      show ?thesis
      proof (cases e)
        case None
        then have "seqListChunkLoop m (nackChunk c K i) (drop m seqs) (Some st1) = (r, Some st')" using L q by (simp add: nackChunk_def)
        from "1.IH" [OF False this] k show ?thesis using recycled_trans by blast
      next
        case (Some er)
        then show ?thesis using L q k by (simp add: nackChunk_def)
      qed
    qed
  qed
qed

lemma sendNackFrames_keeps:
  assumes "sendNackFrames c K i seqs st = Some (e, st')"
  shows "recycled (retransmit st) (retransmit st')"
proof -
  let ?L = "seqListChunkLoop (nat (maxAckSeqsPerFrame (maxPayload c))) (nackChunk c K i) seqs (Some st)"
  show ?thesis
  proof (cases "maxAckSeqsPerFrame (maxPayload c) \<le> 0")
    case True
    then show ?thesis using assms by (simp add: sendNackFrames_def recycled_refl)
  next
    case False
    with assms obtain r st1 where l: "?L = (r, Some st1)" by (auto simp: sendNackFrames_def split: prod.splits option.splits sum.splits)
    then have "st' = st1 \<or> st' = snd (flushSend c K st1)" using assms False
      by (cases r) (auto simp: sendNackFrames_def)
    then show ?thesis using nackLoop_keeps [OF l] flush_keeps(1) [of st1 c K] recycled_trans by (auto simp: flushSend_def)
  qed
qed

section \<open>The calls\<close>

lemma state_mono: "state gd c t l T st \<Longrightarrow> t \<le> t' \<Longrightarrow> state gd c t' l T st"
  unfolding state_def rel_def qok_def using qinv_mono by blast

lemma sok_mono: "sok c t st \<Longrightarrow> t \<le> t' \<Longrightarrow> sok c t' st"
  unfolding sok_def using state_mono by blast

lemma sok_qok: "sok c t st \<Longrightarrow> qok t [] (retransmit st)"
  by (auto simp: sok_def state_def rel_def)

text \<open>What a send event does, seen from the send state alone.\<close>

definition sends :: "config \<Rightarrow> time \<Rightarrow> sendState \<Rightarrow> (err option \<times> sendState) option \<Rightarrow> bool" where
  "sends c t st res \<longleftrightarrow> (\<exists>e st'. res = Some (e, st') \<and> sok c t st')"

lemma event_sent:
  assumes cfg: "sendConfig c" "ringOK K" and s: "sok c t st" and en: "benabled c ev \<lparr>bclock = t, blent = [], bst = st\<rparr>"
    and b: "bstep c K ev \<lparr>bclock = t, blent = [], bst = st\<rparr> = lift t \<lparr>bclock = t, blent = [], bst = st\<rparr> res"
    and f: "\<And>e st'. res = Some (e, st') \<Longrightarrow> fits c (frames (retransmit st'))"
  shows "sends c t st res"
proof -
  let ?s = "\<lparr>bclock = t, blent = [], bst = st\<rparr>"
  obtain T where "state False c (bclock ?s) (blent ?s) T (bst ?s)" using s by (auto simp: sok_def)
  from bstep_state [OF cfg(1) this cfg(2) _ en] obtain e s' T' where
    r: "bstep c K ev ?s = Some (e, s')" "state False c (bclock s') (blent s') T' (bst s')" by auto
  then obtain st' where "res = Some (e, st')" "s' = ?s\<lparr>bst := st'\<rparr>" using b by (auto simp: lift_def split: option.splits)
  then show ?thesis using r f by (auto simp: sends_def sok_def)
qed

lemma recycled_fits: "sok c t st \<Longrightarrow> recycled (retransmit st) q \<Longrightarrow> fits c (frames q)"
  using recycled_frames(1) by (simp add: sok_def)

lemma sok_senders:
  assumes "sendConfig c" "ringOK K" "sok c t st"
  shows "sends c t st (sendControlFrame c K ft i sq st)"
    and "sends c t st (sendWindowUpdate c K i off st)"
    and "sends c t st (queueWindowUpdate c K i off st)"
    and "sends c t st (sendNackFrames c K i seqs st)"
    and "sends c t st (sendResetNoQueue c K i code st)"
    and "sends c t st (Some (flushSend c K st))"
    and "frameHeaderSize + 8 + 4 * length seqs \<le> dgram c \<Longrightarrow> sends c t st (queueACKFrame c K i cum seqs st)"
    and "frameHeaderSize + fecMetaLen + length xd \<le> dgram c \<Longrightarrow> sends c t st (sendFecFrame c K ft i base n xl xd st)"
proof -
  note ev = event_sent [OF assms(1,2,3)] and fit = recycled_fits [OF assms(3)]
  have enc: "fits c (frames (retransmit st'))" if "queueEncoded c K cls en st = Some (e, st')" for cls en e st'
    using that queueEncoded_keeps fit by blast
  have encF: "fits c (frames (retransmit st'))" if "thenFlush c K (queueEncoded c K cls en st) = Some (e, st')" for cls en e st'
  proof -
    have "recycled (retransmit st) (retransmit st')" using that by (rule thenFlush_keeps) (rule queueEncoded_keeps)
    then show ?thesis by (rule fit)
  qed
  show "sends c t st (sendControlFrame c K ft i sq st)"
    by (rule ev [of "SvControl ft i sq"]) (use encF in \<open>auto simp: benabled_def bstep_def sendControlFrame_def\<close>)
  show "sends c t st (sendWindowUpdate c K i off st)"
    by (rule ev [of "SvWindow i off"]) (use encF in \<open>auto simp: benabled_def bstep_def sendWindowUpdate_def queueWindowUpdate_def\<close>)
  show "sends c t st (queueWindowUpdate c K i off st)"
    by (rule ev [of "SvQueueWindow i off"]) (use enc in \<open>auto simp: benabled_def bstep_def queueWindowUpdate_def\<close>)
  show "sends c t st (sendNackFrames c K i seqs st)"
    by (rule ev [of "SvNacks i seqs"]) (use sendNackFrames_keeps fit in \<open>auto simp: benabled_def bstep_def\<close>)
  show "sends c t st (sendResetNoQueue c K i code st)"
    by (rule ev [of "SvReset i code"]) (use encF in \<open>auto simp: benabled_def bstep_def sendResetNoQueue_def\<close>)
  show "sends c t st (Some (flushSend c K st))"
    by (rule ev [of SvFlush]) (use flush_keeps(1) [of st c K] fit in \<open>auto simp: benabled_def bstep_def flushSend_def\<close>)
  show "sends c t st (queueACKFrame c K i cum seqs st)" if "frameHeaderSize + 8 + 4 * length seqs \<le> dgram c"
    by (rule ev [of "SvQueueAck i cum seqs"]) (use enc that in \<open>auto simp: benabled_def bstep_def queueACKFrame_def\<close>)
  show "sends c t st (sendFecFrame c K ft i base n xl xd st)" if "frameHeaderSize + fecMetaLen + length xd \<le> dgram c"
    by (rule ev [of "SvFec ft i base n xl xd"]) (use enc that in \<open>auto simp: benabled_def bstep_def sendFecFrame_def\<close>)
qed

text \<open>A frame may be recorded when its key is not outstanding and it fits a datagram.\<close>

definition recordable :: "config \<Rightarrow> sendState \<Rightarrow> u8 \<Rightarrow> u32 \<Rightarrow> u32 \<Rightarrow> bytes \<Rightarrow> bool" where
  "recordable c st ft i sq pl \<longleftrightarrow> retransmitKey i sq \<notin> fKey ` set (frames (retransmit st)) \<and> frameHdrLen c ft + length pl \<le> dgram c"

lemma queueAdd_fits:
  assumes "sok c t st" "recordable c st ft i sq pl" "queueAdd t ft i sq pl (retransmit st) = (sl, q)"
  shows "fits c (frames q)"
  using queueAdd_spec [OF sok_qok [OF assms(1)] _ _ assms(3)] assms(1,2)
  by (auto simp: sok_def fits_def recordable_def newFrame_def)

lemma sok_recorders:
  assumes "sendConfig c" "ringOK K" "sok c t st"
  shows "recordable c st frameData i sq pl \<Longrightarrow> sends c t st (sendDataFrame c K t i sq pl st)"
    and "recordable c st ft i sq pl \<Longrightarrow> sends c t st (sendReliableFrame c K t ft i sq pl st)"
proof -
  note ev = event_sent [OF assms(1,2,3)]
  show "sends c t st (sendDataFrame c K t i sq pl st)" if r: "recordable c st frameData i sq pl"
  proof (rule ev [of "SvData t i sq pl"])
    fix e st' assume d: "sendDataFrame c K t i sq pl st = Some (e, st')"
    obtain sl q where a: "queueAdd t frameData i sq pl (retransmit st) = (sl, q)" by fastforce
    have "recycled q (retransmit st')"
      using d gso_keeps zeroCopy_keeps unfolding sendDataFrame_def a by (fastforce simp: Let_def split: if_splits)
    then show "fits c (frames (retransmit st'))" using queueAdd_fits [OF assms(3) r a] recycled_frames(1) by simp
  qed (use r in \<open>auto simp: benabled_def bstep_def qenabled_def qsysOf_def recordable_def\<close>)
  show "sends c t st (sendReliableFrame c K t ft i sq pl st)" if r: "recordable c st ft i sq pl"
  proof (rule ev [of "SvReliable t ft i sq pl"])
    fix e st' assume d: "sendReliableFrame c K t ft i sq pl st = Some (e, st')"
    obtain sl q where a: "queueAdd t ft i sq pl (retransmit st) = (sl, q)" by fastforce
    have "recycled q (retransmit st')"
      using d unfolding sendReliableFrame_def a Let_def prod.case by (rule thenFlush_keeps) (use zeroCopy_keeps in fastforce)
    then show "fits c (frames (retransmit st'))" using queueAdd_fits [OF assms(3) r a] recycled_frames(1) by simp
  qed (use r in \<open>auto simp: benabled_def bstep_def qenabled_def qsysOf_def recordable_def\<close>)
qed

section \<open>The retransmission queue\<close>

text \<open>Acknowledgements, purges, resend requests and the timeout scan.\<close>

fun bookkeeping :: "qevent \<Rightarrow> bool" where
  "bookkeeping (EvAckMany _ _ _) = True"
| "bookkeeping (EvAckCumulative _ _ _) = True"
| "bookkeeping (EvPurge _) = True"
| "bookkeeping (EvRequest _ _ _ _) = True"
| "bookkeeping (EvDue _ _) = True"
| "bookkeeping _ = False"

lemma sstep_fits: "fits c (outstanding a) \<Longrightarrow> bookkeeping ev \<Longrightarrow> fits c (outstanding (sstep ev a))"
  by (cases ev) (auto simp: sstep_def fits_def unacked_def mark_def split: option.split)

lemma bookkeeping_sok:
  assumes s: "sok c t st" and b: "bookkeeping ev"
  defines "r \<equiv> qstep ev \<lparr>clock = t, lent = [], queue = retransmit st\<rparr>"
  shows "sok c t (st\<lparr>retransmit := queue r\<rparr>) \<and> outstanding (sstep ev (absq \<lparr>clock = t, lent = [], queue = retransmit st\<rparr>)) = frames (queue r)"
proof -
  let ?s = "\<lparr>bclock = t, blent = [], bst = st\<rparr>" and ?q = "\<lparr>clock = t, lent = [], queue = retransmit st\<rparr>"
  have q: "qsysOf ?s = ?q" by (simp add: qsysOf_def)
  obtain T where T: "state False c (bclock ?s) (blent ?s) T (bst ?s)" using s by (auto simp: sok_def)
  have en: "qenabled ev ?q" "ev \<noteq> EvDrain" "\<forall>n. ev \<noteq> EvDrainFirst n" using b by (cases ev; auto simp: qenabled_def)+
  have cl: "clock r = t" "lent r = []" using b by (cases ev; auto simp: r_def qstep_def split: option.split prod.split)+
  have st: "state False c t [] T (st\<lparr>retransmit := queue r\<rparr>)"
    using queue_event_state [OF T _ en(2,3), of r] en(1) cl by (simp add: q r_def)
  have ok: "sysok ?q" using sok_qok [OF s] by (simp add: sysok_def)
  have ab: "outstanding (sstep ev (absq ?q)) = frames (queue r)"
    unfolding rq.step_abs [OF ok en(1), symmetric] by (simp add: r_def absq_def)
  have "fits c (outstanding (absq ?q))" using s by (simp add: sok_def absq_def)
  from sstep_fits [OF this b] st show ?thesis by (auto simp: sok_def ab)
qed

section \<open>The resend worker\<close>

lemma resendCopies_safe:
  assumes "state False c t l T st" "ringOK K" "sliceRead (dataOf e) (arena (retransmit st)) = pl"
    "frameHdrLen c (eftype e) + length pl \<le> dgram c"
  shows "\<exists>qd' st' T'. resendCopies c K n e qd st = Some (qd', st') \<and> recycled (retransmit st) (retransmit st') \<and> state False c t l T' st'"
  using assms(1,3)
proof (induction n arbitrary: st T qd)
  case (Suc n)
  have "queued False c t l (T @ [(paceRecovery, frame_bytes (eftype e) (estreamID e) (eseq e) (fecPrefix c (eftype e) @ pl))])
      (queueResendCopy c K e st)"
    unfolding queueResendCopy_def Suc.prems(2)
    by (rule queueEncoded_queued [OF Suc.prems(1) assms(2)]) (simp_all add: encodes_resend [OF assms(4)])
  then obtain er st1 T1 where q: "queueResendCopy c K e st = Some (er, st1)" "state False c t l T1 st1"
    by (auto simp: queued_def outcome_def)
  have k: "recycled (retransmit st) (retransmit st1)" using q(1) queueEncoded_keeps by (auto simp: queueResendCopy_def)
  show ?case
  proof (cases er)
    case None
    have "sliceRead (dataOf e) (arena (retransmit st1)) = pl" using Suc.prems(2) recycled_frames(2) [OF k] by simp
    from Suc.IH [OF q(2) this, of True] None q(1) k show ?thesis using recycled_trans by fastforce
  qed (use q k in auto)
qed (auto simp: recycled_refl)

lemma resendOne_safe:
  assumes cfg: "ringOK K" and s: "sok c t st" and n: "t \<le> clk (statResends w)" "mono clk"
  shows "\<exists>qd' w' st' t'. resendOne c K clk req qd w st = Some (qd', w', st') \<and> sok c t' st' \<and> t \<le> t' \<and>
    t' \<le> clk (statResends w')"
proof -
  let ?q = "retransmit st" and ?now = "clk (statResends w)"
  let ?k = "lookup (retransmitKey (reqStream req) (reqSeq req)) (frames ?q)"
  from s obtain T where T: "state False c t [] T st" and fit: "fits c (frames ?q)" by (auto simp: sok_def)
  note ok = sok_qok [OF s]
  show ?thesis
  proof (cases "\<exists>f. ?k = Some f \<and> fQueued f")
    case False
    then have "peekForResend req ?q = None" unfolding peekForResend_spec [OF ok] by (auto split: option.split)
    then show ?thesis using s n by (auto simp: resendOne_def)
  next
    case True
    then obtain f where f: "?k = Some f" "fQueued f" by blast
    from take_state [OF T f n(1)] obtain e q where
      t: "takeForResend ?now req ?q = (Some e, q)" "state False c ?now (dataOf e # []) T (st\<lparr>retransmit := q\<rparr>)"
        "sliceRead (dataOf e) (arena q) = fData f" "eftype e = fType f"
        "frames q = filter (\<lambda>g. fKey g \<noteq> fKey f) (frames ?q) @ [resent ?now f]" by blast
    have fq: "fits c (frames q)" unfolding t(5) by (rule fits_step [OF fit f(1)])
    have "f \<in> set (frames ?q)" using f(1) by (auto simp: lookup_def find_Some_iff)
    then have "frameHdrLen c (eftype e) + length (fData f) \<le> dgram c" using fit t(4) by (simp add: fits_def)
    from resendCopies_safe [OF t(2) cfg _ this, of "if stubbornResendThreshold \<le> eretries e then 2 else 1" qd] t(3)
    obtain qd' st1 T1 where
      c: "resendCopies c K (if stubbornResendThreshold \<le> eretries e then 2 else 1) e qd (st\<lparr>retransmit := q\<rparr>) = Some (qd', st1)"
        "recycled q (retransmit st1)" "state False c ?now (dataOf e # []) T1 st1" by auto
    let ?s1 = "\<lparr>bclock = ?now, blent = [dataOf e], bst = st1\<rparr>" and ?r = "releaseResendCopy (dataOf e) (retransmit st1)"
    have "state False c ?now [] T1 (st1\<lparr>retransmit := ?r\<rparr>)"
      using queue_event_state [of False c ?s1 T1 "EvRelease (dataOf e)" "qstep (EvRelease (dataOf e)) (qsysOf ?s1)"] c(3)
      by (simp add: qenabled_def qsysOf_def qstep_def)
    moreover have "frames ?r = frames q"
    proof -
      have "qok ?now [dataOf e] (retransmit st1)" using c(3) by (auto simp: state_def rel_def)
      from releaseResendCopy_spec [OF this, of "dataOf e"] show ?thesis using recycled_frames(1) [OF c(2)] by simp
    qed
    ultimately have "sok c ?now (st1\<lparr>retransmit := ?r\<rparr>)" using fq by (auto simp: sok_def)
    moreover have "resendOne c K clk req qd w st = Some (qd', w\<lparr>statResends := statResends w + 1\<rparr>, st1\<lparr>retransmit := ?r\<rparr>)"
      using peekForResend_spec [OF ok, of req] f t(1) c(1) unfolding resendOne_def by simp
    moreover have "?now \<le> clk (statResends w + 1)" using n(2) by (simp add: monoD)
    ultimately show ?thesis using n(1) by auto
  qed
qed

lemma drainResends_safe:
  assumes "ringOK K" "mono clk" "sok c t st" "t \<le> clk (statResends w)"
  shows "\<exists>qd' w' st' t'. drainResends c K clk qd w st = Some (qd', w', st') \<and> sok c t' st' \<and> t \<le> t' \<and> t' \<le> clk (statResends w')"
  using assms(3,4)
proof (induction "waiting w" arbitrary: w st t qd)
  case Nil
  then show ?case using popResend_Nil [of w] by (subst drainResends.simps) auto
next
  case (Cons req reqs)
  from popResend_Cons [OF Cons.hyps(2) [symmetric]] obtain w1 where
    w1: "popResend w = (Some req, w1)" "waiting w1 = reqs" "statResends w1 = statResends w" by auto
  from resendOne_safe [OF assms(1) Cons.prems(1) _ assms(2), of w1 req qd] Cons.prems(2) w1(3) obtain qd1 w2 st1 t1 where
    r: "resendOne c K clk req qd w1 st = Some (qd1, w2, st1)" "sok c t1 st1" "t \<le> t1" "t1 \<le> clk (statResends w2)" by auto
  have "waiting w2 = reqs" using resendOne_waiting [OF r(1)] w1(2) by simp
  from Cons.hyps(1) [OF this [symmetric] r(2,4), of qd1] r(1,3) show ?case
    by (subst drainResends.simps) (fastforce simp: w1 intro: order_trans)
qed

lemma serviceResends_safe:
  assumes "sendConfig c" "ringOK K" "mono clk" "sok c t st" "t \<le> clk (statResends w)"
  shows "\<exists>qd w' st' t'. serviceResends c K clk w st = Some (qd, w', st') \<and> sok c t' st' \<and> t' \<le> clk (statResends w')"
proof -
  from drainResends_safe [OF assms(2-5), of False] obtain qd w' st1 t' where
    d: "drainResends c K clk False w st = Some (qd, w', st1)" "sok c t' st1" "t' \<le> clk (statResends w')" by auto
  from sok_senders(6) [OF assms(1,2) d(2)] show ?thesis using d by (auto simp: serviceResends_def sends_def)
qed

end
