(* ===== verification/ConnInv.thy ===== *)
theory ConnInv
  imports Conn SendSafe RecvGrants
begin

text \<open>
  The type of a connection state: \<open>typed\<close> describes the stream table and the maps beside it, \<open>cok\<close> adds the invariant
  of the send path. Every operation of theory \<open>Conn\<close> keeps \<open>cok\<close> and does not panic: progress and preservation are
  proved together, operation by operation.
\<close>

section \<open>The invariant\<close>

definition firstID :: "Connection \<Rightarrow> u32" where
  "firstID c = (if isClient c then 1 else 2)"

text \<open>The \<open>k\<close>-th stream the connection opens itself.\<close>

definition ownID :: "Connection \<Rightarrow> nat \<Rightarrow> u32" where
  "ownID c k = firstID c + 2 * of_nat k"

definition streamOk :: "u32 \<Rightarrow> Stream \<Rightarrow> bool" where
  "streamOk i s \<longleftrightarrow> sid s = i \<and> rid (rd s) = i \<and> wid (wr s) = i \<and> rcalls (rd s) = [] \<and> wcalls (wr s) = []"

definition tableOk :: "config \<Rightarrow> Connection \<Rightarrow> bool" where
  "tableOk cfg c \<longleftrightarrow>
     mok (table c) \<and> (\<forall>i s. streamAt c i = Some s \<longrightarrow> streamOk i s) \<and>
     int (length (table c)) \<le> max 0 (maxStreams cfg) \<and> int (length (acceptCh c)) \<le> max 0 (maxStreams cfg) \<and>
     mok (sAckDirty c) \<and> mok (sReadIdsToAck c) \<and> mok (deadStreams c) \<and>
     (\<forall>i. streamAt c i \<noteq> None \<longrightarrow> mget (deadStreams c) i = None) \<and>
     (\<forall>i. streams c \<noteq> None \<longrightarrow> mget (sAckDirty c) i \<noteq> None \<longrightarrow> streamAt c i \<noteq> None) \<and>
     (streams c = None \<longrightarrow> connClosed c)"

text \<open>The IDs given out: the connection has opened \<open>n\<close> streams itself, and a live or dead stream of its own parity is one of them.\<close>

definition idsOk :: "nat \<Rightarrow> Connection \<Rightarrow> bool" where
  "idsOk n c \<longleftrightarrow> nextStream c = ownID c n \<and>
     (\<forall>i. \<not> peerInitiated i c \<longrightarrow> streamAt c i \<noteq> None \<or> mget (deadStreams c) i \<noteq> None \<longrightarrow> (\<exists>k < n. i = ownID c k))"

definition typed :: "config \<Rightarrow> nat \<Rightarrow> Connection \<Rightarrow> bool" where
  "typed cfg n c \<longleftrightarrow> tableOk cfg c \<and> idsOk n c"

lemmas typed_defs = typed_def tableOk_def idsOk_def

definition cok :: "config \<Rightarrow> nat \<Rightarrow> time \<Rightarrow> Connection \<Rightarrow> bool" where
  "cok cfg n t c \<longleftrightarrow> typed cfg n c \<and> sok cfg t (sendPath c)"

text \<open>What a step may assume of its environment.\<close>

definition envOk :: "config \<Rightarrow> connEnv \<Rightarrow> bool" where
  "envOk cfg e \<longleftrightarrow> kcfg e = cfg \<and> sendConfig cfg \<and> ringOK (kres e) \<and> (\<forall>xs. mset (korder e xs) = mset xs)"

lemma envOk_set: "envOk cfg e \<Longrightarrow> set (korder e xs) = set xs"
  unfolding envOk_def by (metis set_mset_mset)

lemma streamAt_table: "streamAt c i = mget (table c) i"
  by (simp add: streamAt_def table_def split: option.split)

lemma streamAt_setStream: "streamAt (setStream i s c) j = (if j = i \<and> streams c \<noteq> None then Some s else streamAt c j)"
  by (auto simp: streamAt_def setStream_def mget_mput split: option.split)

text \<open>Changes of the send path and of the counters.\<close>

definition quiet :: "Connection \<Rightarrow> Connection \<Rightarrow> bool" where
  "quiet c c' \<longleftrightarrow> (\<exists>st a b. c' = c\<lparr>sendPath := st, statReorder := a, statFecRecovered := b\<rparr>)"

lemma quiet_refl [simp]: "quiet c c"
proof -
  have "c = c\<lparr>sendPath := sendPath c, statReorder := statReorder c, statFecRecovered := statFecRecovered c\<rparr>" by simp
  then show ?thesis unfolding quiet_def by blast
qed

lemma quiet_trans: "quiet a b \<Longrightarrow> quiet b c \<Longrightarrow> quiet a c"
  unfolding quiet_def by (elim exE) (simp, blast)

lemma quietI: "quiet c (c\<lparr>sendPath := st\<rparr>)" "quiet c (c\<lparr>statReorder := a\<rparr>)" "quiet c (c\<lparr>statFecRecovered := b\<rparr>)"
proof -
  have "c\<lparr>sendPath := st\<rparr> = c\<lparr>sendPath := st, statReorder := statReorder c, statFecRecovered := statFecRecovered c\<rparr>"
    "c\<lparr>statReorder := a\<rparr> = c\<lparr>sendPath := sendPath c, statReorder := a, statFecRecovered := statFecRecovered c\<rparr>"
    "c\<lparr>statFecRecovered := b\<rparr> = c\<lparr>sendPath := sendPath c, statReorder := statReorder c, statFecRecovered := b\<rparr>" by simp_all
  then show "quiet c (c\<lparr>sendPath := st\<rparr>)" "quiet c (c\<lparr>statReorder := a\<rparr>)" "quiet c (c\<lparr>statFecRecovered := b\<rparr>)"
    unfolding quiet_def by blast+
qed

lemma quietD:
  assumes "quiet c c'"
  shows "streams c' = streams c" "streamAt c' i = streamAt c i" "table c' = table c" "acceptCh c' = acceptCh c" "sAckDirty c' = sAckDirty c"
    "sReadIdsToAck c' = sReadIdsToAck c" "deadStreams c' = deadStreams c" "connClosed c' = connClosed c" "nextStream c' = nextStream c"
    "isClient c' = isClient c" "closing c' = closing c" "missedPongs c' = missedPongs c" "ownID c' k = ownID c k"
    "peerInitiated i c' = peerInitiated i c"
  using assms by (auto simp: quiet_def streamAt_def table_def ownID_def firstID_def peerInitiated_def)

lemma quiet_typed: "quiet c c' \<Longrightarrow> typed cfg n c \<Longrightarrow> typed cfg n c'"
  by (simp add: typed_defs quietD)

text \<open>A result that exists and is well typed.\<close>

definition safe :: "config \<Rightarrow> nat \<Rightarrow> time \<Rightarrow> Connection option \<Rightarrow> bool" where
  "safe cfg n t r \<longleftrightarrow> (\<exists>c'. r = Some c' \<and> cok cfg n t c')"

lemma safe_Some [simp]: "safe cfg n t (Some c) \<longleftrightarrow> cok cfg n t c"
  by (simp add: safe_def)

lemma safe_bind: "safe cfg n t r \<Longrightarrow> (\<And>c. r = Some c \<Longrightarrow> cok cfg n t c \<Longrightarrow> safe cfg n t (f c)) \<Longrightarrow> safe cfg n t (Option.bind r f)"
  by (auto simp: safe_def)

section \<open>Calls\<close>

lemma sending_quiet: "sending f c = Some c' \<Longrightarrow> quiet c c'"
  using quietI(1) by (auto simp: sending_def)

lemma sending_safe:
  assumes "cok cfg n t c" "sends cfg t (sendPath c) (f (sendPath c))"
  shows "safe cfg n t (sending f c)"
proof -
  from assms(2) obtain er st where f: "f (sendPath c) = Some (er, st)" "sok cfg t st" by (auto simp: sends_def)
  then have s: "sending f c = Some (c\<lparr>sendPath := st\<rparr>)" by (simp add: sending_def)
  have "typed cfg n (c\<lparr>sendPath := st\<rparr>)" using quiet_typed [OF sending_quiet [OF s]] assms(1) by (simp add: cok_def)
  then show ?thesis using f s by (simp add: cok_def)
qed

text \<open>A call that records or encodes a payload needs room; every other call is always possible.\<close>

definition callOk :: "config \<Rightarrow> sendState \<Rightarrow> connCall \<Rightarrow> bool" where
  "callOk cfg st call =
     (case call of
        CallDataFrame i sq pl \<Rightarrow> recordable cfg st frameData i sq pl
      | CallReliableFrame ft i sq pl \<Rightarrow> recordable cfg st ft i sq pl
      | CallFecFrame ft i base n xl xd \<Rightarrow> frameHeaderSize + fecMetaLen + length xd \<le> dgram cfg
      | _ \<Rightarrow> True)"

fun callsOk :: "connEnv \<Rightarrow> connCall list \<Rightarrow> Connection \<Rightarrow> bool" where
  "callsOk e [] c = True"
| "callsOk e (call # calls) c =
     (callOk (kcfg e) (sendPath c) call \<and> (case runCall e call c of None \<Rightarrow> True | Some c' \<Rightarrow> callsOk e calls c'))"

lemma runCall_quiet: "runCall e call c = Some c' \<Longrightarrow> quiet c c'"
  using sending_quiet quietI by (cases call) (auto simp: runCall_def)

lemma runCalls_quiet: "runCalls e calls c = Some c' \<Longrightarrow> quiet c c'"
  by (induction calls arbitrary: c) (auto simp: bind_eq_Some_conv dest: runCall_quiet intro: quiet_trans)

lemma runCall_safe:
  assumes e: "envOk cfg e" and c: "cok cfg n (know e) c" and ok: "callOk cfg (sendPath c) call"
  shows "safe cfg n (know e) (runCall e call c)"
proof -
  have E: "kcfg e = cfg" "sendConfig cfg" "ringOK (kres e)" using e by (simp_all add: envOk_def)
  have s: "sok cfg (know e) (sendPath c)" using c by (simp add: cok_def)
  note sn = sok_senders [OF E(2,3) s] and rec = sok_recorders [OF E(2,3) s] and snd = sending_safe [OF c]
  have keep: "cok cfg n (know e) c'" if "quiet c c'" "sendPath c' = sendPath c" for c'
    using quiet_typed [OF that(1)] that(2) c by (simp add: cok_def)
  show ?thesis
  proof (cases call)
    case (CallPurgeStream i)
    let ?c = "c\<lparr>sendPath := (sendPath c)\<lparr>retransmit := purgeStream i (retransmit (sendPath c))\<rparr>\<rparr>"
    have "sok cfg (know e) (sendPath ?c)" using bookkeeping_sok [OF s, of "EvPurge i"] by (simp add: qstep_def)
    then show ?thesis using CallPurgeStream quiet_typed [OF quietI(1)] c by (simp add: runCall_def cok_def)
  qed (use ok in \<open>auto simp: runCall_def callOk_def E(1) intro!: snd sn rec keep [OF quietI(2)] keep [OF quietI(3)] c\<close>)
qed

lemma runCalls_safe:
  assumes e: "envOk cfg e"
  shows "cok cfg n (know e) c \<Longrightarrow> callsOk e calls c \<Longrightarrow> safe cfg n (know e) (runCalls e calls c)"
proof (induction calls arbitrary: c)
  case (Cons call calls)
  have "callOk cfg (sendPath c) call" using Cons.prems(2) e by (simp add: envOk_def)
  then show ?case using Cons runCall_safe [OF e Cons.prems(1)] by (auto intro!: safe_bind simp del: runCall_def)
qed simp

lemma callsOk_plain:
  assumes "\<And>st call. call \<in> set calls \<Longrightarrow> callOk (kcfg e) st call"
  shows "callsOk e calls c"
  using assms by (induction calls arbitrary: c) (auto split: option.split)

lemma readCall_ok: "readCall i call \<Longrightarrow> callOk cfg st call"
  by (auto simp: readCall_def sideCall_def callOk_def split: connCall.splits)

section \<open>Storing a stream\<close>

lemma setStream_typed:
  assumes "typed cfg n c" "streamAt c i \<noteq> None" "streamOk i s"
  shows "typed cfg n (setStream i s c)"
proof -
  obtain m s0 where m: "streams c = Some m" "mget m i = Some s0" using assms(2) by (auto simp: streamAt_def split: option.splits)
  then have "length (table (setStream i s c)) = length (table c)" "mok (table (setStream i s c)) \<longleftrightarrow> mok (mput i s (table c))"
    by (simp_all add: table_def setStream_def length_mput_Some)
  moreover have "streamAt (setStream i s c) j = (if j = i then Some s else streamAt c j)" for j
    using m by (simp add: streamAt_setStream)
  moreover have "(streams (setStream i s c) = None) = False" "acceptCh (setStream i s c) = acceptCh c" "sAckDirty (setStream i s c) = sAckDirty c"
    "sReadIdsToAck (setStream i s c) = sReadIdsToAck c" "deadStreams (setStream i s c) = deadStreams c" "nextStream (setStream i s c) = nextStream c"
    "ownID (setStream i s c) k = ownID c k" "peerInitiated j (setStream i s c) = peerInitiated j c" for k j
    using m by (simp_all add: setStream_def ownID_def firstID_def peerInitiated_def)
  ultimately show ?thesis using assms m(1) unfolding typed_defs by (auto split: if_splits)
qed

lemma storeStream_safe:
  assumes e: "envOk cfg e" and c: "cok cfg n (know e) c" and l: "streamAt c i \<noteq> None"
    and ids: "sid s = i" "rid (rd s) = i" "wid (wr s) = i"
    and calls: "\<And>c'. sendPath c' = sendPath c \<Longrightarrow> callsOk e (rcalls (rd s) @ wcalls (wr s)) c'"
  shows "safe cfg n (know e) (storeStream e i s c)"
proof -
  let ?s = "s\<lparr>rd := (rd s)\<lparr>rcalls := []\<rparr>, wr := (wr s)\<lparr>wcalls := []\<rparr>\<rparr>"
  have "typed cfg n (setStream i ?s c)" using c ids by (intro setStream_typed [OF _ l]) (simp_all add: cok_def streamOk_def)
  then have "cok cfg n (know e) (setStream i ?s c)" using c by (simp add: cok_def setStream_def)
  then show ?thesis unfolding storeStream_def by (rule runCalls_safe [OF e]) (rule calls, simp add: setStream_def)
qed

lemma storeStream_streams:
  assumes "storeStream e i s c = Some c'"
  shows "quiet (setStream i (s\<lparr>rd := (rd s)\<lparr>rcalls := []\<rparr>, wr := (wr s)\<lparr>wcalls := []\<rparr>\<rparr>) c) c'"
  using assms unfolding storeStream_def by (rule runCalls_quiet)

text \<open>An operation of the read side.\<close>

lemma storeRead_safe:
  assumes e: "envOk cfg e" and c: "cok cfg n (know e) c" and s: "streamAt c i = Some s" and r: "owns (rd s) r"
  shows "safe cfg n (know e) (storeStream e i (s\<lparr>rd := r\<rparr>) c)"
proof (rule storeStream_safe [OF e c])
  have o: "streamOk i s" using c s by (simp add: cok_def typed_defs)
  then have "list_all (readCall i) (rcalls r)" "rid r = i" "wcalls (wr s) = []"
    using r by (auto simp: owns_def streamOk_def)
  then show "callsOk e (rcalls (rd (s\<lparr>rd := r\<rparr>)) @ wcalls (wr (s\<lparr>rd := r\<rparr>))) c'" for c'
    by (intro callsOk_plain) (auto simp: list_all_iff intro: readCall_ok)
  show "sid (s\<lparr>rd := r\<rparr>) = i" "rid (rd (s\<lparr>rd := r\<rparr>)) = i" "wid (wr (s\<lparr>rd := r\<rparr>)) = i"
    using o \<open>rid r = i\<close> by (simp_all add: streamOk_def)
qed (use s in simp)

text \<open>Aborting the write side: the purge makes room for the RESET under any sequence number.\<close>

lemma abort_callsOk:
  assumes e: "envOk cfg e" and s: "sok cfg (know e) (sendPath c)"
  shows "callsOk e [CallWriteBroadcast, CallPurgeStream i, CallReliableFrame frameStreamReset i sq (resetPayload code)] c"
proof -
  let ?st = "(sendPath c)\<lparr>retransmit := purgeStream i (retransmit (sendPath c))\<rparr>"
  have "frames (retransmit ?st) = filter (\<lambda>f. fStream f \<noteq> i) (frames (retransmit (sendPath c)))"
    using bookkeeping_sok [OF s, of "EvPurge i"] by (simp add: qstep_def sstep_def absq_def)
  then have "retransmitKey i sq \<notin> fKey ` set (frames (retransmit ?st))" by (auto simp: fKey_def)
  moreover have "frameHdrLen cfg frameStreamReset + 8 \<le> dgram cfg"
    using e by (auto simp: envOk_def sendConfig_def frameHdrLen_def dgram_def maxDatagram_def frameHeaderSize_def frame_type_defs)
  ultimately show ?thesis using e
    by (auto simp: callOk_def runCall_def recordable_def envOk_def resetPayload_def split: option.split)
qed

lemma storeAbort_safe:
  assumes e: "envOk cfg e" and c: "cok cfg n (know e) c" and s: "streamAt c i = Some s"
  shows "safe cfg n (know e) (storeStream e i (s\<lparr>wr := abortWriteLocked code True (wr s)\<rparr>) c)"
proof -
  let ?w = "abortWriteLocked code True (wr s)"
  have o: "streamOk i s" using c s by (simp add: cok_def typed_defs)
  show ?thesis
  proof (rule storeStream_safe [OF e c])
    show "callsOk e (rcalls (rd (s\<lparr>wr := ?w\<rparr>)) @ wcalls (wr (s\<lparr>wr := ?w\<rparr>))) c'" if "sendPath c' = sendPath c" for c'
      using o abort_callsOk [OF e, of c' i "writeSeq (wr s)" code] c that
      by (auto simp: abortWriteLocked_def streamOk_def wcall_def Let_def cok_def)
  qed (use o s in \<open>auto simp: streamOk_def abortWriteLocked_def wcall_def Let_def\<close>)
qed

section \<open>Streams\<close>

lemma odd_ID: "(i :: u32) mod 2 = 1 \<longleftrightarrow> odd i"
  by (simp add: odd_iff_mod_2_eq_one)

lemma ownID_parity: "\<not> peerInitiated (ownID c k) c"
  by (simp add: peerInitiated_def ownID_def firstID_def odd_ID)

lemma ownID_inj:
  assumes "ownID c k = ownID c k'" "k < 2 ^ 31" "k' < 2 ^ 31"
  shows "k = k'"
proof -
  have "(of_nat (2 * k) :: u32) = of_nat (2 * k')" using assms(1) by (simp add: ownID_def)
  from this [unfolded word_of_nat_eq_iff] show ?thesis using assms(2,3) by (simp add: take_bit_nat_eq_self)
qed

lemma newStream_ok: "streamOk i (newStream i cfg b t)"
  by (simp add: streamOk_def newStream_def newReadSide_def newWriteSide_def)

text \<open>Adding a stream under an ID that is neither live nor dead.\<close>

lemma addStream_table:
  assumes c: "tableOk cfg c" and m: "streams c = Some m" and f: "streamAt c i = None" "mget (deadStreams c) i = None"
    and r: "int (length (table c)) < maxStreams cfg" and s: "streamOk i s"
  shows "tableOk cfg (setStream i s c)" "streamAt (setStream i s c) j = (if j = i then Some s else streamAt c j)"
proof -
  have t: "table (setStream i s c) = mput i s (table c)" using m by (simp add: table_def setStream_def)
  have "mget (table c) i = None" using f(1) by (simp add: streamAt_table)
  then have "length (table (setStream i s c)) = Suc (length (table c))" by (simp add: t length_mput_None)
  moreover have at: "streamAt (setStream i s c) j = (if j = i then Some s else streamAt c j)" for j
    using m by (simp add: streamAt_setStream)
  moreover have "(streams (setStream i s c) = None) = False" "acceptCh (setStream i s c) = acceptCh c" "sAckDirty (setStream i s c) = sAckDirty c"
    "sReadIdsToAck (setStream i s c) = sReadIdsToAck c" "deadStreams (setStream i s c) = deadStreams c"
    using m by (simp_all add: setStream_def)
  ultimately show "tableOk cfg (setStream i s c)" using c f r s m t unfolding tableOk_def by (auto split: if_splits)
  show "streamAt (setStream i s c) j = (if j = i then Some s else streamAt c j)" by (rule at)
qed

lemma setStream_fields [simp]:
  "acceptCh (setStream i s c) = acceptCh c" "sAckDirty (setStream i s c) = sAckDirty c" "sReadIdsToAck (setStream i s c) = sReadIdsToAck c"
  "deadStreams (setStream i s c) = deadStreams c" "nextStream (setStream i s c) = nextStream c" "sendPath (setStream i s c) = sendPath c"
  "ownID (setStream i s c) k = ownID c k" "peerInitiated j (setStream i s c) = peerInitiated j c" "rtt (setStream i s c) = rtt c"
  by (simp_all add: setStream_def ownID_def firstID_def peerInitiated_def)

lemma nextStream_fields [simp]:
  "streamAt (c\<lparr>nextStream := x\<rparr>) i = streamAt c i" "table (c\<lparr>nextStream := x\<rparr>) = table c" "ownID (c\<lparr>nextStream := x\<rparr>) k = ownID c k"
  "peerInitiated i (c\<lparr>nextStream := x\<rparr>) = peerInitiated i c"
  by (simp_all add: streamAt_def table_def ownID_def firstID_def peerInitiated_def)

lemma OpenStream_safe:
  assumes e: "kcfg e = cfg" and c: "cok cfg n t c" and n: "n < 2 ^ 31 - 1" and r: "OpenStream e c = (r, c')"
  shows "case r of
      Inl _ \<Rightarrow> c' = c
    | Inr i \<Rightarrow> cok cfg (Suc n) t c' \<and> i = ownID c n \<and> streamAt c i = None \<and> mget (deadStreams c) i = None \<and> streamAt c' i \<noteq> None"
proof (cases "connClosed c \<or> streams c = None \<or> maxStreams cfg \<le> int (length (table c))")
  case True
  then show ?thesis using r e by (auto simp: OpenStream_def split: if_splits)
next
  case False
  let ?i = "nextStream c"
  obtain m where m: "streams c = Some m" using False by auto
  have ty: "typed cfg n c" using c by (simp add: cok_def)
  have i: "?i = ownID c n" using ty by (simp add: typed_defs)
  have fresh: "streamAt c ?i = None \<and> mget (deadStreams c) ?i = None"
  proof (rule ccontr)
    assume "\<not> ?thesis"
    then obtain k where "k < n" "ownID c n = ownID c k" using ty ownID_parity [of c n] i by (auto simp: typed_defs)
    then show False using ownID_inj [of c n k] n by auto
  qed
  let ?s = "newStream ?i cfg (streamBufSize cfg) (know e)" and ?c1 = "c\<lparr>nextStream := ?i + 2\<rparr>"
  have c': "c' = setStream ?i ?s ?c1" and r': "r = Inr ?i" using r e False by (auto simp: OpenStream_def Let_def)
  have "tableOk cfg ?c1" using ty by (simp add: typed_def tableOk_def)
  note add = addStream_table [OF this, of m ?i ?s, folded c']
  have "tableOk cfg c'" by (rule add(1)) (use m fresh False newStream_ok in auto)
  moreover have at: "streamAt c' j = (if j = ?i then Some ?s else streamAt c j)" for j
    using add(2) [of j] m fresh False newStream_ok by auto
  moreover have "idsOk (Suc n) c'" unfolding idsOk_def at
  proof (intro conjI allI impI)
    show "nextStream c' = ownID c' (Suc n)" using i by (simp add: c') (simp add: ownID_def firstID_def)
    fix j assume j: "\<not> peerInitiated j c'" "(if j = ?i then Some ?s else streamAt c j) \<noteq> None \<or> mget (deadStreams c') j \<noteq> None"
    show "\<exists>k < Suc n. j = ownID c' k"
    proof (cases "j = ?i")
      case True
      then have "j = ownID c' n" using i by (simp add: c')
      then show ?thesis by blast
    next
      case False
      then obtain k where "k < n" "j = ownID c k" using j ty by (auto simp: typed_def idsOk_def c')
      then have "k < Suc n" "j = ownID c' k" by (simp_all add: c')
      then show ?thesis by blast
    qed
  qed
  ultimately have "cok cfg (Suc n) t c'" using c by (simp add: cok_def typed_def c')
  then show ?thesis using r' i fresh at by simp
qed

lemma streamForFrame_safe:
  assumes e: "envOk cfg e" and c: "cok cfg n (know e) c"
  shows "\<exists>found ack c'. streamForFrame e i c = Some ((found, ack), c') \<and> cok cfg n (know e) c' \<and> (found \<longrightarrow> streamAt c' i \<noteq> None)"
proof -
  have E: "kcfg e = cfg" "sendConfig cfg" "ringOK (kres e)" using e by (simp_all add: envOk_def)
  have ty: "typed cfg n c" and so: "sok cfg (know e) (sendPath c)" using c by (simp_all add: cok_def)
  consider (old) "connClosed c \<or> streamAt c i \<noteq> None \<or> mget (deadStreams c) i \<noteq> None \<or> \<not> peerInitiated i c \<or> streams c = None"
    | (full) "\<not> connClosed c" "streamAt c i = None" "mget (deadStreams c) i = None" "peerInitiated i c" "streams c \<noteq> None"
        "maxStreams cfg \<le> int (length (table c))"
    | (new) m where "\<not> connClosed c" "streamAt c i = None" "mget (deadStreams c) i = None" "peerInitiated i c" "streams c = Some m"
        "int (length (table c)) < maxStreams cfg"
    by force
  then show ?thesis
  proof cases
    case old
    then show ?thesis using c by (auto simp: streamForFrame_def)
  next
    case full
    have "safe cfg n (know e) (sending (sendControlFrame cfg (kres e) frameStopSending i 0) c)"
      by (rule sending_safe [OF c]) (rule sok_senders(1) [OF E(2,3) so])
    then obtain c1 where c1: "sending (sendControlFrame cfg (kres e) frameStopSending i 0) c = Some c1" "cok cfg n (know e) c1"
      by (auto simp: safe_def)
    then have "sok cfg (know e) (sendPath c1)" by (simp add: cok_def)
    have "safe cfg n (know e) (sending (sendResetNoQueue cfg (kres e) i 0) c1)"
      by (rule sending_safe [OF c1(2)]) (rule sok_senders(5) [OF E(2,3)], fact)
    then obtain c2 where c2: "sending (sendResetNoQueue cfg (kres e) i 0) c1 = Some c2" "cok cfg n (know e) c2"
      by (auto simp: safe_def)
    have "streamForFrame e i c = Some ((False, False), c2)"
      unfolding streamForFrame_def Let_def E(1) using full by (auto simp: c1(1) c2(1))
    then show ?thesis using c2(2) by blast
  next
    case new
    let ?s = "newStream i cfg (streamBufSize cfg) (know e)"
    let ?c1 = "setStream i ?s c"
    have "tableOk cfg c" using ty by (simp add: typed_def)
    note add = addStream_table [OF this new(5,2,3,6) newStream_ok]
    have t1: "typed cfg n ?c1" using add ty new(4) by (auto simp: typed_def idsOk_def)
    have acc: "typed cfg n (?c1\<lparr>acceptCh := acceptCh ?c1 @ [i]\<rparr>)" if "int (length (acceptCh ?c1)) < maxStreams cfg"
      using t1 that by (simp add: typed_defs table_def streamAt_def peerInitiated_def ownID_def firstID_def)
    let ?c2 = "if int (length (acceptCh ?c1)) < maxStreams cfg then ?c1\<lparr>acceptCh := acceptCh ?c1 @ [i]\<rparr> else ?c1"
    have sp: "sendPath ?c2 = sendPath c" "streams ?c2 = streams ?c1" by (simp_all add: setStream_def)
    have "typed cfg n ?c2" using t1 acc by simp
    then have "cok cfg n (know e) ?c2" using so by (simp only: cok_def sp simp_thms)
    moreover have "streamAt ?c2 i \<noteq> None" using sp(2) streamAt_setStream [of i ?s c i] new(5) by (simp add: streamAt_def)
    moreover have "streamForFrame e i c = Some ((True, False), ?c2)"
      unfolding streamForFrame_def Let_def E(1) using new by simp
    ultimately show ?thesis by blast
  qed
qed

end
