(* ===== verification/ConnSafe.thy ===== *)
theory ConnSafe
  imports ConnInv
begin

text \<open>
  Progress and preservation for the frame handlers, the acknowledgement flush and the periodic work of a
  connection.
\<close>

section \<open>Fields outside the type\<close>

lemma typed_same:
  assumes "streams c' = streams c" "acceptCh c' = acceptCh c" "sAckDirty c' = sAckDirty c" "sReadIdsToAck c' = sReadIdsToAck c"
    "deadStreams c' = deadStreams c" "connClosed c' = connClosed c" "nextStream c' = nextStream c" "isClient c' = isClient c"
  shows "typed cfg n c' = typed cfg n c"
proof -
  have "streamAt c' = streamAt c" "table c' = table c" "ownID c' = ownID c" "\<And>i. peerInitiated i c' = peerInitiated i c"
    using assms by (simp_all add: fun_eq_iff streamAt_def table_def ownID_def firstID_def peerInitiated_def)
  then show ?thesis using assms by (simp add: typed_defs)
qed

lemma typed_upd [simp]:
  "typed cfg n (c\<lparr>rtt := r\<rparr>) = typed cfg n c" "typed cfg n (c\<lparr>resends := w\<rparr>) = typed cfg n c"
  "typed cfg n (c\<lparr>sendPingMs := z\<rparr>) = typed cfg n c" "typed cfg n (c\<lparr>rttMs := z\<rparr>) = typed cfg n c"
  "typed cfg n (c\<lparr>missedPongs := z\<rparr>) = typed cfg n c" "typed cfg n (c\<lparr>established := b\<rparr>) = typed cfg n c"
  "typed cfg n (c\<lparr>closing := b\<rparr>) = typed cfg n c" "typed cfg n (c\<lparr>streamFreed := b\<rparr>) = typed cfg n c"
  "typed cfg n (c\<lparr>sendPath := st\<rparr>) = typed cfg n c" "typed cfg n (c\<lparr>statFecRecovered := k\<rparr>) = typed cfg n c"
  by (rule typed_same; simp)+

lemma streamAt_upd [simp]:
  "streamAt (c\<lparr>rtt := r\<rparr>) i = streamAt c i" "streamAt (c\<lparr>sendPath := st\<rparr>) i = streamAt c i" "streamAt (c\<lparr>resends := w\<rparr>) i = streamAt c i"
  "streamAt (c\<lparr>sReadIdsToAck := m\<rparr>) i = streamAt c i" "streamAt (c\<lparr>sAckDirty := d\<rparr>) i = streamAt c i" "streamAt (c\<lparr>missedPongs := z\<rparr>) i = streamAt c i"
  "streamAt (c\<lparr>statFecRecovered := k\<rparr>) i = streamAt c i"
  by (simp_all add: streamAt_def)

lemma ack_fields [simp]:
  "table (c\<lparr>sReadIdsToAck := m\<rparr>) = table c" "table (c\<lparr>sAckDirty := d\<rparr>) = table c" "ownID (c\<lparr>sReadIdsToAck := m\<rparr>) k = ownID c k"
  "ownID (c\<lparr>sAckDirty := d\<rparr>) k = ownID c k" "peerInitiated i (c\<lparr>sReadIdsToAck := m\<rparr>) = peerInitiated i c"
  "peerInitiated i (c\<lparr>sAckDirty := d\<rparr>) = peerInitiated i c"
  by (simp_all add: table_def ownID_def firstID_def peerInitiated_def)

lemma queueAck_safe: "cok cfg n t c \<Longrightarrow> cok cfg n t (queueAck i sq c)"
  by (simp add: cok_def queueAck_def typed_defs)

lemma explicit_safe: "cok cfg n t c \<Longrightarrow> cok cfg n t (c\<lparr>sReadIdsToAck := mput i l (sReadIdsToAck c)\<rparr>)"
  by (simp add: cok_def typed_defs)

lemma markAckDirty_safe: "cok cfg n t c \<Longrightarrow> streamAt c i \<noteq> None \<Longrightarrow> cok cfg n t (markAckDirty i c)"
  by (auto simp: cok_def markAckDirty_def typed_defs mget_mput)

lemma clearDirty_safe: "cok cfg n t c \<Longrightarrow> cok cfg n t (c\<lparr>sAckDirty := mdel i (sAckDirty c)\<rparr>)"
  by (auto simp: cok_def typed_defs mget_mdel)

section \<open>Frame handlers\<close>

lemma store_live: "storeStream e i s c = Some c' \<Longrightarrow> streamAt c i \<noteq> None \<Longrightarrow> streamAt c' j \<noteq> None \<longleftrightarrow> streamAt c j \<noteq> None"
proof -
  assume a: "storeStream e i s c = Some c'" "streamAt c i \<noteq> None"
  then have "streams c \<noteq> None" by (auto simp: streamAt_def split: option.splits)
  then show "streamAt c' j \<noteq> None \<longleftrightarrow> streamAt c j \<noteq> None"
    using quietD(2) [OF storeStream_streams [OF a(1)], of j] a(2) by (simp add: streamAt_setStream)
qed

lemma deliverTo_safe:
  assumes e: "envOk cfg e" and c: "cok cfg n (know e) c"
  shows "safe cfg n (know e) (deliverTo e i sq pl f c)"
proof -
  from streamForFrame_safe [OF e c, of i] obtain found ack c1 where
    r: "streamForFrame e i c = Some ((found, ack), c1)" "cok cfg n (know e) c1" "found \<longrightarrow> streamAt c1 i \<noteq> None" by auto
  show ?thesis
  proof (cases found)
    case False
    then show ?thesis using r queueAck_safe by (simp add: deliverTo_def)
  next
    case True
    then obtain s where s: "streamAt c1 i = Some s" using r(3) by auto
    let ?s = "s\<lparr>rd := snd (deliverLocked (recvEnvOf e c1) (rd s) sq pl f)\<rparr>"
    have "safe cfg n (know e) (storeStream e i ?s c1)" by (rule storeRead_safe [OF e r(2) s own.deliver])
    then obtain c2 where c2: "storeStream e i ?s c1 = Some c2" "cok cfg n (know e) c2" by (auto simp: safe_def)
    have "streamAt c2 i \<noteq> None" using store_live [OF c2(1)] s by simp
    then show ?thesis using r(1) True s c2 markAckDirty_safe by (simp add: deliverTo_def)
  qed
qed

lemma handleFec_safe:
  assumes e: "envOk cfg e" and c: "cok cfg n (know e) c"
  shows "safe cfg n (know e) (handleFec e f row c)"
proof -
  let ?i = "streamID f" and ?m = "Uint32 (take fecMetaLen (payload f))"
  show ?thesis
  proof (cases "fecGroup (kcfg e) = 0 \<or> length (payload f) < fecMetaLen \<or> unat (drop_bit 16 ?m) = 0 \<or>
      fecGroup (kcfg e) < int (unat (drop_bit 16 ?m)) \<or> streamAt c ?i = None")
    case True
    then show ?thesis using c by (auto simp: handleFec_def Let_def)
  next
    case False
    then obtain s where s: "streamAt c ?i = Some s" by auto
    obtain rec r where a: "applyFec (recvEnvOf e c) row (seq f) (unat (drop_bit 16 ?m)) (unat (?m AND 0xffff)) (drop fecMetaLen (payload f)) (rd s)
        = (rec, r)" by fastforce
    then have "owns (rd s) r" using own.applyFec by (metis snd_conv)
    from storeRead_safe [OF e c s this] obtain c1 where
      c1: "storeStream e ?i (s\<lparr>rd := r\<rparr>) c = Some c1" "cok cfg n (know e) c1" by (auto simp: safe_def)
    have "streamAt c1 ?i \<noteq> None" using store_live [OF c1(1)] s by simp
    then have "cok cfg n (know e) (markAckDirty ?i (c1\<lparr>statFecRecovered := statFecRecovered c1 + 1\<rparr>))"
      using c1(2) by (intro markAckDirty_safe) (simp_all add: cok_def)
    moreover have "handleFec e f row c = Some (if rec then markAckDirty ?i (c1\<lparr>statFecRecovered := statFecRecovered c1 + 1\<rparr>) else c1)"
      using False s a c1(1) by (simp add: handleFec_def Let_def)
    ultimately show ?thesis using c1(2) by simp
  qed
qed

lemma handleStreamReset_safe:
  assumes e: "envOk cfg e" and c: "cok cfg n (know e) c"
  shows "safe cfg n (know e) (handleStreamReset e f c)"
  using queueAck_safe [OF c, of "streamID f" "seq f"] storeRead_safe [OF e queueAck_safe [OF c], of "streamID f" "seq f" "streamID f"]
  by (auto simp: handleStreamReset_def Let_def split: option.split)

lemma handleStopSending_safe:
  assumes e: "envOk cfg e" and c: "cok cfg n (know e) c"
  shows "safe cfg n (know e) (handleStopSending e f c)"
  using c storeAbort_safe [OF e c] by (auto simp: handleStopSending_def onStopSending_def split: option.split)

text \<open>A write-side operation that only wakes writers.\<close>

lemma storeWrite_safe:
  assumes e: "envOk cfg e" and c: "cok cfg n (know e) c" and s: "streamAt c i = Some s"
    and w: "wid w = wid (wr s)" "wcalls w = wcalls (wr s) \<or> wcalls w = wcalls (wr s) @ [CallWriteBroadcast]"
  shows "safe cfg n (know e) (storeStream e i (s\<lparr>wr := w\<rparr>) c)"
proof (rule storeStream_safe [OF e c])
  have o: "streamOk i s" using c s by (simp add: cok_def typed_defs)
  then show "callsOk e (rcalls (rd (s\<lparr>wr := w\<rparr>)) @ wcalls (wr (s\<lparr>wr := w\<rparr>))) c'" for c'
    using w(2) by (intro callsOk_plain) (auto simp: streamOk_def callOk_def)
  show "sid (s\<lparr>wr := w\<rparr>) = i" "rid (rd (s\<lparr>wr := w\<rparr>)) = i" "wid (wr (s\<lparr>wr := w\<rparr>)) = i"
    using o w(1) by (simp_all add: streamOk_def)
qed (use s in simp)

lemma wakers:
  "wid (setMaxSendOffset off w) = wid w"
  "wcalls (setMaxSendOffset off w) = wcalls w \<or> wcalls (setMaxSendOffset off w) = wcalls w @ [CallWriteBroadcast]"
  "wid (creditAcked k w) = wid w"
  "wcalls (creditAcked k w) = wcalls w \<or> wcalls (creditAcked k w) = wcalls w @ [CallWriteBroadcast]"
  by (simp_all add: setMaxSendOffset_def creditAcked_def wcall_def)

lemma handleWindowUpdate_safe:
  assumes e: "envOk cfg e" and c: "cok cfg n (know e) c"
  shows "safe cfg n (know e) (handleWindowUpdate e f c)"
  using c by (auto simp: handleWindowUpdate_def split: sum.split option.split intro!: storeWrite_safe [OF e c] wakers)

lemma handleHandshake_safe:
  assumes e: "envOk cfg e" and c: "cok cfg n (know e) c"
  shows "safe cfg n (know e) (handleHandshake e f c)"
  using c sending_safe [OF c] sok_senders(1) e by (auto simp: handleHandshake_def envOk_def cok_def)

lemma handleACK_safe:
  assumes e: "envOk cfg e" and c: "cok cfg n (know e) c"
  shows "safe cfg n (know e) (handleACK e f c)"
proof (cases "decodeSeqListFrame f []")
  case (Inr x)
  obtain cum seqs where x: "x = (cum, seqs)" by fastforce
  let ?q = "retransmit (sendPath c)" and ?i = "streamID f"
  obtain fc sc q1 where a1: "ackCumulative (know e) ?i cum ?q = (fc, sc, q1)" by (metis prod_cases3)
  obtain fl sl q2 where a2: "ackMany (know e) ?i seqs q1 = (fl, sl, q2)" by (metis prod_cases3)
  have s: "sok cfg (know e) (sendPath c)" using c by (simp add: cok_def)
  have "sok cfg (know e) ((sendPath c)\<lparr>retransmit := q1\<rparr>)"
    using bookkeeping_sok [OF s, of "EvAckCumulative (know e) ?i cum"] a1 by (simp add: qstep_def)
  from bookkeeping_sok [OF this, of "EvAckMany (know e) ?i seqs"] a2
  have s2: "sok cfg (know e) ((sendPath c)\<lparr>retransmit := q2\<rparr>)" by (simp add: qstep_def)
  define c1 where "c1 = c\<lparr>sendPath := (sendPath c)\<lparr>retransmit := q2\<rparr>\<rparr>"
  define sm where "sm = (if sc = 0 \<or> 0 < sl \<and> sl < sc then sl else sc)"
  define c2 where "c2 = (if 0 < sm then c1\<lparr>rtt := updateRTO (kcfg e) sm (rtt c1)\<rparr> else c1)"
  have ok: "cok cfg n (know e) c2" using s2 c by (simp add: c2_def c1_def cok_def)
  have "handleACK e f c = (if fc + fl = 0 then Some c2 else case streamAt c2 ?i of None \<Rightarrow> Some c2
      | Some s \<Rightarrow> storeStream e ?i (s\<lparr>wr := creditAcked (fc + fl) (wr s)\<rparr>) c2)"
    unfolding handleACK_def Inr x sum.case prod.case Let_def a1 a2 c1_def sm_def c2_def ..
  then show ?thesis using ok by (auto split: option.split intro!: storeWrite_safe [OF e ok] wakers)
qed (use c in \<open>simp add: handleACK_def\<close>)

lemma nackRequests_sok:
  "sok cfg t (st\<lparr>retransmit := q\<rparr>) \<Longrightarrow> sok cfg t (st\<lparr>retransmit := snd (nackRequests t i minAge seqs q)\<rparr>)"
proof (induction seqs arbitrary: q)
  case (Cons sq seqs)
  obtain r q1 where r: "requestForResend t i sq minAge q = (r, q1)" by fastforce
  have "sok cfg t (st\<lparr>retransmit := q1\<rparr>)"
    using bookkeeping_sok [OF Cons.prems, of "EvRequest t i sq minAge"] r by (simp add: qstep_def)
  from Cons.IH [OF this] show ?case using r by (auto split: option.split prod.split)
qed simp

lemma handleNack_safe:
  assumes e: "envOk cfg e" and c: "cok cfg n (know e) c"
  shows "safe cfg n (know e) (handleNack e f c)"
proof (cases "decodeSeqListFrame f []")
  case (Inr x)
  obtain cum seqs where x: "x = (cum, seqs)" by fastforce
  obtain reqs q where r: "nackRequests (know e) (streamID f) (int64 (srtt (rtt c) * 3) sdiv 4) seqs (retransmit (sendPath c)) = (reqs, q)" by fastforce
  have "sok cfg (know e) ((sendPath c)\<lparr>retransmit := q\<rparr>)"
    using nackRequests_sok [where cfg = cfg and t = "know e" and st = "sendPath c" and q = "retransmit (sendPath c)" and i = "streamID f" and minAge = "int64 (srtt (rtt c) * 3) sdiv 4" and seqs = seqs] c r
    by (simp add: cok_def)
  then show ?thesis using c Inr x r by (simp add: handleNack_def cok_def Let_def)
qed (use c in \<open>simp add: handleNack_def\<close>)

lemma dispatch_safe:
  assumes e: "envOk cfg e" and c0: "cok cfg n (know e) c0"
  shows "safe cfg n (know e) (dispatchFrameLocked e f c0)"
proof -
  let ?c = "c0\<lparr>missedPongs := 0\<rparr>"
  have c: "cok cfg n (know e) ?c" using c0 by (simp add: cok_def)
  have "safe cfg n (know e) (sending (sendControlFrame (kcfg e) (kres e) ft i sq) ?c)" for ft i sq
    using sending_safe [OF c] sok_senders(1) e c by (auto simp: envOk_def cok_def)
  moreover have "cok cfg n (know e) (handlePong e ?c)" "cok cfg n (know e) (?c\<lparr>closing := True\<rparr>)"
    using c by (simp_all add: handlePong_def cok_def Let_def)
  moreover note deliverTo_safe [OF e c] handleFec_safe [OF e c] handleStreamReset_safe [OF e c] handleStopSending_safe [OF e c]
    handleWindowUpdate_safe [OF e c] handleHandshake_safe [OF e c] handleACK_safe [OF e c] handleNack_safe [OF e c] c
  ultimately show ?thesis unfolding dispatchFrameLocked_def Let_def handleData_def handleStreamFIN_def by (simp only: safe_Some split: if_split) blast
qed

section \<open>Datagrams\<close>

lemma datagramLoop_safe:
  assumes e: "envOk cfg e" and c: "cok cfg n (know e) c"
  shows "safe cfg n (know e) (datagramLoop e buf c)"
  using c
proof (induction "length buf" arbitrary: buf c rule: less_induct)
  case less
  show ?case
  proof (cases "length buf < frameHeaderSize")
    case True
    then show ?thesis using less.prems by (simp add: datagramLoop.simps [of e buf])
  next
    case False
    show ?thesis
    proof (cases "decodeFrame buf")
      case (Inl er)
      then show ?thesis using False less.prems by (simp add: datagramLoop.simps [of e buf])
    next
      case (Inr f)
      let ?rest = "drop (frameHeaderSize + unat (flength f)) buf"
      have "length ?rest < length buf" using False by (simp add: frameHeaderSize_def)
      then show ?thesis using False Inr dispatch_safe [OF e less.prems] less.hyps [of ?rest]
        by (subst datagramLoop.simps) (auto intro: safe_bind)
    qed
  qed
qed

lemma handleDatagramLocked_safe: "envOk cfg e \<Longrightarrow> cok cfg n (know e) c \<Longrightarrow> safe cfg n (know e) (handleDatagramLocked e buf c)"
  using datagramLoop_safe by (simp add: handleDatagramLocked_def)

section \<open>Acknowledgements\<close>

lemma sending_ok:
  assumes e: "envOk cfg e" and c: "cok cfg n (know e) c" and f: "\<And>st. sok cfg (know e) st \<Longrightarrow> sends cfg (know e) st (f st)"
  shows "safe cfg n (know e) (sending f c)"
  by (rule sending_safe [OF c]) (use f c in \<open>simp add: cok_def\<close>)

lemma maxAcks_fit:
  assumes "envOk cfg e"
  shows "frameHeaderSize + 8 + 4 * nat (maxAckSeqsPerFrame (maxPayload cfg)) \<le> dgram cfg"
  using assms maxAckSeqsPerFrame_fits [of "maxPayload cfg"]
  by (auto simp: envOk_def sendConfig_def dgram_def maxDatagram_def maxAckSeqsPerFrame_pos_iff [symmetric])

lemma ackFrames_safe:
  assumes e: "envOk cfg e" and m: "frameHeaderSize + 8 + 4 * m \<le> dgram cfg"
  shows "cok cfg n (know e) c \<Longrightarrow> safe cfg n (know e) (ackFrames e m i cum rest c)"
proof (induction "length rest" arbitrary: rest c rule: less_induct)
  case less
  have E: "kcfg e = cfg" "sendConfig cfg" "ringOK (kres e)" using e by (simp_all add: envOk_def)
  have "safe cfg n (know e) (sending (queueACKFrame cfg (kres e) i cum (take m rest)) c)"
    by (rule sending_ok [OF e less.prems], rule sok_senders(7) [OF E(2,3)]) (use m in \<open>auto simp: min_def\<close>)
  then show ?case using less.hyps [of "drop m rest"] E(1)
    by (subst ackFrames.simps) (auto intro!: safe_bind)
qed

text \<open>Loops over stream IDs return a flag with the connection.\<close>

definition safeB :: "config \<Rightarrow> nat \<Rightarrow> time \<Rightarrow> (bool \<times> Connection) option \<Rightarrow> bool" where
  "safeB cfg n t r \<longleftrightarrow> (\<exists>b c'. r = Some (b, c') \<and> cok cfg n t c')"

lemma ackDirty_safe:
  assumes e: "envOk cfg e" and m: "frameHeaderSize + 8 + 4 * m \<le> dgram cfg"
  shows "cok cfg n (know e) c \<Longrightarrow> safeB cfg n (know e) (ackDirty e m is qd c)"
proof (induction "is" arbitrary: qd c)
  case (Cons i "is")
  have E: "kcfg e = cfg" "sendConfig cfg" "ringOK (kres e)" using e by (simp_all add: envOk_def)
  show ?case
  proof (cases "streamAt c i")
    case None
    then show ?thesis using Cons.IH [OF clearDirty_safe [OF Cons.prems]] by simp
  next
    case (Some s)
    obtain x r where x: "ackSnapshot (rd s) = (x, r)" by fastforce
    obtain cum seqs granted where "x = (cum, seqs, granted)" by (metis prod_cases3)
    with x have a: "ackSnapshot (rd s) = ((cum, seqs, granted), r)" by simp
    have "owns (rd s) r" using own.others(1) [of "rd s"] a by simp
    moreover have "streamOk i s" using Cons.prems Some by (simp add: cok_def typed_defs)
    moreover have "rcalls r = rcalls (rd s)" using a by (auto simp: ackSnapshot_def Let_def)
    ultimately have "streamOk i (s\<lparr>rd := r\<rparr>)" by (auto simp: streamOk_def owns_def)
    then have "cok cfg n (know e) (setStream i (s\<lparr>rd := r\<rparr>) c)" using Cons.prems Some setStream_typed [of cfg n c i] by (simp add: cok_def)
    from ackFrames_safe [OF e m this, of i cum seqs] obtain c1 where
      c1: "ackFrames e m i cum seqs (setStream i (s\<lparr>rd := r\<rparr>) c) = Some c1" "cok cfg n (know e) c1" by (auto simp: safe_def)
    have "safe cfg n (know e) (sending (queueWindowUpdate cfg (kres e) i (u64_of_int64 granted)) c1)"
      by (rule sending_ok [OF e c1(2)], rule sok_senders(3) [OF E(2,3)])
    then obtain c2 where c2: "sending (queueWindowUpdate cfg (kres e) i (u64_of_int64 granted)) c1 = Some c2" "cok cfg n (know e) c2"
      by (auto simp: safe_def)
    show ?thesis using Cons.IH [OF clearDirty_safe [OF c2(2)]] Some a c1(1) c2(1) E(1) by simp
  qed
qed (simp add: safeB_def)

lemma ackExplicit_safe:
  assumes e: "envOk cfg e" and m: "frameHeaderSize + 8 + 4 * m \<le> dgram cfg"
  shows "cok cfg n (know e) c \<Longrightarrow> safeB cfg n (know e) (ackExplicit e m is qd c)"
proof (induction "is" arbitrary: qd c)
  case (Cons i "is")
  let ?seqs = "case mget (sReadIdsToAck c) i of None \<Rightarrow> [] | Some l \<Rightarrow> l"
  from ackFrames_safe [OF e m Cons.prems, of i 0 ?seqs] obtain c1 where
    c1: "ackFrames e m i 0 ?seqs c = Some c1" "cok cfg n (know e) c1" by (auto simp: safe_def)
  show ?case using Cons.IH [OF Cons.prems] Cons.IH [OF explicit_safe [OF c1(2)]] c1(1)
    by (cases "?seqs = []") (simp_all only: ackExplicit.simps Let_def if_True if_False bind.bind_lunit refl)
qed (simp add: safeB_def)

lemma flushPendingAcksLocked_safe:
  assumes e: "envOk cfg e" and c: "cok cfg n (know e) c"
  shows "safe cfg n (know e) (flushPendingAcksLocked e c)"
proof (cases "maxAckSeqsPerFrame (maxPayload cfg) \<le> 0")
  case False
  let ?m = "nat (maxAckSeqsPerFrame (maxPayload cfg))"
  have E: "kcfg e = cfg" "sendConfig cfg" "ringOK (kres e)" using e by (simp_all add: envOk_def)
  note m = maxAcks_fit [OF e]
  from ackDirty_safe [OF e m c, of "korder e (mkeys (sAckDirty c))" False] obtain b c1 where
    c1: "ackDirty e ?m (korder e (mkeys (sAckDirty c))) False c = Some (b, c1)" "cok cfg n (know e) c1" by (auto simp: safeB_def)
  from ackExplicit_safe [OF e m c1(2), of "korder e (mkeys (sReadIdsToAck c1))" b] obtain b2 c2 where
    c2: "ackExplicit e ?m (korder e (mkeys (sReadIdsToAck c1))) b c1 = Some (b2, c2)" "cok cfg n (know e) c2" by (auto simp: safeB_def)
  have "safe cfg n (know e) (sending (\<lambda>st. Some (flushSend cfg (kres e) st)) c2)"
    by (rule sending_ok [OF e c2(2)], rule sok_senders(6) [OF E(2,3)])
  then show ?thesis using False c1(1) c2 E(1) by (simp add: flushPendingAcksLocked_def Let_def)
qed (use e c in \<open>simp add: flushPendingAcksLocked_def envOk_def\<close>)

lemma handleDatagramAndFlush_safe:
  "envOk cfg e \<Longrightarrow> cok cfg n (know e) c \<Longrightarrow> safe cfg n (know e) (handleDatagramAndFlush e buf c)"
  using handleDatagramLocked_safe flushPendingAcksLocked_safe by (auto simp: handleDatagramAndFlush_def intro: safe_bind)

lemma readMessages_safe: "envOk cfg e \<Longrightarrow> cok cfg n (know e) c \<Longrightarrow> safe cfg n (know e) (readMessages e bufs c)"
  using handleDatagramLocked_safe by (induction bufs arbitrary: c) (auto intro: safe_bind)

lemma readBatch_safe: "envOk cfg e \<Longrightarrow> cok cfg n (know e) c \<Longrightarrow> safe cfg n (know e) (readBatch e bufs c)"
  using readMessages_safe flushPendingAcksLocked_safe by (auto simp: readBatch_def intro: safe_bind)

section \<open>Periodic work\<close>

lemma removeStream_typed:
  assumes "typed cfg n c" "streamAt c i \<noteq> None"
  shows "typed cfg n (removeStream e i c)"
proof -
  obtain m s where m: "streams c = Some m" "mget m i = Some s" using assms(2) by (auto simp: streamAt_def split: option.splits)
  have t: "table c = m" using m(1) by (simp add: table_def)
  let ?c = "removeStream e i c"
  have at: "streamAt ?c j = (if j = i then None else streamAt c j)" for j
    using m by (simp add: removeStream_def Let_def streamAt_def mget_mdel)
  have dd: "mget (deadStreams ?c) j = (if j = i then Some (know e) else mget (deadStreams c) j)" for j
    by (simp add: removeStream_def Let_def mget_mput)
  have di: "mget (sAckDirty ?c) j = (if j = i then None else mget (sAckDirty c) j)" for j
    by (simp add: removeStream_def Let_def mget_mdel)
  have "mok m" using assms(1) t by (simp add: typed_defs)
  then have "length (table ?c) \<le> length (table c)" "mok (table ?c)" using m length_mdel_Some [of m i s] t
    by (simp_all add: removeStream_def Let_def table_def)
  moreover have "acceptCh ?c = acceptCh c" "nextStream ?c = nextStream c" "(streams ?c = None) = False" "ownID ?c k = ownID c k"
    "peerInitiated j ?c = peerInitiated j c" "mok (sAckDirty ?c)" "mok (sReadIdsToAck ?c)" "mok (deadStreams ?c)" for k j
    using m assms(1) by (simp_all add: removeStream_def Let_def ownID_def firstID_def peerInitiated_def typed_defs)
  ultimately show ?thesis using assms m(1) unfolding typed_defs at dd di by auto
qed

lemma removeStream_safe:
  assumes "cok cfg n (know e) c" "streamAt c i \<noteq> None"
  shows "cok cfg n (know e) (removeStream e i c)"
proof -
  have "sendPath (removeStream e i c) = (sendPath c)\<lparr>retransmit := purgeStream i (retransmit (sendPath c))\<rparr>"
    by (simp add: removeStream_def Let_def)
  then show ?thesis using assms removeStream_typed bookkeeping_sok [of cfg "know e" "sendPath c" "EvPurge i"]
    by (simp add: cok_def qstep_def)
qed

lemma removeStream_others: "j \<noteq> i \<Longrightarrow> streamAt (removeStream e i c) j = streamAt c j"
  by (simp add: removeStream_def Let_def streamAt_def mget_mdel split: option.split)

lemma removeStreams_safe:
  "distinct is \<Longrightarrow> \<forall>i \<in> set is. streamAt c i \<noteq> None \<Longrightarrow> cok cfg n (know e) c \<Longrightarrow> cok cfg n (know e) (fold (removeStream e) is c)"
proof (induction "is" arbitrary: c)
  case (Cons i "is")
  have "\<forall>j \<in> set is. streamAt (removeStream e i c) j \<noteq> None"
    using Cons.prems removeStream_others by (metis distinct.simps(2) list.set_intros(2))
  then show ?case using Cons removeStream_safe by simp
qed simp

lemma gcStreams_safe:
  assumes e: "envOk cfg e" and c: "cok cfg n (know e) c"
  shows "cok cfg n (know e) (gcStreams e c)"
proof -
  let ?is = "filter (reapable c) (korder e (mkeys (table c)))"
  have ty: "typed cfg n c" using c by (simp add: cok_def)
  have "mset (korder e (mkeys (table c))) = mset (mkeys (table c))" using e by (simp add: envOk_def)
  then have "distinct (korder e (mkeys (table c)))" using ty mset_eq_imp_distinct_iff by (auto simp: typed_defs mok_def)
  then have "cok cfg n (know e) (fold (removeStream e) ?is c)"
    by (intro removeStreams_safe c) (auto simp: reapable_def split: option.splits)
  moreover have "typed cfg n (d\<lparr>deadStreams := filter P (deadStreams d)\<rparr>)" if t: "typed cfg n d" for d P
  proof -
    let ?d = "d\<lparr>deadStreams := filter P (deadStreams d)\<rparr>"
    have m: "mok (deadStreams d)" using t by (simp add: typed_defs)
    then have k: "mget (deadStreams d) i \<noteq> None" if "mget (filter P (deadStreams d)) i \<noteq> None" for i
      using that by (auto simp: mget_filter split: option.splits)
    have same: "streamAt ?d i = streamAt d i" "table ?d = table d" "ownID ?d k = ownID d k" "peerInitiated i ?d = peerInitiated i d" for i k
      by (simp_all add: streamAt_def table_def ownID_def firstID_def peerInitiated_def)
    have "mget (filter P (deadStreams d)) i = None" if "streamAt d i \<noteq> None" for i
    proof (rule ccontr)
      assume "mget (filter P (deadStreams d)) i \<noteq> None"
      then have "mget (deadStreams d) i \<noteq> None" by (rule k)
      moreover have "mget (deadStreams d) i = None" using that t by (simp add: typed_defs)
      ultimately show False by simp
    qed
    then have "tableOk cfg ?d" using t mok_filter [OF m] by (simp add: typed_def tableOk_def same)
    moreover have "idsOk n ?d" unfolding idsOk_def same
    proof (intro conjI allI impI)
      show "nextStream ?d = ownID d n" using t by (simp add: typed_defs)
      fix i assume i: "\<not> peerInitiated i d" "streamAt d i \<noteq> None \<or> mget (deadStreams ?d) i \<noteq> None"
      then have "streamAt d i \<noteq> None \<or> mget (deadStreams d) i \<noteq> None" using k by fastforce
      then show "\<exists>k < n. i = ownID d k" using i(1) t unfolding typed_def idsOk_def by blast
    qed
    ultimately show ?thesis by (simp add: typed_def)
  qed
  ultimately show ?thesis by (simp add: gcStreams_def Let_def cok_def)
qed

lemma tailNacks_safe:
  assumes e: "envOk cfg e"
  shows "cok cfg n (know e) c \<Longrightarrow> safe cfg n (know e) (tailNacks e is c)"
proof (induction "is" arbitrary: c)
  case (Cons i "is")
  show ?case
  proof (cases "streamAt c i")
    case (Some s)
    have "owns (rd s) (maybeTailNack (recvEnvOf e c) (rd s))" by (rule own.tail) simp
    from storeRead_safe [OF e Cons.prems Some this] show ?thesis using Cons.IH Some by (auto intro: safe_bind)
  qed (use Cons in simp)
qed simp

lemma retransmitTick_safe:
  assumes e: "envOk cfg e" and c: "cok cfg n (know e) c"
  shows "safe cfg n (know e) (retransmitTick e c)"
proof -
  have s: "sok cfg (know e) (sendPath c)" using c by (simp add: cok_def)
  from due_spec [OF sok_qok [OF s], of "know e" "currentRTO (rtt c)"] obtain reqs q where
    d: "due (know e) (currentRTO (rtt c)) (retransmit (sendPath c)) = Some (reqs, q)" by blast
  let ?c1 = "c\<lparr>resends := enqueueResends reqs (resends c), sendPath := (sendPath c)\<lparr>retransmit := q\<rparr>\<rparr>"
  have "sok cfg (know e) ((sendPath c)\<lparr>retransmit := q\<rparr>)"
    using bookkeeping_sok [OF s, of "EvDue (know e) (currentRTO (rtt c))"] d by (simp add: qstep_def)
  then have "cok cfg n (know e) ?c1" using c by (simp add: cok_def)
  from tailNacks_safe [OF e this] obtain c2 where
    c2: "tailNackScan e ?c1 = Some c2" "cok cfg n (know e) c2" by (auto simp: tailNackScan_def safe_def)
  show ?thesis using d c2 gcStreams_safe [OF e c2(2)] by (simp add: retransmitTick_def Let_def)
qed

lemma keepAliveTick_safe:
  assumes e: "envOk cfg e" and c: "cok cfg n (know e) c"
  shows "safeB cfg n (know e) (keepAliveTick e c)"
proof -
  let ?c = "c\<lparr>missedPongs := missedPongs c + 1\<rparr>"
  have "sends cfg (know e) (sendPath ?c) (sendControlFrame cfg (kres e) framePing 0 0 (sendPath ?c))"
    using e c by (intro sok_senders(1)) (simp_all add: envOk_def cok_def)
  then obtain er st where "sendControlFrame cfg (kres e) framePing 0 0 (sendPath ?c) = Some (er, st)" "sok cfg (know e) st"
    by (auto simp: sends_def)
  then show ?thesis using e c by (auto simp: keepAliveTick_def SendPing_def Let_def safeB_def envOk_def cok_def)
qed

end
