(* ===== verification/ConnRun.thy ===== *)
theory ConnRun
  imports ConnSafe SendProps
begin

text \<open>
  A connection as a system: every sequence of datagrams, application calls and timer ticks, and the type of
  the states it reaches.
\<close>

section \<open>Operations\<close>

datatype connOp =
    OpOpen
  | OpOpenSync bool "selectArm list \<Rightarrow> selectArm"
  | OpAccept bool "selectArm list \<Rightarrow> selectArm"
  | OpBatch "bytes list"
  | OpForward bytes
  | OpService "nat \<Rightarrow> time"
  | OpTick
  | OpKeepAlive
  | OpRead u32 nat
  | OpCancelRead u32 u64
  | OpWrite u32 bytes nat sendEnv
  | OpCloseWrite u32 sendEnv
  | OpCancelWrite u32 u64
  | OpClose

text \<open>A call of the application on a stream it holds.\<close>

definition onStream :: "connEnv \<Rightarrow> u32 \<Rightarrow> (Stream \<Rightarrow> Stream option) \<Rightarrow> Connection \<Rightarrow> Connection option" where
  "onStream e i f c =
     (case streamAt c i of
        None \<Rightarrow> Some c
      | Some s \<Rightarrow> Option.bind (f s) (\<lambda>s'. storeStream e i s' c))"

definition writeOp :: "sendEnv \<Rightarrow> bytes \<Rightarrow> nat \<Rightarrow> Stream \<Rightarrow> Stream option" where
  "writeOp se p n s = map_option (\<lambda>(_, w). s\<lparr>wr := w\<rparr>) (Write se p n (wr s))"

definition closeOp :: "sendEnv \<Rightarrow> Stream \<Rightarrow> Stream option" where
  "closeOp se s = Some (s\<lparr>wr := snd (CloseWrite se (wr s))\<rparr>)"

definition cstep :: "connEnv \<Rightarrow> connOp \<Rightarrow> Connection \<Rightarrow> Connection option" where
  "cstep e op c =
     (case op of
        OpOpen \<Rightarrow> Some (snd (OpenStream e c))
      | OpOpenSync d pick \<Rightarrow> Some (snd (OpenStreamSync e d pick c))
      | OpAccept d pick \<Rightarrow> Some (snd (AcceptStream d pick c))
      | OpBatch bufs \<Rightarrow> readBatch e bufs c
      | OpForward buf \<Rightarrow> handleDatagramAndFlush e buf c
      | OpService clk \<Rightarrow> map_option snd (serviceConn e clk c)
      | OpTick \<Rightarrow> retransmitTick e c
      | OpKeepAlive \<Rightarrow> map_option snd (keepAliveTick e c)
      | OpRead i n \<Rightarrow> onStream e i (\<lambda>s. Some (s\<lparr>rd := snd (Read (recvEnvOf e c) n (rd s))\<rparr>)) c
      | OpCancelRead i code \<Rightarrow> onStream e i (\<lambda>s. Some (s\<lparr>rd := CancelRead code (rd s)\<rparr>)) c
      | OpWrite i p n se \<Rightarrow> onStream e i (writeOp se p n) c
      | OpCloseWrite i se \<Rightarrow> onStream e i (closeOp se) c
      | OpCancelWrite i code \<Rightarrow> onStream e i (\<lambda>s. Some (s\<lparr>wr := CancelWrite code (wr s)\<rparr>)) c
      | OpClose \<Rightarrow> map_option snd (Close e c))"

text \<open>What the program guarantees of a step at time \<open>t\<close>: the clock does not run backwards; the workers have stopped when
  the connection is closed; and the frames a write records fit a datagram and are not outstanding yet (the chunk size and the
  sequence numbers see to that, theory \<open>SendProps\<close>).\<close>

definition writesOk :: "connEnv \<Rightarrow> u32 \<Rightarrow> (Stream \<Rightarrow> Stream option) \<Rightarrow> Connection \<Rightarrow> bool" where
  "writesOk e i f c =
     (case streamAt c i of
        None \<Rightarrow> True
      | Some s \<Rightarrow> (case f s of
          None \<Rightarrow> True
        | Some s' \<Rightarrow> callsOk e (rcalls (rd s') @ wcalls (wr s')) (setStream i (s'\<lparr>rd := (rd s')\<lparr>rcalls := []\<rparr>, wr := (wr s')\<lparr>wcalls := []\<rparr>\<rparr>) c)))"

definition cenabled :: "config \<Rightarrow> time \<Rightarrow> connEnv \<Rightarrow> connOp \<Rightarrow> Connection \<Rightarrow> bool" where
  "cenabled cfg t e op c \<longleftrightarrow> envOk cfg e \<and> t \<le> know e \<and>
     (case op of
        OpService clk \<Rightarrow> \<not> connClosed c \<and> mono clk \<and> (\<forall>n. t \<le> clk n \<and> clk n \<le> know e)
      | OpTick \<Rightarrow> \<not> connClosed c
      | OpKeepAlive \<Rightarrow> \<not> connClosed c
      | OpRead i n \<Rightarrow> \<not> connClosed c
      | OpCancelRead i code \<Rightarrow> \<not> connClosed c
      | OpWrite i p n se \<Rightarrow> \<not> connClosed c \<and> scfg se = cfg \<and> 0 < dataCap cfg \<and> writesOk e i (writeOp se p n) c
      | OpCloseWrite i se \<Rightarrow> \<not> connClosed c \<and> writesOk e i (closeOp se) c
      | OpCancelWrite i code \<Rightarrow> \<not> connClosed c
      | _ \<Rightarrow> True)"

fun crun :: "(connEnv \<times> connOp) list \<Rightarrow> Connection \<Rightarrow> Connection option" where
  "crun [] c = Some c"
| "crun ((e, op) # ops) c = Option.bind (cstep e op c) (crun ops)"

fun callowed :: "config \<Rightarrow> time \<Rightarrow> (connEnv \<times> connOp) list \<Rightarrow> Connection \<Rightarrow> bool" where
  "callowed cfg t [] c = True"
| "callowed cfg t ((e, op) # ops) c =
     (cenabled cfg t e op c \<and> (case cstep e op c of None \<Rightarrow> True | Some c' \<Rightarrow> callowed cfg (know e) ops c'))"

section \<open>Steps\<close>

text \<open>The send path is only used while the connection is open.\<close>

definition cinv :: "config \<Rightarrow> nat \<Rightarrow> time \<Rightarrow> Connection \<Rightarrow> bool" where
  "cinv cfg n t c \<longleftrightarrow> typed cfg n c \<and> (\<not> connClosed c \<longrightarrow> sok cfg t (sendPath c))"

lemma cok_cinv: "cok cfg n t c \<Longrightarrow> cinv cfg n t c"
  by (simp add: cok_def cinv_def)

lemma cinv_cok: "cinv cfg n t c \<Longrightarrow> \<not> connClosed c \<Longrightarrow> t \<le> t' \<Longrightarrow> cok cfg n t' c"
  by (auto simp: cok_def cinv_def intro: sok_mono)

lemma acceptCh_typed: "typed cfg n c \<Longrightarrow> typed cfg n (c\<lparr>acceptCh := tl (acceptCh c)\<rparr>)"
proof -
  assume c: "typed cfg n c"
  have "int (length (tl (acceptCh c))) \<le> int (length (acceptCh c))" by simp
  then show ?thesis using c
    by (simp add: typed_defs table_def streamAt_def ownID_def firstID_def peerInitiated_def, linarith)
qed

lemma accept_cinv: "cinv cfg n t c \<Longrightarrow> cinv cfg n t (snd (AcceptStream d pick c))"
proof -
  assume c: "cinv cfg n t c"
  then have t: "cinv cfg n t (c\<lparr>acceptCh := tl (acceptCh c)\<rparr>)" using acceptCh_typed by (simp add: cinv_def)
  let ?arms = "(if d then [ArmContext] else []) @ (if connClosed c then [ArmClosed] else []) @ (if acceptCh c \<noteq> [] then [ArmReady] else [])"
  show ?thesis
  proof (cases "?arms = []")
    case False
    show ?thesis unfolding AcceptStream_def Let_def if_not_P [OF False] using c t by (cases "pick ?arms") (simp_all only: selectArm.case snd_conv if_distrib [of snd] if_cancel)
  next
    case True
    show ?thesis unfolding AcceptStream_def Let_def if_P [OF True] using c by simp
  qed
qed

lemma open_cinv:
  assumes e: "kcfg e = cfg" and c: "cinv cfg n t c" and n: "n < 2 ^ 31 - 1"
  shows "\<exists>m \<le> Suc n. cinv cfg m t (snd (OpenStream e c))"
proof (cases "connClosed c")
  case True
  then show ?thesis using c by (intro exI [of _ n]) (simp add: OpenStream_def)
next
  case False
  obtain r c' where r: "OpenStream e c = (r, c')" by fastforce
  from OpenStream_safe [OF e cinv_cok [OF c False order_refl] n r] show ?thesis
    using c r cok_cinv by (cases r) (auto intro: exI [of _ n] exI [of _ "Suc n"])
qed

lemma openSync_cinv:
  assumes e: "kcfg e = cfg" and c: "cinv cfg n t c" and n: "n < 2 ^ 31 - 1"
  shows "\<exists>m \<le> Suc n. cinv cfg m t (snd (OpenStreamSync e d pick c))"
proof -
  obtain r c' where r: "OpenStream e c = (r, c')" by fastforce
  from open_cinv [OF assms] r obtain m where m: "m \<le> Suc n" "cinv cfg m t c'" by auto
  have f: "cinv cfg m t (c'\<lparr>streamFreed := False\<rparr>)" using m(2) by (simp add: cinv_def)
  have "cinv cfg m t (snd (OpenStreamSync e d pick c))"
  proof (cases "r = Inl ErrMaxStreams")
    case False
    then have "snd (OpenStreamSync e d pick c) = c'"
      unfolding OpenStreamSync_def r prod.case by (cases r) (auto split: err.split)
    then show ?thesis using m(2) by simp
  next
    case True
    let ?arms = "(if d then [ArmContext] else []) @ (if connClosed c' then [ArmClosed] else []) @ (if streamFreed c' then [ArmReady] else [])"
    show ?thesis
    proof (cases "?arms = []")
      case False
      show ?thesis unfolding OpenStreamSync_def r True prod.case sum.case err.case Let_def if_not_P [OF False]
        using m(2) f by (cases "pick ?arms") (simp_all only: selectArm.case snd_conv)
    next
      case empty: True
      show ?thesis unfolding OpenStreamSync_def r True prod.case sum.case err.case Let_def if_P [OF empty] using m(2) by simp
    qed
  qed
  then show ?thesis using m(1) by blast
qed

lemma service_cok:
  assumes e: "envOk cfg e" and c: "cok cfg n t c" and clk: "mono clk" "\<forall>n. t \<le> clk n \<and> clk n \<le> know e"
  shows "\<exists>b c'. serviceConn e clk c = Some (b, c') \<and> cok cfg n (know e) c'"
proof -
  have E: "kcfg e = cfg" "sendConfig cfg" "ringOK (kres e)" using e by (simp_all add: envOk_def)
  have s: "sok cfg t (sendPath c)" using c by (simp add: cok_def)
  from serviceResends_safe [OF E(2,3) clk(1) s, of "resends c"] clk(2) obtain qd w st t' where
    r: "serviceResends cfg (kres e) clk (resends c) (sendPath c) = Some (qd, w, st)" "sok cfg t' st" "t' \<le> clk (statResends w)" by auto
  have "sok cfg (know e) st" by (rule sok_mono [OF r(2)]) (use r(3) clk(2) order_trans in blast)
  then show ?thesis using r(1) c E(1) by (simp add: serviceConn_def cok_def)
qed

lemma close_cinv:
  assumes e: "envOk cfg e" and c: "cinv cfg n t c" "t \<le> know e"
  shows "\<exists>ss c'. Close e c = Some (ss, c') \<and> cinv cfg n (know e) c'"
proof (cases "connClosed c")
  case True
  then show ?thesis using c by (auto simp: Close_def cinv_def)
next
  case False
  have E: "kcfg e = cfg" "sendConfig cfg" "ringOK (kres e)" using e by (simp_all add: envOk_def)
  have ok: "cok cfg n (know e) c" by (rule cinv_cok [OF c(1) False c(2)])
  let ?c0 = "c\<lparr>connClosed := True\<rparr>"
  have t0: "typed cfg n ?c0" using ok
    by (simp add: cok_def typed_defs table_def streamAt_def ownID_def firstID_def peerInitiated_def)
  have "safe cfg n (know e) (sending (sendControlFrame cfg (kres e) frameGoAway 0 0) ?c0)"
    by (rule sending_safe) (use t0 ok sok_senders(1) [OF E(2,3)] in \<open>simp_all add: cok_def\<close>)
  then obtain c1 where c1: "sending (sendControlFrame cfg (kres e) frameGoAway 0 0) ?c0 = Some c1" "typed cfg n c1"
    by (auto simp: safe_def cok_def)
  have cl: "connClosed c1" using quietD(8) [OF sending_quiet [OF c1(1)]] by simp
  have "typed cfg n (c1\<lparr>sendPath := st, streams := None\<rparr>)" for st using c1(2) cl
    by (simp add: typed_defs table_def streamAt_def ownID_def firstID_def peerInitiated_def)
  then show ?thesis using False c1(1) cl E(1) by (auto simp: Close_def Let_def cinv_def)
qed

lemma Write_wid: "0 < dataCap (scfg se) \<Longrightarrow> \<exists>out w'. Write se p n w = Some (out, w') \<and> wid w' = wid w"
proof -
  assume "0 < dataCap (scfg se)"
  from Write_ends [OF this, of p n w] obtain out w' cs rest where
    r: "Write se p n w = Some (out, w')" "writeEnd se rest (n + length (concat cs)) (rounds (scfg se) cs w) out w'" by blast
  have "wid (rounds (scfg se) cs w) = wid w" by (induction cs arbitrary: w) simp_all
  then have "wid w' = wid w" using r(2) by (auto simp: writeEnd_def wcall_def takeChunk_def split: if_splits)
  then show ?thesis using r(1) by blast
qed

lemma CloseWrite_wid: "wid (snd (CloseWrite se w)) = wid w"
proof (cases "writeFIN w \<or> writeErr w \<noteq> None")
  case False
  let ?w1 = "w\<lparr>writeFIN := True\<rparr>"
  obtain las w2 where r1: "emitLanes (fecLanes ?w1) ?w1 = (las, w2)" by fastforce
  obtain rl w3 where r2: "emitLaneLocked frameFECRow (fecRowLane w2) (w2\<lparr>fecLanes := las\<rparr>) = (rl, w3)" by fastforce
  from emitLanes_calls [OF r1] emitLane_calls [OF r2] have "wid w2 = wid w" "wid w3 = wid w2" by auto
  then show ?thesis using False r1 r2 by (simp add: CloseWrite_def Let_def wcall_def)
qed (simp add: CloseWrite_def)

lemma writes_safe:
  assumes e: "envOk cfg e" and c: "cok cfg n (know e) c" and s: "streamAt c i = Some s"
    and f: "f s = Some (s\<lparr>wr := w\<rparr>)" "wid w = wid (wr s)" and ok: "writesOk e i f c"
  shows "safe cfg n (know e) (onStream e i f c)"
proof -
  have o: "streamOk i s" using c s by (simp add: cok_def typed_defs)
  let ?s = "s\<lparr>wr := w\<rparr>"
  let ?z = "?s\<lparr>rd := (rd ?s)\<lparr>rcalls := []\<rparr>, wr := (wr ?s)\<lparr>wcalls := []\<rparr>\<rparr>"
  have "typed cfg n (setStream i ?z c)" using c o f(2) s by (intro setStream_typed) (simp_all add: cok_def streamOk_def)
  then have "cok cfg n (know e) (setStream i ?z c)" using c by (simp add: cok_def)
  moreover have "callsOk e (rcalls (rd ?s) @ wcalls (wr ?s)) (setStream i ?z c)" using ok s f(1) by (simp add: writesOk_def)
  ultimately have "safe cfg n (know e) (storeStream e i ?s c)" unfolding storeStream_def by (rule runCalls_safe [OF e])
  then show ?thesis using s f(1) by (simp add: onStream_def)
qed

lemma reads_safe:
  assumes e: "envOk cfg e" and c: "cok cfg n (know e) c" and r: "\<And>s. owns (rd s) (r s)"
  shows "safe cfg n (know e) (onStream e i (\<lambda>s. Some (s\<lparr>rd := r s\<rparr>)) c)"
  using c storeRead_safe [OF e c _ r] by (auto simp: onStream_def split: option.split)

lemma cstep_cinv:
  assumes c: "cinv cfg n t c" and en: "cenabled cfg t e op c" and n: "n < 2 ^ 31 - 1"
  shows "\<exists>c' m. cstep e op c = Some c' \<and> m \<le> Suc n \<and> cinv cfg m (know e) c'"
proof -
  have e: "envOk cfg e" and t: "t \<le> know e" using en by (simp_all add: cenabled_def)
  have kc: "kcfg e = cfg" using e by (simp add: envOk_def)
  have c': "cinv cfg n (know e) c" using c t sok_mono by (auto simp: cinv_def)
  have ok: "cok cfg n (know e) c" if "\<not> connClosed c" using cinv_cok [OF c that t] .
  have fin: ?thesis if "safe cfg n (know e) (cstep e op c)" using that cok_cinv le_SucI [OF order_refl] unfolding safe_def by blast
  have fin': ?thesis if "cstep e op c = Some c1" "cinv cfg n (know e) c1" for c1
    using that le_SucI [OF order_refl] by blast
  have read: "owns (rd s) (snd (Read (recvEnvOf e c) k (rd s)))" for s k
    using own.Read by (metis prod.collapse)
  show ?thesis
  proof (cases op)
    case OpOpen
    then show ?thesis using open_cinv [OF kc c' n] by (auto simp: cstep_def)
  next
    case (OpOpenSync d pick)
    then show ?thesis using openSync_cinv [OF kc c' n] by (auto simp: cstep_def)
  next
    case (OpAccept d pick)
    show ?thesis by (rule fin' [OF _ accept_cinv [OF c', of d pick]]) (simp add: OpAccept cstep_def)
  next
    case (OpBatch bufs)
    then show ?thesis using fin' [OF _ c'] fin readBatch_safe [OF e ok] by (cases "connClosed c") (simp_all add: cstep_def readBatch_def)
  next
    case (OpForward buf)
    then show ?thesis using fin' [OF _ c'] fin handleDatagramAndFlush_safe [OF e ok]
      by (cases "connClosed c") (simp_all add: cstep_def handleDatagramAndFlush_def)
  next
    case (OpService clk)
    then have g: "\<not> connClosed c" "mono clk" "\<forall>n. t \<le> clk n \<and> clk n \<le> know e" using en by (auto simp: cenabled_def)
    from service_cok [OF e cinv_cok [OF c g(1) order_refl] g(2,3)] obtain b c1 where
      "serviceConn e clk c = Some (b, c1)" "cok cfg n (know e) c1" by blast
    then show ?thesis using OpService by (intro fin' [OF _ cok_cinv]) (simp_all add: cstep_def)
  next
    case OpTick
    then show ?thesis using fin retransmitTick_safe [OF e ok] en by (simp add: cstep_def cenabled_def)
  next
    case OpKeepAlive
    then have "\<not> connClosed c" using en by (simp add: cenabled_def)
    from keepAliveTick_safe [OF e ok [OF this]] obtain b c1 where
      "keepAliveTick e c = Some (b, c1)" "cok cfg n (know e) c1" by (auto simp: safeB_def)
    then show ?thesis using OpKeepAlive by (intro fin' [OF _ cok_cinv]) (simp_all add: cstep_def)
  next
    case (OpRead i k)
    then show ?thesis using fin reads_safe [OF e ok read] en by (simp add: cstep_def cenabled_def)
  next
    case (OpCancelRead i code)
    then show ?thesis using fin reads_safe [OF e ok own.others(3)] en by (simp add: cstep_def cenabled_def)
  next
    case (OpWrite i p k se)
    then have g: "\<not> connClosed c" "scfg se = cfg" "0 < dataCap cfg" "writesOk e i (writeOp se p k) c" using en by (simp_all add: cenabled_def)
    show ?thesis
    proof (cases "streamAt c i")
      case (Some s)
      from Write_wid [of se p k "wr s"] g obtain out w where w: "Write se p k (wr s) = Some (out, w)" "wid w = wid (wr s)" by auto
      then have "writeOp se p k s = Some (s\<lparr>wr := w\<rparr>)" by (simp add: writeOp_def)
      from writes_safe [OF e ok [OF g(1)] Some this w(2) g(4)] fin OpWrite show ?thesis by (simp add: cstep_def)
    qed (use fin' [OF _ c'] OpWrite in \<open>simp add: cstep_def onStream_def\<close>)
  next
    case (OpCloseWrite i se)
    then have g: "\<not> connClosed c" "writesOk e i (closeOp se) c" using en by (simp_all add: cenabled_def)
    show ?thesis
    proof (cases "streamAt c i")
      case (Some s)
      from writes_safe [OF e ok [OF g(1)] Some closeOp_def CloseWrite_wid g(2)] fin OpCloseWrite show ?thesis by (simp add: cstep_def)
    qed (use fin' [OF _ c'] OpCloseWrite in \<open>simp add: cstep_def onStream_def\<close>)
  next
    case (OpCancelWrite i code)
    then have "\<not> connClosed c" using en by (simp add: cenabled_def)
    then show ?thesis using fin fin' [OF _ c'] OpCancelWrite storeAbort_safe [OF e ok, of i]
      by (cases "streamAt c i") (simp_all add: cstep_def onStream_def CancelWrite_def)
  next
    case OpClose
    from close_cinv [OF e c t] obtain ss c1 where "Close e c = Some (ss, c1)" "cinv cfg n (know e) c1" by blast
    then show ?thesis using OpClose by (intro fin') (simp_all add: cstep_def)
  qed
qed

lemma crun_cinv:
  assumes "cinv cfg n t c" "callowed cfg t ops c" "n + length ops < 2 ^ 31"
  shows "\<exists>c' m t'. crun ops c = Some c' \<and> m \<le> n + length ops \<and> cinv cfg m t' c'"
  using assms
proof (induction ops arbitrary: c n t)
  case (Cons x ops)
  obtain e op where x: "x = (e, op)" by fastforce
  from cstep_cinv [OF Cons.prems(1), of e op] Cons.prems(2,3) x obtain c1 m where
    s: "cstep e op c = Some c1" "m \<le> Suc n" "cinv cfg m (know e) c1" by auto
  have "callowed cfg (know e) ops c1" "m + length ops < 2 ^ 31" using Cons.prems(2,3) s x by auto
  from Cons.IH [OF s(3) this] obtain c' k t' where
    "crun ops c1 = Some c'" "k \<le> m + length ops" "cinv cfg k t' c'" by blast
  then show ?case using s x by (intro exI [of _ c'] exI [of _ k] exI [of _ t']) simp
qed auto

lemma new_cinv:
  assumes "sendConfig cfg"
  shows "cinv cfg 0 t (newConnection client cfg sg gr rg)"
proof -
  let ?c = "newConnection client cfg sg gr rg"
  have "typed cfg 0 ?c"
    by (simp add: typed_defs newConnection_def table_def streamAt_def ownID_def firstID_def)
  moreover have "state False cfg t [] [] (newSendState cfg sg gr rg)" using bstart_state [OF assms, of False t sg gr rg] by (simp add: bstart_def)
  moreover have "frames (retransmit (newSendState cfg sg gr rg)) = []" using frames_start [of cfg sg gr rg t] by (simp add: bstart_def)
  ultimately show ?thesis by (auto simp: cinv_def sok_def fits_def newConnection_def)
qed

end
