(* ===== verification/ConnLocal.thy ===== *)
theory ConnLocal
  imports ConnRun
begin

text \<open>
  What one frame changes: only the stream it names. The relation \<open>about i\<close> collects everything a frame of stream \<open>i\<close>
  leaves alone (other streams, their pending acknowledgements, their outstanding frames, the tombstones, the state of
  the connection itself), and every handler stays inside it.
\<close>

definition about :: "u32 \<Rightarrow> Connection \<Rightarrow> Connection \<Rightarrow> bool" where
  "about i c c' \<longleftrightarrow> connClosed c' = connClosed c \<and> closing c' = closing c \<and> missedPongs c' = missedPongs c \<and>
     deadStreams c' = deadStreams c \<and> nextStream c' = nextStream c \<and>
     (\<forall>j. j \<noteq> i \<longrightarrow> streamAt c' j = streamAt c j \<and> mget (sAckDirty c') j = mget (sAckDirty c) j \<and>
        mget (sReadIdsToAck c') j = mget (sReadIdsToAck c) j)"

lemma about_refl [simp]: "about i c c"
  by (simp add: about_def)

lemma about_trans: "about i a b \<Longrightarrow> about i b c \<Longrightarrow> about i a c"
  by (simp add: about_def)

lemma quiet_about: "quiet c c' \<Longrightarrow> about i c c'"
  by (simp add: about_def quietD)

lemma setStream_about: "about i c (setStream i s c)"
  by (simp add: about_def streamAt_setStream) (simp add: setStream_def)

lemma upd_about [simp]:
  "about i c (c\<lparr>rtt := r\<rparr>)" "about i c (c\<lparr>resends := w\<rparr>)" "about i c (c\<lparr>established := b\<rparr>)" "about i c (c\<lparr>acceptCh := l\<rparr>)"
  "about i c (c\<lparr>sendPath := st\<rparr>)" "about i c (c\<lparr>statFecRecovered := k\<rparr>)" "about i c (queueAck i sq c)" "about i c (markAckDirty i c)"
  by (simp_all add: about_def queueAck_def markAckDirty_def mget_mput) (simp_all add: streamAt_def)

lemma store_about: "storeStream e i s c = Some c' \<Longrightarrow> about i c c'"
  using about_trans [OF setStream_about quiet_about [OF storeStream_streams]] .

lemma sending_about: "sending f c = Some c' \<Longrightarrow> about i c c'"
  using quiet_about [OF sending_quiet] .

lemma streamForFrame_about:
  assumes "streamForFrame e i c = Some (r, c')"
  shows "about i c c'"
proof -
  let ?s = "newStream i (kcfg e) (streamBufSize (kcfg e)) (know e)"
  let ?old = "connClosed c \<or> streamAt c i \<noteq> None \<or> mget (deadStreams c) i \<noteq> None \<or> \<not> peerInitiated i c \<or> streams c = None"
  let ?c1 = "setStream i ?s c"
  have new: "about i c (if b then ?c1\<lparr>acceptCh := l\<rparr> else ?c1)" for b l
    using setStream_about about_trans [OF setStream_about upd_about(4)] by simp
  show ?thesis
  proof (cases ?old)
    case True
    then have "c' = c" using assms unfolding streamForFrame_def by (elim disjE) (simp_all split: if_splits)
    then show ?thesis by simp
  next
    case False
    then have f: "\<not> connClosed c" "\<not> streamAt c i \<noteq> None" "\<not> mget (deadStreams c) i \<noteq> None" "\<not> \<not> peerInitiated i c" "streams c \<noteq> None"
      by simp_all
    note unf = if_not_P [OF f(1)] if_not_P [OF f(2)] if_not_P [OF f(3)] if_not_P [OF f(4)] if_not_P [OF f(5)]
    show ?thesis
    proof (cases "maxStreams (kcfg e) \<le> int (length (table c))")
      case True
      show ?thesis using assms unfolding streamForFrame_def unf if_P [OF True]
        by (auto simp: bind_eq_Some_conv dest!: sending_about [of _ _ _ i] intro: about_trans)
    next
      case False
      have "c' = (if int (length (acceptCh ?c1)) < maxStreams (kcfg e) then ?c1\<lparr>acceptCh := acceptCh ?c1 @ [i]\<rparr> else ?c1)"
        using assms unfolding streamForFrame_def unf if_not_P [OF False] Let_def by (simp only: option.inject prod.inject)
      then show ?thesis using new by simp
    qed
  qed
qed

lemma handlers_about:
  "deliverTo e i sq pl f c = Some c' \<Longrightarrow> about i c c'"
  "handleFec e fr row c = Some c' \<Longrightarrow> about (streamID fr) c c'"
  "handleStreamReset e fr c = Some c' \<Longrightarrow> about (streamID fr) c c'"
  "handleStopSending e fr c = Some c' \<Longrightarrow> about (streamID fr) c c'"
  "handleWindowUpdate e fr c = Some c' \<Longrightarrow> about (streamID fr) c c'"
  "handleHandshake e fr c = Some c' \<Longrightarrow> about (streamID fr) c c'"
  "handleACK e fr c = Some c' \<Longrightarrow> about (streamID fr) c c'"
  "handleNack e fr c = Some c' \<Longrightarrow> about (streamID fr) c c'"
proof -
  show "about i c c'" if "deliverTo e i sq pl f c = Some c'"
  proof -
    from that obtain found ack c1 where s: "streamForFrame e i c = Some ((found, ack), c1)"
      by (auto simp: deliverTo_def bind_eq_Some_conv)
    have "about i c1 c'" using that s store_about about_trans upd_about(7,8) unfolding deliverTo_def
      by (fastforce simp: bind_eq_Some_conv split: if_splits option.splits)
    then show ?thesis using streamForFrame_about [OF s] about_trans by blast
  qed
  show "about (streamID fr) c c'" if h: "handleFec e fr row c = Some c'"
    using h store_about about_trans [OF _ about_trans [OF upd_about(6) upd_about(8)]] unfolding handleFec_def Let_def
    by (fastforce simp: bind_eq_Some_conv split: if_splits option.splits prod.splits)
  show "about (streamID fr) c c'" if "handleStreamReset e fr c = Some c'"
    using that about_trans [OF upd_about(7) store_about] by (auto simp: handleStreamReset_def Let_def split: option.splits)
  show "about (streamID fr) c c'" if "handleStopSending e fr c = Some c'"
    using that store_about by (auto simp: handleStopSending_def split: option.splits)
  show "about (streamID fr) c c'" if "handleWindowUpdate e fr c = Some c'"
    using that store_about by (auto simp: handleWindowUpdate_def split: option.splits sum.splits)
  show "about (streamID fr) c c'" if "handleHandshake e fr c = Some c'"
    using that sending_about by (auto simp: handleHandshake_def split: if_splits)
  show "about (streamID fr) c c'" if "handleNack e fr c = Some c'"
    using that about_trans [OF upd_about(5) upd_about(2)] by (auto simp: handleNack_def Let_def split: sum.splits prod.splits)
  show "about (streamID fr) c c'" if h: "handleACK e fr c = Some c'"
  proof (cases "decodeSeqListFrame fr []")
    case (Inr x)
    then obtain q s b where "c' = c\<lparr>sendPath := q\<rparr> \<or> c' = c\<lparr>sendPath := q\<rparr>\<lparr>rtt := b\<rparr> \<or>
        storeStream e (streamID fr) s (c\<lparr>sendPath := q\<rparr>) = Some c' \<or> storeStream e (streamID fr) s (c\<lparr>sendPath := q\<rparr>\<lparr>rtt := b\<rparr>) = Some c'"
      using h by (auto simp: handleACK_def Let_def split: prod.splits if_splits option.splits)
    then show ?thesis using about_trans [OF upd_about(5) upd_about(1)] about_trans [OF upd_about(5) store_about]
      about_trans [OF about_trans [OF upd_about(5) upd_about(1)] store_about] by auto
  qed (use h in \<open>simp add: handleACK_def\<close>)
qed

lemma dispatch_about:
  assumes "dispatchFrameLocked e f c = Some c'" "ftype f \<noteq> frameGoAway"
  shows "about (streamID f) (c\<lparr>missedPongs := 0\<rparr>) c'"
proof -
  have "about (streamID f) d (handlePong e d)" for d
    by (simp add: handlePong_def Let_def about_def streamAt_def)
  then show ?thesis using assms handlers_about sending_about unfolding dispatchFrameLocked_def Let_def handleData_def handleStreamFIN_def
    by (auto split: if_splits)
qed

lemma goAway_effect: "ftype f = frameGoAway \<Longrightarrow> dispatchFrameLocked e f c = Some (c\<lparr>missedPongs := 0, closing := True\<rparr>)"
  by (simp add: dispatchFrameLocked_def Let_def frame_type_defs)

lemma dispatch_closed: "dispatchFrameLocked e f c = Some c' \<Longrightarrow> connClosed c' = connClosed c"
  using goAway_effect dispatch_about by (cases "ftype f = frameGoAway") (fastforce simp: about_def)+

end
