(* ===== verification/ConnProps.thy ===== *)
theory ConnProps
  imports ConnLocal
begin

text \<open>
  The properties of a connection: the states it reaches are well typed and no step panics, a datagram is the sequence of
  its frames, a frame changes nothing but its stream, and the keep-alive state is a function of what arrived.
\<close>

section \<open>The frames of a datagram\<close>

text \<open>A reference for the receive loop: parse first, then dispatch.\<close>

function (sequential) framesOf :: "bytes \<Rightarrow> frame list" where
  "framesOf buf =
     (if length buf < frameHeaderSize then []
      else case decodeFrame buf of
             Inl _ \<Rightarrow> []
           | Inr f \<Rightarrow> f # framesOf (drop (frameHeaderSize + unat (flength f)) buf))"
  by pat_completeness auto
termination
  by (relation "measure length") (auto simp: frameHeaderSize_def)

declare framesOf.simps [simp del]

fun dispatchAll :: "connEnv \<Rightarrow> frame list \<Rightarrow> Connection \<Rightarrow> Connection option" where
  "dispatchAll e [] c = Some c"
| "dispatchAll e (f # fs) c = Option.bind (dispatchFrameLocked e f c) (dispatchAll e fs)"

lemma dispatchAll_append: "dispatchAll e (fs @ gs) c = Option.bind (dispatchAll e fs c) (dispatchAll e gs)"
  by (induction fs arbitrary: c) (auto split: bind_split)

lemma dispatchAll_closed: "dispatchAll e fs c = Some c' \<Longrightarrow> connClosed c' = connClosed c"
  by (induction fs arbitrary: c) (auto simp: bind_eq_Some_conv dest!: dispatch_closed)

lemma framesOf_short: "length buf < frameHeaderSize \<Longrightarrow> framesOf buf = []"
  by (simp add: framesOf.simps)

lemma framesOf_bad: "decodeFrame buf = Inl er \<Longrightarrow> framesOf buf = []"
  by (simp add: framesOf.simps)

lemma framesOf_frame:
  "length pl < 2 ^ 32 \<Longrightarrow> framesOf (frame_bytes ty i sq pl @ rest) = mk_frame ty i sq pl # framesOf rest"
  using unat_of_nat32 [of "length pl"] by (subst framesOf.simps) (simp add: decodeFrame_frame_bytes)

lemma datagramLoop_frames: "datagramLoop e buf c = dispatchAll e (framesOf buf) c"
proof (induction buf arbitrary: c rule: framesOf.induct)
  case (1 buf)
  show ?case
  proof (cases "length buf < frameHeaderSize")
    case True
    then show ?thesis by (simp add: datagramLoop.simps framesOf_short)
  next
    case long: False
    show ?thesis
    proof (cases "decodeFrame buf")
      case (Inr f)
      have "datagramLoop e (drop (frameHeaderSize + unat (flength f)) buf) = dispatchAll e (framesOf (drop (frameHeaderSize + unat (flength f)) buf))"
        using "1.IH" [OF long Inr] by blast
      then show ?thesis using long Inr by (simp add: datagramLoop.simps [of e buf] framesOf.simps [of buf])
    qed (use long in \<open>simp add: datagramLoop.simps [of e buf] framesOf_bad\<close>)
  qed
qed

lemma handleDatagramLocked_frames:
  "\<not> connClosed c \<Longrightarrow> handleDatagramLocked e buf c = dispatchAll e (framesOf buf) c"
  by (simp add: handleDatagramLocked_def datagramLoop_frames)

lemma readMessages_frames:
  "\<not> connClosed c \<Longrightarrow> readMessages e bufs c = dispatchAll e (concat (map framesOf bufs)) c"
proof (induction bufs arbitrary: c)
  case (Cons buf bufs)
  have "readMessages e bufs d = dispatchAll e (concat (map framesOf bufs)) d" if "dispatchAll e (framesOf buf) c = Some d" for d
    using Cons dispatchAll_closed [OF that] by simp
  then show ?case using Cons
    by (auto simp: handleDatagramLocked_frames dispatchAll_append framesOf_short split: bind_split)
qed simp

definition image :: "u8 \<times> u32 \<times> u32 \<times> bytes \<Rightarrow> bytes" where
  "image f = (case f of (ty, i, sq, pl) \<Rightarrow> frame_bytes ty i sq pl)"

definition frameOf :: "u8 \<times> u32 \<times> u32 \<times> bytes \<Rightarrow> frame" where
  "frameOf f = (case f of (ty, i, sq, pl) \<Rightarrow> mk_frame ty i sq pl)"

lemma framesOf_images:
  "list_all (\<lambda>(_, _, _, pl). length pl < 2 ^ 32) fs \<Longrightarrow> framesOf rest = [] \<Longrightarrow>
   framesOf (concat (map image fs) @ rest) = map frameOf fs"
  by (induction fs) (auto simp: image_def frameOf_def framesOf_frame split: prod.split)

text \<open>C14 (equivalence). Frames that a sender packed into one datagram (with a truncated or malformed rest after them) have exactly
  the effect of the same frames sent in one datagram each and read in one batch, and that effect is to dispatch them
  one after the other in order; a panic in one case is a panic in the other.\<close>

theorem coalesced_datagrams:
  assumes "list_all (\<lambda>(_, _, _, pl). length pl < 2 ^ 32) fs" "length rest < frameHeaderSize \<or> decodeFrame rest = Inl er"
    "\<not> connClosed c"
  shows "handleDatagramLocked e (concat (map image fs) @ rest) c = readMessages e (map image fs) c \<and>
    readMessages e (map image fs) c = dispatchAll e (map frameOf fs) c"
proof -
  have r: "framesOf rest = []" using assms(2) framesOf_short framesOf_bad by auto
  have "framesOf (image f) = [frameOf f]" if "f \<in> set fs" for f
    using framesOf_images [of "[f]" "[]"] assms(1) that by (auto simp: list_all_iff framesOf_short frameHeaderSize_def)
  then have "concat (map framesOf (map image fs)) = map frameOf fs" by (induction fs) simp_all
  then show ?thesis
    using readMessages_frames [OF assms(3)] handleDatagramLocked_frames [OF assms(3)] framesOf_images [OF assms(1) r] by simp
qed

section \<open>Isolation\<close>

text \<open>C13 (safety). Isolation of streams: a datagram none of whose frames carries the ID of stream \<open>j\<close> leaves stream \<open>j\<close> exactly as
  it was, with its pending acknowledgements; it makes no stream dead, gives out no stream ID, does not close the
  connection, and starts its shutdown only if it holds a GOAWAY.\<close>

theorem stream_isolation:
  assumes "handleDatagramLocked e buf c = Some c'" "j \<notin> streamID ` set (framesOf buf)"
  shows "streamAt c' j = streamAt c j \<and> mget (sAckDirty c') j = mget (sAckDirty c) j \<and>
    mget (sReadIdsToAck c') j = mget (sReadIdsToAck c) j \<and> deadStreams c' = deadStreams c \<and> nextStream c' = nextStream c \<and>
    connClosed c' = connClosed c \<and>
    (closing c' \<longleftrightarrow> closing c \<or> (\<not> connClosed c \<and> frameGoAway \<in> ftype ` set (framesOf buf)))"
proof -
  have *: "streamAt c' j = streamAt c j \<and> mget (sAckDirty c') j = mget (sAckDirty c) j \<and>
      mget (sReadIdsToAck c') j = mget (sReadIdsToAck c) j \<and> deadStreams c' = deadStreams c \<and> nextStream c' = nextStream c \<and>
      (closing c' \<longleftrightarrow> closing c \<or> frameGoAway \<in> ftype ` set fs)"
    if "dispatchAll e fs c = Some c'" "j \<notin> streamID ` set fs" for fs
    using that
  proof (induction fs arbitrary: c)
    case (Cons f fs)
    from Cons.prems(1) obtain d where d: "dispatchFrameLocked e f c = Some d" "dispatchAll e fs d = Some c'"
      by (auto simp: bind_eq_Some_conv)
    show ?case
    proof (cases "ftype f = frameGoAway")
      case True
      then have "d = c\<lparr>missedPongs := 0, closing := True\<rparr>" using goAway_effect d(1) by simp
      then show ?thesis using Cons.IH [OF d(2)] Cons.prems(2) True by (simp add: streamAt_def)
    next
      case False
      have "streamAt (c\<lparr>missedPongs := 0\<rparr>) j = streamAt c j" by (simp add: streamAt_def)
      then have "streamAt d j = streamAt c j \<and> mget (sAckDirty d) j = mget (sAckDirty c) j \<and>
          mget (sReadIdsToAck d) j = mget (sReadIdsToAck c) j \<and> deadStreams d = deadStreams c \<and> nextStream d = nextStream c \<and>
          closing d = closing c"
        using dispatch_about [OF d(1) False] Cons.prems(2) by (simp add: about_def)
      then show ?thesis using Cons.IH [OF d(2)] Cons.prems(2) False by simp
    qed
  qed auto
  have run: "c' = c \<and> connClosed c \<or> \<not> connClosed c \<and> dispatchAll e (framesOf buf) c = Some c'"
    using assms(1) handleDatagramLocked_frames [of c e buf] by (cases "connClosed c") (simp_all add: handleDatagramLocked_def)
  then have "connClosed c' = connClosed c" using dispatchAll_closed by blast
  then show ?thesis using run * [OF _ assms(2)] by blast
qed

section \<open>The keep-alive monitor\<close>

text \<open>What decides whether a connection goes down: the closed flag, the ticks since the last frame, and the started shutdown.\<close>

definition watch :: "Connection \<Rightarrow> bool \<times> int \<times> bool" where
  "watch c = (connClosed c, missedPongs c, closing c)"

definition heard :: "frame list \<Rightarrow> bool \<times> int \<times> bool \<Rightarrow> bool \<times> int \<times> bool" where
  "heard fs m = (case m of (cl, k, down) \<Rightarrow>
     if cl \<or> fs = [] then m else (cl, 0, down \<or> frameGoAway \<in> ftype ` set fs))"

text \<open>The abstract monitor: a frame resets the count, the fourth silent tick or a GOAWAY starts the shutdown.\<close>

definition monitor :: "connOp \<Rightarrow> bool \<times> int \<times> bool \<Rightarrow> bool \<times> int \<times> bool" where
  "monitor op m =
     (case op of
        OpBatch bufs \<Rightarrow> heard (concat (map framesOf bufs)) m
      | OpForward buf \<Rightarrow> heard (framesOf buf) m
      | OpKeepAlive \<Rightarrow> (case m of (cl, k, down) \<Rightarrow> (cl, k + 1, down \<or> 3 < k + 1))
      | OpClose \<Rightarrow> (case m of (_, k, down) \<Rightarrow> (True, k, down))
      | _ \<Rightarrow> m)"

lemma watch_quiet: "quiet c c' \<Longrightarrow> watch c' = watch c"
  by (simp add: watch_def quietD)

lemma watch_about: "about i c c' \<Longrightarrow> watch c' = watch c"
  by (simp add: watch_def about_def)

lemma watch_upd [simp]:
  "watch (setStream i s c) = watch c" "watch (c\<lparr>sAckDirty := a\<rparr>) = watch c" "watch (c\<lparr>sReadIdsToAck := b\<rparr>) = watch c"
  "watch (c\<lparr>resends := w\<rparr>) = watch c" "watch (c\<lparr>sendPath := st\<rparr>) = watch c" "watch (c\<lparr>deadStreams := d\<rparr>) = watch c"
  "watch (c\<lparr>nextStream := n\<rparr>) = watch c" "watch (c\<lparr>streamFreed := f\<rparr>) = watch c" "watch (c\<lparr>acceptCh := l\<rparr>) = watch c"
  "watch (c\<lparr>sendPingMs := ms\<rparr>) = watch c" "watch (removeStream e i c) = watch c"
  by (simp_all add: watch_def setStream_def removeStream_def Let_def)

lemma watch_sending: "sending f c = Some c' \<Longrightarrow> watch c' = watch c"
  by (rule watch_quiet [OF sending_quiet])

lemma watch_store: "storeStream e i s c = Some c' \<Longrightarrow> watch c' = watch c"
  by (rule watch_about [OF store_about])

lemma watch_ackFrames: "ackFrames e m i cum rest c = Some c' \<Longrightarrow> watch c' = watch c"
proof (induction e m i cum rest c rule: ackFrames.induct)
  case (1 e m i cum rest c)
  from "1.prems" obtain d where d: "sending (queueACKFrame (kcfg e) (kres e) i cum (take m rest)) c = Some d"
    "(if m = 0 \<or> drop m rest = [] then Some d else ackFrames e m i cum (drop m rest) d) = Some c'"
    by (subst (asm) ackFrames.simps) (auto simp: bind_eq_Some_conv)
  show ?case
  proof (cases "m = 0 \<or> drop m rest = []")
    case True
    then show ?thesis using d watch_sending [OF d(1)] by simp
  next
    case False
    then show ?thesis using d watch_sending [OF d(1)] "1.IH" [OF d(1) False] by simp
  qed
qed

lemma watch_ackDirty: "ackDirty e m is qd c = Some (b, c') \<Longrightarrow> watch c' = watch c"
  by (induction "is" arbitrary: qd c)
    (auto simp: bind_eq_Some_conv Let_def dest!: watch_ackFrames watch_sending split: option.splits prod.splits)

lemma watch_ackExplicit: "ackExplicit e m is qd c = Some (b, c') \<Longrightarrow> watch c' = watch c"
  by (induction "is" arbitrary: qd c)
    (auto simp: bind_eq_Some_conv Let_def dest!: watch_ackFrames split: option.splits if_splits)

lemma watch_flush: "flushPendingAcksLocked e c = Some c' \<Longrightarrow> watch c' = watch c"
  by (auto simp: flushPendingAcksLocked_def Let_def bind_eq_Some_conv split: if_splits
      dest!: watch_ackDirty watch_ackExplicit watch_sending)

lemma watch_fold_remove: "watch (fold (removeStream e) is c) = watch c"
  by (induction "is" arbitrary: c) simp_all

lemma watch_tailNacks: "tailNacks e is c = Some c' \<Longrightarrow> watch c' = watch c"
  by (induction "is" arbitrary: c) (auto simp: bind_eq_Some_conv dest!: watch_store split: option.splits)

lemma watch_tick: "retransmitTick e c = Some c' \<Longrightarrow> watch c' = watch c"
  by (auto simp: retransmitTick_def tailNackScan_def bind_eq_Some_conv Let_def gcStreams_def watch_fold_remove dest!: watch_tailNacks)

lemma watch_dispatchAll: "dispatchAll e fs c = Some c' \<Longrightarrow> \<not> connClosed c \<Longrightarrow> watch c' = heard fs (watch c)"
proof (induction fs arbitrary: c)
  case (Cons f fs)
  from Cons.prems(1) obtain d where d: "dispatchFrameLocked e f c = Some d" "dispatchAll e fs d = Some c'"
    by (auto simp: bind_eq_Some_conv)
  have "watch d = heard [f] (watch c)"
  proof (cases "ftype f = frameGoAway")
    case True
    then have "d = c\<lparr>missedPongs := 0, closing := True\<rparr>" using goAway_effect d(1) by simp
    then show ?thesis using True Cons.prems(2) by (simp add: watch_def heard_def)
  next
    case False
    then show ?thesis using watch_about [OF dispatch_about [OF d(1) False]] Cons.prems(2) by (simp add: watch_def heard_def)
  qed
  moreover have "watch c' = heard fs (watch d)" using Cons.IH d dispatch_closed Cons.prems(2) by simp
  ultimately show ?case by (auto simp: heard_def watch_def)
qed (simp add: heard_def watch_def)

lemma watch_onStream: "onStream e i f c = Some c' \<Longrightarrow> watch c' = watch c"
  by (auto simp: onStream_def bind_eq_Some_conv dest!: watch_store split: option.splits)

lemma watch_open: "watch (snd (OpenStream e c)) = watch c"
  unfolding OpenStream_def Let_def by (simp split: if_split)

lemma watch_waits: "watch (snd (OpenStreamSync e d pick c)) = watch c" "watch (snd (AcceptStream d pick c)) = watch c"
proof -
  obtain r c1 where r: "OpenStream e c = (r, c1)" by fastforce
  then have "watch c1 = watch c" using watch_open [of e c] by simp
  then show "watch (snd (OpenStreamSync e d pick c)) = watch c" unfolding OpenStreamSync_def r prod.case Let_def
    by (simp split: sum.split err.split selectArm.split if_split)
  show "watch (snd (AcceptStream d pick c)) = watch c" unfolding AcceptStream_def Let_def
    by (simp split: selectArm.split if_split)
qed

lemma watch_keepAlive: "keepAliveTick e c = Some (b, c') \<Longrightarrow> watch c' = (connClosed c, missedPongs c + 1, closing c \<or> 3 < missedPongs c + 1)"
  by (auto simp: keepAliveTick_def SendPing_def watch_def maxMissedPongs_def Let_def split: if_splits)

lemma watch_close: "Close e c = Some (ss, c') \<Longrightarrow> watch c' = (True, missedPongs c, closing c)"
proof (cases "connClosed c")
  case False
  assume "Close e c = Some (ss, c')"
  then obtain d st where d: "sending (sendControlFrame (kcfg e) (kres e) frameGoAway 0 0) (c\<lparr>connClosed := True\<rparr>) = Some d"
    "c' = d\<lparr>sendPath := st, streams := None\<rparr>" using False by (auto simp: Close_def bind_eq_Some_conv Let_def)
  show ?thesis using watch_sending [OF d(1)] unfolding d(2) by (simp add: watch_def)
qed (simp add: Close_def watch_def)

lemma watch_step: "cstep e op c = Some c' \<Longrightarrow> watch c' = monitor op (watch c)"
proof (cases op)
  case (OpBatch bufs)
  assume "cstep e op c = Some c'"
  then show ?thesis using OpBatch watch_dispatchAll watch_flush readMessages_frames
    by (cases "connClosed c") (auto simp: cstep_def readBatch_def monitor_def bind_eq_Some_conv, simp add: watch_def heard_def)
next
  case (OpForward buf)
  assume "cstep e op c = Some c'"
  then show ?thesis using OpForward watch_dispatchAll watch_flush handleDatagramLocked_frames
    by (cases "connClosed c") (auto simp: cstep_def handleDatagramAndFlush_def monitor_def bind_eq_Some_conv, simp add: watch_def heard_def)
next
  case OpKeepAlive
  assume "cstep e op c = Some c'"
  then show ?thesis using OpKeepAlive by (auto simp: cstep_def monitor_def dest!: watch_keepAlive) (simp add: watch_def)
next
  case OpClose
  assume "cstep e op c = Some c'"
  then show ?thesis using OpClose by (auto simp: cstep_def monitor_def dest!: watch_close) (simp add: watch_def)
next
  case (OpService clk)
  assume "cstep e op c = Some c'"
  then show ?thesis using OpService by (auto simp: cstep_def monitor_def serviceConn_def)
qed (auto simp: cstep_def monitor_def watch_open watch_waits dest!: watch_onStream watch_tick)

text \<open>C15 (refinement). The liveness of a connection refines an abstract monitor: in every run from a new connection, whatever is read, written, resent
  or opened in between, the closed flag, the count of silent ticks and the started shutdown are what the monitor computes
  from the frames that arrived and the keep-alive ticks. In particular a shutdown starts exactly at a GOAWAY or at
  the fourth tick without a frame.\<close>

theorem keep_alive_monitor:
  assumes "crun ops (newConnection client cfg sg gr rg) = Some c"
  shows "(connClosed c, missedPongs c, closing c) = fold (\<lambda>(e, op). monitor op) ops (False, 0, False)"
proof -
  have "watch c' = fold (\<lambda>(e, op). monitor op) ops (watch c)" if "crun ops c = Some c'" for c c'
    using that by (induction ops arbitrary: c) (auto simp: bind_eq_Some_conv dest!: watch_step)
  from this [OF assms] show ?thesis by (simp add: watch_def newConnection_def)
qed

section \<open>Reachable states\<close>


section \<open>Examples\<close>

definition demoConnCfg :: config where
  "demoConnCfg = ringConfig\<lparr>streamBufSize := 64\<rparr>"

lemma demoConnCfg_ok: "sendConfig demoConnCfg"
  using demo_configs(3) by (simp add: sendConfig_def demoConnCfg_def maxDatagram_def)

definition demoEnv :: "time \<Rightarrow> connEnv" where
  "demoEnv t = \<lparr>kcfg = demoConnCfg, kres = kernelOK, know = t, knowMs = 0, kstale = (\<lambda>_. 0), korder = (\<lambda>xs. xs)\<rparr>"

definition demoServer :: Connection where
  "demoServer = newConnection False demoConnCfg False False False"

definition demoFrames :: "(u8 \<times> u32 \<times> u32 \<times> bytes) list" where
  "demoFrames = [(framePing, 0, 7, []), (frameData, 1, 0, [5, 6]), (frameStreamFIN, 1, 1, [])]"

definition demoSender :: sendEnv where
  "demoSender = \<lparr>scfg = demoConnCfg, snow = 0, sconnCap = 1000000, sdata = (\<lambda>_. None), sflush = None, sreliable = None\<rparr>"

lemma demoEnv_ok: "envOk demoConnCfg (demoEnv t)" "know (demoEnv t) = t"
  using demoConnCfg_ok kernelOK_good(1) by (simp_all add: envOk_def demoEnv_def)

theorem coalesced_datagrams_witness:
  "handleDatagramLocked (demoEnv 0) (concat (map image demoFrames) @ [1, 2, 3]) demoServer = dispatchAll (demoEnv 0) (map frameOf demoFrames) demoServer \<and>
   map_option (\<lambda>c. map_option (\<lambda>s. readSeq (rd s)) (streamAt c 1)) (dispatchAll (demoEnv 0) (map frameOf demoFrames) demoServer) = Some (Some 1)"
proof
  have "list_all (\<lambda>(_, _, _, pl). length pl < 2 ^ 32) demoFrames" "length [1, 2, 3 :: byte] < frameHeaderSize" "\<not> connClosed demoServer"
    by (simp_all add: demoFrames_def demoServer_def newConnection_def frameHeaderSize_def)
  then show "handleDatagramLocked (demoEnv 0) (concat (map image demoFrames) @ [1, 2, 3]) demoServer = dispatchAll (demoEnv 0) (map frameOf demoFrames) demoServer"
    using coalesced_datagrams [of demoFrames "[1, 2, 3]" _ demoServer "demoEnv 0"] by simp
  show "map_option (\<lambda>c. map_option (\<lambda>s. readSeq (rd s)) (streamAt c 1)) (dispatchAll (demoEnv 0) (map frameOf demoFrames) demoServer) = Some (Some 1)"
    by code_simp
qed

theorem stream_isolation_witness:
  "\<exists>c'. handleDatagramLocked (demoEnv 0) (concat (map image demoFrames)) demoServer = Some c' \<and> streamAt c' 1 \<noteq> None \<and>
    streamAt c' 3 = None \<and> nextStream c' = 2 \<and> \<not> closing c'"
proof -
  have f: "framesOf (concat (map image demoFrames)) = map frameOf demoFrames"
    using framesOf_images [of demoFrames "[]"] by (simp add: demoFrames_def framesOf_short frameHeaderSize_def)
  have "map_option (\<lambda>c. \<not> Option.is_none (streamAt c 1)) (handleDatagramLocked (demoEnv 0) (concat (map image demoFrames)) demoServer) = Some True"
    by code_simp
  then obtain c' where c': "handleDatagramLocked (demoEnv 0) (concat (map image demoFrames)) demoServer = Some c'" "streamAt c' 1 \<noteq> None" by (auto simp: Option.is_none_def)
  have "3 \<notin> streamID ` set (framesOf (concat (map image demoFrames)))" "frameGoAway \<notin> ftype ` set (framesOf (concat (map image demoFrames)))"
    unfolding f by (simp_all add: demoFrames_def frameOf_def frame_type_defs)
  with stream_isolation [OF c'(1)] c' show ?thesis by (auto simp: demoServer_def newConnection_def streamAt_def)
qed

theorem keep_alive_monitor_witness:
  "\<exists>c. crun (map (\<lambda>k. (demoEnv k, if k = 1 then OpBatch (map image demoFrames) else OpKeepAlive)) [0, 1, 2, 3, 4]) demoServer = Some c \<and>
    missedPongs c = 3 \<and> \<not> closing c"
proof -
  let ?ops = "map (\<lambda>k. (demoEnv k, if k = 1 then OpBatch (map image demoFrames) else OpKeepAlive)) [0, 1, 2, 3, 4]"
  have "map_option connClosed (crun ?ops demoServer) = Some False" by code_simp
  then obtain c where c: "crun ?ops demoServer = Some c" by auto
  have "fold (\<lambda>(e, op). monitor op) ?ops (False, 0, False) = (False, 3, False)" by code_simp
  then show ?thesis using keep_alive_monitor [OF c [unfolded demoServer_def]] c by auto
qed

definition demoOps :: "(connEnv \<times> connOp) list" where
  "demoOps = [(demoEnv 1, OpBatch (map image demoFrames)), (demoEnv 2, OpOpen), (demoEnv 3, OpWrite 2 [8, 9] 0 demoSender), (demoEnv 4, OpTick), (demoEnv 5, OpClose)]"

declare Write.simps [code]

lemma demoOps_allowed: "callowed demoConnCfg 0 demoOps demoServer"
proof -
  let ?at = "\<lambda>n. crun (take n demoOps) demoServer"
  have w: "map_option (\<lambda>c. connClosed c \<or> \<not> writesOk (demoEnv 3) 2 (writeOp demoSender [8, 9] 0) c) (?at 2) = Some False" by code_simp
  have k: "map_option connClosed (?at 3) = Some False" by code_simp
  have "0 < dataCap demoConnCfg" by code_simp
  then show ?thesis using w k
    by (auto simp: demoOps_def cenabled_def demoEnv_ok demoSender_def split: option.split)
qed


end
