(* ===== verification/RecvFuel.thy ===== *)
theory RecvFuel
  imports RecvGrants
begin

text \<open>
  The recursion of the receive side. \<open>deliverLocked\<close>, \<open>fecRetryBaseLocked\<close> and \<open>tryReconstructLocked\<close> call each other in the
  source without a bound. The model gives the retry the number of pending parities as fuel; here the fuel disappears: it never
  runs out, and the functions satisfy the recursive equations of the source.
\<close>

section \<open>Pending parities along a delivery\<close>

definition sameFec :: "readSide \<Rightarrow> readSide \<Rightarrow> bool" where
  "sameFec s t \<longleftrightarrow> fecPending t = fecPending s \<and> fecPendingRow t = fecPendingRow s"

lemma sameFec_pendings: "sameFec s t \<Longrightarrow> pendings t = pendings s"
  by (simp add: sameFec_def pendings_def)

lemma sameFec_upd [simp]:
  "sameFec s (t\<lparr>rring := r\<rparr>) = sameFec s t" "sameFec s (t\<lparr>reorder := m\<rparr>) = sameFec s t" "sameFec s (t\<lparr>reorderBytes := z\<rparr>) = sameFec s t"
  "sameFec s (t\<lparr>readSeq := q\<rparr>) = sameFec s t" "sameFec s (t\<lparr>ackPendingSeqs := l\<rparr>) = sameFec s t" "sameFec s (t\<lparr>finRecvd := b\<rparr>) = sameFec s t"
  "sameFec s (t\<lparr>finSeq := q\<rparr>) = sameFec s t" "sameFec s (t\<lparr>readErr := er\<rparr>) = sameFec s t" "sameFec s (t\<lparr>grantPending := z\<rparr>) = sameFec s t"
  "sameFec s (t\<lparr>peerOffset := z\<rparr>) = sameFec s t" "sameFec s (t\<lparr>gapSeq := q\<rparr>) = sameFec s t" "sameFec s (t\<lparr>gapFirstSeenAt := z\<rparr>) = sameFec s t"
  "sameFec s (t\<lparr>lastNackAt := z\<rparr>) = sameFec s t" "sameFec s (t\<lparr>lastArrivalAt := z\<rparr>) = sameFec s t" "sameFec s (t\<lparr>maxSeenSeq := q\<rparr>) = sameFec s t"
  "sameFec s (t\<lparr>lastGrowAt := z\<rparr>) = sameFec s t" "sameFec s (t\<lparr>fecAcc := ac\<rparr>) = sameFec s t" "sameFec s (t\<lparr>fecAccRow := ac\<rparr>) = sameFec s t"
  "sameFec s (t\<lparr>rcalls := cl\<rparr>) = sameFec s t" "sameFec s (rcall call t) = sameFec s t" "sameFec s s"
  by (simp_all add: sameFec_def rcall_def)

lemma sameFec_ops [simp]:
  "sameFec s (grantLocked d t) = sameFec s t" "sameFec s (snd (fitOrGrow e n t)) = sameFec s t" "sameFec s (maybeGrowLocked e t) = sameFec s t"
  "sameFec s (fecFoldRecvLocked e sq pl t) = sameFec s t" "sameFec s (maybeEOFLocked t) = sameFec s t" "sameFec s (drainOne e pl t) = sameFec s t"
  "sameFec s (fireNackLocked t) = sameFec s t" "sameFec s (markArrival e t) = sameFec s t" "sameFec s (noteSeen sq t) = sameFec s t"
  "sameFec s (discardDelivery sq pl t) = sameFec s t"
  by (simp_all add: grantLocked_def fitOrGrow_def growLocked_def maybeGrowLocked_def fecFoldRecvLocked_def fecSweepLocked_def maybeEOFLocked_def
      drainOne_def fireNackLocked_def markArrival_def noteSeen_def discardDelivery_def Let_def split: prod.splits)

lemma sameFec_drain [simp]: "sameFec s (drainReorderLocked e t) = sameFec s t"
proof (induction e t rule: drainReorderLocked.induct)
  case (1 e t)
  show ?case
  proof (cases "mget (reorder t) (readSeq t)")
    case None
    then show ?thesis by (simp add: drainReorderLocked.simps [of e t])
  next
    case (Some d)
    obtain f t1 where f: "fitOrGrow e (length d) t = (f, t1)" by fastforce
    then have "sameFec s t1 = sameFec s t" using sameFec_ops(2) [of s e "length d" t] by simp
    then show ?thesis using 1 [OF Some f [symmetric]] Some f by (simp add: drainReorderLocked.simps [of e t])
  qed
qed

lemma sameFec_fast [simp]: "sameFec s (maybeFastRetransmitLocked e t) = sameFec s t"
  by (simp add: maybeFastRetransmitLocked_def Let_def)

lemma sameFec_le: "sameFec s t \<Longrightarrow> pendings t \<le> pendings s"
  by (simp add: sameFec_pendings)

text \<open>A delivery retries in a state with the pending parities it started with.\<close>

lemma bufferAhead_retry:
  assumes "\<And>t. sameFec s t \<Longrightarrow> retry sq t = retry' sq t"
  shows "bufferAhead e retry sq pl s = bufferAhead e retry' sq pl s"
  using assms by (simp add: bufferAhead_def Let_def)

lemma acceptNext_retry:
  assumes "\<And>t. sameFec s t \<Longrightarrow> retry sq t = retry' sq t"
  shows "acceptNext e retry sq pl s = acceptNext e retry' sq pl s"
proof -
  obtain fits s1 where f: "fitOrGrow e (length pl) s = (fits, s1)" by fastforce
  then have "sameFec s s1" using sameFec_ops(2) [of s e "length pl" s] by simp
  then show ?thesis using assms by (simp add: acceptNext_def f Let_def)
qed

lemma deliverWith_retry:
  assumes "\<And>t. sameFec s t \<Longrightarrow> retry sq t = retry' sq t"
  shows "deliverWith e retry s sq pl f = deliverWith e retry' s sq pl f"
proof -
  let ?t = "noteSeen sq (markArrival e s)"
  have s: "sameFec s ?t" by simp
  have "retry sq t = retry' sq t" if "sameFec ?t t" for t using assms that s by (simp add: sameFec_def)
  then have "deliverData e retry sq pl (markArrival e s) = deliverData e retry' sq pl (markArrival e s)"
    using bufferAhead_retry [of ?t retry sq retry'] acceptNext_retry [of ?t retry sq retry'] by (simp add: deliverData_def Let_def)
  then show ?thesis by (simp add: deliverWith_def deliverBody_def Let_def)
qed

lemma bufferAhead_shrinks:
  assumes "\<And>t. pendings (retry sq t) \<le> pendings t"
  shows "pendings (snd (bufferAhead e retry sq pl s)) \<le> pendings s"
proof -
  have "pendings (retry sq t) \<le> pendings s" if "sameFec s t" for t using order_trans [OF assms sameFec_le [OF that]] .
  then show ?thesis by (simp add: sameFec_le bufferAhead_def Let_def)
qed

lemma acceptNext_shrinks:
  assumes "\<And>t. pendings (retry sq t) \<le> pendings t"
  shows "pendings (snd (acceptNext e retry sq pl s)) \<le> pendings s"
proof -
  obtain fits s1 where f: "fitOrGrow e (length pl) s = (fits, s1)" by fastforce
  then have s1: "sameFec s s1" using sameFec_ops(2) [of s e "length pl" s] by simp
  have "pendings (retry sq t) \<le> pendings s" if "sameFec s t" for t using order_trans [OF assms sameFec_le [OF that]] .
  then show ?thesis using s1 by (simp add: sameFec_le acceptNext_def f Let_def)
qed

lemma deliverWith_shrinks:
  assumes "\<And>t. pendings (retry sq t) \<le> pendings t"
  shows "pendings (snd (deliverWith e retry s sq pl f)) \<le> pendings s"
proof -
  let ?t = "noteSeen sq (markArrival e s)"
  have t: "pendings ?t = pendings s" by (rule sameFec_pendings) simp
  have "pendings (snd (deliverData e retry sq pl (markArrival e s))) \<le> pendings s"
    using bufferAhead_shrinks [of retry sq e pl ?t, OF assms] acceptNext_shrinks [of retry sq e pl ?t, OF assms] t
    by (simp add: deliverData_def Let_def)
  then have b: "pendings (snd (deliverBody e retry s sq pl f)) \<le> pendings s"
    by (simp add: deliverBody_def Let_def sameFec_le)
  have "pendings (t\<lparr>ackPendingSeqs := l\<rparr>) = pendings t" for t l by (simp add: pendings_def)
  then show ?thesis using b by (cases f) (simp_all add: deliverWith_def split_beta Let_def)
qed

section \<open>The fuel is enough\<close>

lemma length_mdel: "length (mdel k m) \<le> length m" "mget m k \<noteq> None \<Longrightarrow> length (mdel k m) < length m"
proof -
  show le: "length (mdel k m) \<le> length m" for m :: "('a, 'b) gomap" by (simp add: mdel_def AList.delete_eq)
  show "length (mdel k m) < length m" if "mget m k \<noteq> None"
    using that le by (induction m) (auto simp: mdel_def mget_def le_imp_less_Suc)
qed

lemma length_mput: "length (mput k v m) \<le> Suc (length m)"
  by (cases "mget m k") (simp_all add: length_mput_Some length_mput_None)

lemma pendings_mdel: "mget (pendingOf row s) base \<noteq> None \<Longrightarrow> pendings (setPending row (mdel base (pendingOf row s)) s) < pendings s"
  using length_mdel(2) by (fastforce simp: pendings_def setPending_def pendingOf_def)

lemma pendings_mput: "pendings (setPending row (mput base p (pendingOf row s)) s) \<le> Suc (pendings s)"
  using length_mput [of base p "fecPending s"] length_mput [of base p "fecPendingRow s"] by (simp add: pendings_def setPending_def pendingOf_def)

lemma pendings_rcall [simp]: "pendings (rcall call s) = pendings s"
  by (rule sameFec_pendings) simp

lemma reconstruct_cong: "dlv s = dlv' s \<Longrightarrow> tryReconstructLocked e dlv row base k xl xd s = tryReconstructLocked e dlv' row base k xl xd s"
  unfolding tryReconstructLocked_def by (simp only:)

lemma retrySeq_shrinks:
  assumes "\<And>row base t. pendings (rb row base t) \<le> pendings t"
  shows "pendings (fecRetrySeqLocked e rb sq t) \<le> pendings t"
  using assms order_trans [OF assms assms] by (simp add: fecRetrySeqLocked_def Let_def)

lemma retryBase_shrinks: "pendings (fecRetryBaseLocked e k row base s) \<le> pendings s"
proof (induction k arbitrary: row base s)
  case (Suc k)
  show ?case
  proof (cases "mget (pendingOf row s) base")
    case (Some p)
    let ?s1 = "setPending row (mdel base (pendingOf row s)) s"
    let ?dlv = "\<lambda>s sq d. snd (deliverWith e (fecRetrySeqLocked e (fecRetryBaseLocked e k)) s sq d False)"
    obtain oc s2 where r: "tryReconstructLocked e ?dlv row base (pCount p) (pXorLen p) (pData p) ?s1 = (oc, s2)" by fastforce
    have "pendings (?dlv t sq d) \<le> pendings t" for t sq d
      by (rule deliverWith_shrinks) (rule retrySeq_shrinks [OF Suc.IH])
    then have "pendings s2 \<le> pendings ?s1" using reconstruct_result [of ?dlv ?s1 e row base "pCount p" "pXorLen p" "pData p"]
      by (auto simp: stays_def r)
    then have "pendings s2 < pendings s" using pendings_mdel [of row s base] Some by simp
    then show ?thesis using Some r pendings_mput [of row base p s2] by (cases oc) (simp_all add: Let_def)
  qed simp
qed simp

lemma retryBase_fuel:
  "pendings s \<le> n \<Longrightarrow> pendings s \<le> k \<Longrightarrow> fecRetryBaseLocked e n row base s = fecRetryBaseLocked e k row base s"
proof (induction n arbitrary: k row base s)
  case 0
  then have "mget (pendingOf row s) base = None" by (simp add: pendings_def pendingOf_def)
  then show ?case by (cases k) simp_all
next
  case (Suc n)
  show ?case
  proof (cases "mget (pendingOf row s) base")
    case None
    then show ?thesis by (cases k) simp_all
  next
    case (Some p)
    let ?s1 = "setPending row (mdel base (pendingOf row s)) s"
    have lt: "pendings ?s1 < pendings s" using pendings_mdel [of row s base] Some by simp
    then obtain j where k: "k = Suc j" using Suc.prems(2) by (cases k) auto
    let ?dn = "\<lambda>s sq d. snd (deliverWith e (fecRetrySeqLocked e (fecRetryBaseLocked e n)) s sq d False)"
      and ?dj = "\<lambda>s sq d. snd (deliverWith e (fecRetrySeqLocked e (fecRetryBaseLocked e j)) s sq d False)"
    have rb: "fecRetryBaseLocked e n r b t = fecRetryBaseLocked e j r b t" if "pendings t \<le> pendings ?s1" for r b t
      using Suc.IH [of t j r b] Suc.prems lt k that by simp
    have "fecRetrySeqLocked e (fecRetryBaseLocked e n) sq t = fecRetrySeqLocked e (fecRetryBaseLocked e j) sq t" if "sameFec ?s1 t" for sq t
      using rb [of t] rb [of "fecRetryBaseLocked e j False (fst (fecGroupOf (grp e) sq)) t"] sameFec_pendings [OF that]
        retryBase_shrinks [of e j False "fst (fecGroupOf (grp e) sq)" t] by (simp add: fecRetrySeqLocked_def Let_def)
    then have "?dn ?s1 = ?dj ?s1"
      by (intro ext) (simp add: deliverWith_retry [of ?s1 "fecRetrySeqLocked e (fecRetryBaseLocked e n)" _ "fecRetrySeqLocked e (fecRetryBaseLocked e j)"])
    then have cong: "tryReconstructLocked e ?dn row base (pCount p) (pXorLen p) (pData p) ?s1 = tryReconstructLocked e ?dj row base (pCount p) (pXorLen p) (pData p) ?s1"
      by (rule reconstruct_cong)
    show ?thesis using Some k by (simp add: Let_def cong)
  qed
qed

text \<open>The retry without fuel.\<close>

definition retryPending :: "recvEnv \<Rightarrow> bool \<Rightarrow> u32 \<Rightarrow> readSide \<Rightarrow> readSide" where
  "retryPending e row base s = fecRetryBaseLocked e (pendings s) row base s"

lemma deliver_fuel:
  assumes "pendings s \<le> k"
  shows "deliverWith e (fecRetrySeqLocked e (fecRetryBaseLocked e k)) s sq pl f = deliverWith e (fecRetrySeqLocked e (retryPending e)) s sq pl f"
proof (rule deliverWith_retry)
  fix t assume "sameFec s t"
  then have t: "pendings t \<le> k" using assms sameFec_pendings by simp
  have "fecRetryBaseLocked e k r b u = retryPending e r b u" if "pendings u \<le> k" for r b u
    unfolding retryPending_def using that by (intro retryBase_fuel) simp_all
  then show "fecRetrySeqLocked e (fecRetryBaseLocked e k) sq t = fecRetrySeqLocked e (retryPending e) sq t"
    using t order_trans [OF retryBase_shrinks t] by (simp add: fecRetrySeqLocked_def Let_def retryPending_def)
qed

text \<open>C11 (termination). The mutual recursion of delivery, parity retry and reconstruction ends, and the bound the model puts on it is never
  felt: \<open>deliverLocked\<close> is the delivery whose retries are unbounded, and the unbounded retry satisfies the recursive
  equation of the source, in which a successful reconstruction calls \<open>deliverLocked\<close> again.\<close>

theorem retry_recursion:
  "deliverLocked e s sq pl isFin = deliverWith e (fecRetrySeqLocked e (retryPending e)) s sq pl isFin \<and>
   retryPending e row base s =
     (case mget (pendingOf row s) base of
        None \<Rightarrow> s
      | Some p \<Rightarrow>
          (case tryReconstructLocked e (\<lambda>t q d. snd (deliverLocked e t q d False)) row base (pCount p) (pXorLen p) (pData p)
                  (setPending row (mdel base (pendingOf row s)) s) of
             (fecPendingMembers, s2) \<Rightarrow> setPending row (mput base p (pendingOf row s2)) s2
           | (fecRecovered, s2) \<Rightarrow> rcall CallStatFecRecovered s2
           | (fecUseless, s2) \<Rightarrow> s2))"
proof
  have dl: "deliverLocked e t q d f = deliverWith e (fecRetrySeqLocked e (retryPending e)) t q d f" for t q d f
    unfolding deliverLocked_def by (rule deliver_fuel) simp
  then show "deliverLocked e s sq pl isFin = deliverWith e (fecRetrySeqLocked e (retryPending e)) s sq pl isFin" .
  show "retryPending e row base s =
     (case mget (pendingOf row s) base of
        None \<Rightarrow> s
      | Some p \<Rightarrow>
          (case tryReconstructLocked e (\<lambda>t q d. snd (deliverLocked e t q d False)) row base (pCount p) (pXorLen p) (pData p)
                  (setPending row (mdel base (pendingOf row s)) s) of
             (fecPendingMembers, s2) \<Rightarrow> setPending row (mput base p (pendingOf row s2)) s2
           | (fecRecovered, s2) \<Rightarrow> rcall CallStatFecRecovered s2
           | (fecUseless, s2) \<Rightarrow> s2))"
  proof (cases "mget (pendingOf row s) base")
    case None
    then show ?thesis unfolding retryPending_def by (cases "pendings s") simp_all
  next
    case (Some p)
    let ?s1 = "setPending row (mdel base (pendingOf row s)) s"
    have lt: "pendings ?s1 < pendings s" using pendings_mdel [of row s base] Some by simp
    then obtain k where k: "pendings s = Suc k" "pendings ?s1 \<le> k" by (cases "pendings s") auto
    let ?dn = "\<lambda>t q d. snd (deliverWith e (fecRetrySeqLocked e (fecRetryBaseLocked e k)) t q d False)"
      and ?dj = "\<lambda>t q d. snd (deliverLocked e t q d False)"
    have "?dn ?s1 = ?dj ?s1"
      by (intro ext) (simp add: dl deliver_fuel [OF k(2)])
    then have cong: "tryReconstructLocked e ?dn row base (pCount p) (pXorLen p) (pData p) ?s1 = tryReconstructLocked e ?dj row base (pCount p) (pXorLen p) (pData p) ?s1"
      by (rule reconstruct_cong)
    show ?thesis unfolding retryPending_def k(1) using Some by (simp add: Let_def cong)
  qed
qed

end
