(* ===== verification/Spec2Isabelle.thy ===== *)
theory Spec2Isabelle
  imports Frame Pacer Options Ring Stream Recv RecvProps RetransmitProps Session Rto BatchProps Resend ConnProps RecvFuel
begin

text \<open>
  Verification of anadromous, a reliable, multiplexed stream transport over UDP (\<open>src/*.go\<close>).

  \<^bold>\<open>The program.\<close> A \<open>Connection\<close> joins two endpoints over one connected UDP socket and carries many \<open>Stream\<close>s. A stream's
  \<open>Write\<close> cuts its bytes into DATA frames, within the window the peer granted and the in-flight cap, folds them into
  FEC lanes, and hands each to the connection, which records it in the retransmission queue and queues it in a batch of
  message slots. A full batch passes the pacer and goes to the kernel with one \<open>sendmmsg\<close>, or through an io_uring that
  keeps one batch in flight while the next is built. The receiving connection takes datagrams in batches, splits them
  into frames and dispatches them: DATA to the stream's reassembly (reorder map, ring, FEC accumulators), ACK and NACK
  to the retransmission queue, window updates to the write sides. After a batch it acknowledges what it received. Timers drive
  retransmissions, tail NACKs, the collection of finished streams and the keep-alive.

  \<^bold>\<open>Theories and sources.\<close>

  \<^item> \<open>Prelude\<close>: Go's machine types, slices, \<open>copy\<close>, maps, truncating division, big-endian bytes; shared lemmas and collections.
  \<^item> \<open>Frame\<close> (\<open>frame.go\<close>): header, frames, sequence lists, payloads. Encoders return \<open>None\<close> where the code would panic.
  \<^item> \<open>Options\<close> (\<open>options.go\<close>): \<open>config\<close>, its defaults, every option and derived value.
  \<^item> \<open>Pacer\<close> (\<open>pacer.go\<close>): the shared token bucket; a call of \<open>waitBatch\<close> both as a function and as steps that calls of other
    connections interleave with.
  \<^item> \<open>Ring\<close>, \<open>Stream\<close>, \<open>Recv\<close> (\<open>stream.go\<close>, \<open>errors.go\<close>): the ring buffer, the \<open>Stream\<close> struct split along its two locks
    into \<open>readSide\<close> and \<open>writeSide\<close>, and every method under \<open>readMu\<close>. \<open>RecvInv\<close>, \<open>RecvFec\<close>, \<open>RecvDeliver\<close>, \<open>RecvRun\<close>, \<open>RecvProps\<close>
    hold the invariant, its preservation and the properties; \<open>RecvGrants\<close> what a read side tells its connection; \<open>RecvFuel\<close>
    the recursion of delivery and reconstruction; \<open>Fec\<close> the XOR algebra.
  \<^item> \<open>Send\<close> (\<open>stream.go\<close>): every method under \<open>writeMu\<close>; \<open>SendRun\<close>, \<open>SendFec\<close>, \<open>SendProps\<close> its rounds, lanes and properties.
  \<^item> \<open>Retransmit\<close> (\<open>retransmit.go\<close>): arena, entry pool, index map and linked list on an explicit heap; \<open>RetransmitInv\<close>,
    \<open>RetransmitOps\<close>, \<open>RetransmitSend\<close>, \<open>RetransmitProps\<close> refine it to a list of outstanding frames.
  \<^item> \<open>Session\<close>: one direction of a stream end to end, the write side, an arbitrary network and the read side.
  \<^item> \<open>Rto\<close> (\<open>connection.go\<close>): round-trip estimation, timeouts and in-flight caps.
  \<^item> \<open>Batch\<close> (\<open>connection.go\<close>): slots, iovecs, zero copy, GSO packing, pacing classes, both flushes and every sender of
    frames; \<open>BatchInv\<close>, \<open>BatchOps\<close>, \<open>BatchPack\<close>, \<open>BatchRun\<close>, \<open>BatchProps\<close> relate it to a queue of frames.
  \<^item> \<open>Resend\<close> (\<open>connection.go\<close>): the resend queue and its worker.
  \<^item> \<open>Conn\<close> (\<open>connection.go\<close>): the \<open>Connection\<close> record, the stream table, the receive path from a datagram to the streams,
    the ACK flush, garbage collection, tail NACKs, keep-alive, \<open>Close\<close>. \<open>SendSafe\<close> is the send path as a
    connection uses it, \<open>ConnInv\<close> the type of its states, \<open>ConnSafe\<close> preservation, \<open>ConnRun\<close> its runs,
    \<open>ConnLocal\<close> what one frame can change, \<open>ConnProps\<close> the properties.

  A struct is a record with the names of the source, a method a function from the state (and what it reads from outside) to the result
  and the new state; errors are values; a panic is \<open>None\<close>. \<open>int\<close> and \<open>int64\<close> are \<open>int\<close> with the wrap-around written out
  where it can occur, \<open>uint32\<close> and \<open>uint64\<close> are words. A stream method that calls the connection records the call in
  \<open>rcalls\<close> or \<open>wcalls\<close>, and \<open>Conn.storeStream\<close> performs the calls in order, so the
  composition of the two is the code's. A critical section is one step; each step reads the clock once. Go leaves the order of \<open>range\<close>
  over a map open: it is the argument \<open>korder\<close>, any permutation.

  \<^bold>\<open>What the theorems show.\<close> End to end (\<open>Session\<close>): whatever the network does, the reader sees a prefix of what was written
  and nothing else, gets all of it once the frames are there, and never refuses a frame that respects the window. Receive side:
  integrity, completeness, acceptance within the window, soundness of acknowledgements, recovery of a single loss, exact
  NACKs, and that the recursion ends. Send side: windows respected, \<open>Write\<close> on every branch, error
  values. Retransmission queue: refinement to a list, zero-copy stability, exact scans and acknowledgements. Send path: it is a
  lossless ordered queue for every mix of packings and flushes, memory the kernel reads is not touched, pacing is
  exact. Resend worker: it serves each request once, faithfully. Connection: every run is free of panics and well typed whatever the
  peer sends, streams are isolated, coalesced datagrams mean their frames, and liveness follows the abstract monitor.
  Besides: wire round trips, pacing conformance, well-formed configurations, RTT bounds.

  \<^bold>\<open>Interfaces.\<close> \<open>observer\<close> (what the connection relies on of a read side) is interpreted for announced credit
  and for the ownership of calls; the other locales state the contracts of the theories that declare them and are interpreted
  there on the model's definitions.

  \<^bold>\<open>Bounds and fuel.\<close> Loops are structural or have a measure, except: \<open>Write\<close> is a partial function, and
  \<open>SendProps\<close> shows that it returns; the retry of pending parities has their number as fuel, which \<open>RecvFuel\<close> shows is
  enough; the walk of \<open>due\<close> has one unit per entry ever allocated, enough by \<open>RetransmitProps\<close>; the gap scan has one unit per
  sequence number it can visit. Streams are followed up to \<open>2^32\<close> frames and a connection up to \<open>2^31\<close> operations: beyond, sequence
  numbers and stream IDs wrap and the code is wrong (see the findings of the manifest).

  \<^bold>\<open>Not modelled.\<close> System calls and what the kernel does are arguments (\<open>kernelRes\<close>): sockets and their options, \<open>Dial\<close>'s and
  \<open>Listen\<close>'s set-up, \<open>parseAddr\<close>, \<open>generateConnID\<close>, mapping the io_uring. Goroutine scheduling appears as the order of steps, mutexes as their atomicity;
  timers, contexts and condition variables as choices of the environment. Buffer pools appear through the arbitrary contents of the buffers they return.
\<close>

end
